(* ===== verification/Go_Prelude.thy ===== *)
theory Go_Prelude
  imports Main "HOL-Library.Word" "HOL-Library.Multiset"
begin

unbundle bit_operations_syntax

section \<open>Shared types, Go errors and big-endian integers\<close>

text \<open>
  What every component shares: bytes and byte slices, Go's error values as a datatype, the
  \<open>encoding/binary\<close> big-endian 16-bit accessors, subslice expressions, and the collections of
  rewrite rules (\<open>go_simps\<close> for slices and integers, \<open>err_simps\<close> for errors) the component
  proofs use.
\<close>

named_theorems go_simps \<open>slices, big-endian integers and writers\<close>
named_theorems err_simps \<open>the error chain\<close>

type_synonym byte = "8 word"
type_synonym bytes = "8 word list"
type_synonym u16 = "16 word"
type_synonym i16 = "16 word"  \<comment> \<open>int16, read with \<open>sint\<close>\<close>
type_synonym i32 = "32 word"  \<comment> \<open>int32, read with \<open>sint\<close>\<close>
type_synonym i64 = "64 word"  \<comment> \<open>int64, read with \<open>sint\<close>\<close>

text \<open>
  \<open>time.Time\<close> and \<open>time.Duration\<close>: nanoseconds as an integer, the zero Time is 0. A duration
  is an int64 in Go; every duration of the code is a small constant or a difference of two
  clock readings, far from the bounds of int64.
\<close>

type_synonym gotime = int
type_synonym duration = int

definition second :: duration where "second = 1000000000"
definition millisecond :: duration where "millisecond = 1000000"

text \<open>\<open>net.IP\<close> is a byte slice, \<open>nil\<close> the empty one; \<open>net.TCPAddr\<close> without its zone.\<close>

type_synonym ip = bytes

record tcpaddr =
  ta_ip :: ip
  ta_port :: int

subsection \<open>Errors\<close>

text \<open>
  The error values the code creates or inspects. \<open>EQuery\<close> is \<open>queryError\<close>, \<open>EHTTP\<close> is
  \<open>httpError\<close>, \<open>EWrap\<close> is \<open>fmt.Errorf\<close> with \<open>%w\<close>, \<open>ENet t\<close> is an error that implements
  \<open>net.Error\<close> with \<open>Timeout()\<close> equal to \<open>t\<close>; \<open>ECanceled\<close> is \<open>context.Canceled\<close>.
\<close>

datatype dstatus = Complete | SendFailed | HTTPError | BadQuery | BadResponse | InternalError

datatype goerr =
    EMsg string
  | ECanceled
  | EEOF
  | EUnexpectedEOF
  | EClosed
  | EInvalidWrite
  | EShortWrite
  | EOversizeDNS
  | ENet bool
  | EHTTP nat
  | EQuery dstatus goerr
  | EWrap string goerr

text \<open>\<open>errors.Is(err, target)\<close> for a comparable target: walk the \<open>Unwrap\<close> chain.\<close>

fun errors_is :: "goerr \<Rightarrow> goerr \<Rightarrow> bool" where
  "errors_is (EQuery s e) t = (EQuery s e = t \<or> errors_is e t)"
| "errors_is (EWrap m e) t = (EWrap m e = t \<or> errors_is e t)"
| "errors_is e t = (e = t)"

text \<open>\<open>errors.As(err, &neterr)\<close>: the \<open>Timeout()\<close> of the first \<open>net.Error\<close> of the chain.\<close>

fun errors_as_net :: "goerr \<Rightarrow> bool option" where
  "errors_as_net (ENet t) = Some t"
| "errors_as_net (EQuery s e) = errors_as_net e"
| "errors_as_net (EWrap m e) = errors_as_net e"
| "errors_as_net e = None"

text \<open>\<open>errors.As(err, &herr)\<close> with \<open>herr *httpError\<close>: the status it carries.\<close>

fun errors_as_http :: "goerr \<Rightarrow> nat option" where
  "errors_as_http (EHTTP c) = Some c"
| "errors_as_http (EQuery s e) = errors_as_http e"
| "errors_as_http (EWrap m e) = errors_as_http e"
| "errors_as_http e = None"

subsection \<open>Big-endian 16-bit integers\<close>

text \<open>
  \<open>binary.BigEndian.Uint16(b)\<close> reads \<open>b[0]\<close> and \<open>b[1]\<close> and panics on a shorter slice; the
  models call it where the length is known, and where the code does not check the length
  they have a branch for the panic.
\<close>

definition be16 :: "bytes \<Rightarrow> u16" where
  "be16 b = push_bit 8 (ucast (b ! 0)) OR ucast (b ! 1)"

definition enc16 :: "u16 \<Rightarrow> bytes" where
  "enc16 v = [ucast (drop_bit 8 v), ucast v]"

text \<open>\<open>binary.BigEndian.PutUint16(b[i:], v)\<close>, in place.\<close>

definition put16 :: "nat \<Rightarrow> u16 \<Rightarrow> bytes \<Rightarrow> bytes" where
  "put16 i v b = b[i := ucast (drop_bit 8 v), Suc i := ucast v]"

definition subslice :: "nat \<Rightarrow> nat \<Rightarrow> 'a list \<Rightarrow> 'a list" where
  "subslice i j xs = take (j - i) (drop i xs)"

lemma length_enc16 [simp]: "length (enc16 v) = 2"
  by (simp add: enc16_def)

lemma length_put16 [simp]: "length (put16 i v b) = length b"
  by (simp add: put16_def)

lemma be16_enc16 [simp, go_simps]: "be16 (enc16 v @ r) = v"
  unfolding be16_def enc16_def
  by (rule bit_word_eqI) (auto simp: bit_simps)

lemma be16_enc16_nil [simp, go_simps]: "be16 (enc16 v) = v"
  using be16_enc16 [of v "[]"] by simp

lemma enc16_nth [simp, go_simps]:
  "enc16 v ! 0 = ucast (drop_bit 8 v)" "enc16 v ! Suc 0 = ucast v"
  by (simp_all add: enc16_def)

lemma put16_zero [go_simps]: "2 \<le> length b \<Longrightarrow> put16 0 v b = enc16 v @ drop 2 b"
proof -
  assume "2 \<le> length b"
  then obtain x y r where "b = x # y # r"
    by (metis Suc_le_length_iff numeral_2_eq_2)
  then show ?thesis by (simp add: put16_def enc16_def)
qed

lemma enc16_be16 [go_simps]: "2 \<le> length b \<Longrightarrow> enc16 (be16 b) = take 2 b"
proof -
  assume "2 \<le> length b"
  then obtain x y r where b: "b = x # y # r"
    by (metis Suc_le_length_iff numeral_2_eq_2)
  have "ucast (drop_bit 8 (push_bit 8 (ucast x) OR ucast y :: u16)) = x"
    by (rule bit_word_eqI) (auto simp: bit_simps dest: bit_imp_le_length)
  moreover have "ucast (push_bit 8 (ucast x) OR ucast y :: u16) = y"
    by (rule bit_word_eqI) (auto simp: bit_simps)
  ultimately show ?thesis using b by (simp add: enc16_def be16_def)
qed

lemma put16_be16_id: "2 \<le> length b \<Longrightarrow> put16 0 (be16 b) b = b"
  by (simp add: put16_zero enc16_be16)

lemma put16_put16 [simp]: "2 \<le> length b \<Longrightarrow> put16 0 u (put16 0 v b) = put16 0 u b"
  by (simp add: put16_zero)

lemma be16_put16 [simp, go_simps]: "2 \<le> length b \<Longrightarrow> be16 (put16 0 v b) = v"
  by (simp add: put16_zero)

lemma drop_put16 [simp]: "2 \<le> length b \<Longrightarrow> drop 2 (put16 0 v b) = drop 2 b"
  by (simp add: put16_zero)

lemma unat_be16_less: "unat (be16 b) < 65536"
  using unsigned_less [of "be16 b"] by simp

lemma unat_of_nat16 [simp]: "n < 65536 \<Longrightarrow> unat (of_nat n :: u16) = n"
  by (simp add: unat_of_nat)

subsection \<open>Options\<close>

lemma if_Some_None_eq [simp]:
  "((if b then None else Some x) = Some y) = (\<not> b \<and> x = y)"
  "((if b then Some x else None) = Some y) = (b \<and> x = y)"
  by auto

end
