(* ===== verification/Go_IO.thy ===== *)
theory Go_IO
  imports Go_Prelude
begin

section \<open>Readers, writers and TCP sockets of the Go standard library\<close>

text \<open>
  What the code uses of \<open>io\<close> and \<open>net\<close>: a writer is a state with a function that returns the new
  state, the count and the error; its contract is the locale \<open>io_writer\<close>. A reader is the list of
  results its \<open>Read\<close> calls give, \<open>io.EOF\<close> after the last. \<open>tcp_conn\<close> is the part of
  \<open>net.TCPConn\<close> the code depends on: the segments handed to the kernel, the half-close flags, the
  deadlines, and the outcome the environment has in store for the coming writes.
\<close>

subsection \<open>io.Reader\<close>

type_synonym source = "(bytes \<times> goerr option) list"

text \<open>\<open>Read\<close> into a buffer of \<open>cap\<close> bytes: a longer chunk is delivered in parts.\<close>

definition src_read :: "nat \<Rightarrow> source \<Rightarrow> bytes \<times> goerr option \<times> source" where
  "src_read cap s = (case s of [] \<Rightarrow> ([], Some EEOF, [])
     | (d, e) # r \<Rightarrow> if length d \<le> cap then (d, e, r) else (take cap d, None, (drop cap d, e) # r))"

text \<open>The bytes a reader delivers before it fails.\<close>

fun src_data :: "source \<Rightarrow> bytes" where
  "src_data [] = []"
| "src_data ((d, None) # r) = d @ src_data r"
| "src_data ((d, Some e) # r) = d"

lemma src_read_data:
  "src_read cap s = (d, er, s') \<Longrightarrow> src_data s = d @ (if er = None then src_data s' else [])"
  by (cases s rule: src_data.cases) (auto simp: src_read_def split: if_splits)

text \<open>
  \<open>io.ReadFull(r, buf)\<close> with \<open>n\<close> bytes of the buffer still to fill and \<open>got\<close> read so far; the
  result has the bytes read, the error and the reader's rest.
\<close>

fun read_full_from :: "nat \<Rightarrow> bytes \<Rightarrow> source \<Rightarrow> bytes \<times> goerr option \<times> source" where
  "read_full_from 0 got s = (got, None, s)"
| "read_full_from (Suc m) got [] = (got, Some (if got = [] then EEOF else EUnexpectedEOF), [])"
| "read_full_from (Suc m) got ((d, None) # r) =
     (if Suc m < length d then (got @ take (Suc m) d, None, (drop (Suc m) d, None) # r)
      else read_full_from (Suc m - length d) (got @ d) r)"
| "read_full_from (Suc m) got ((d, Some e) # r) =
     (if Suc m < length d then (got @ take (Suc m) d, None, (drop (Suc m) d, Some e) # r)
      else if length d = Suc m then (got @ d, None, r)
      else (got @ d, Some (if got @ d \<noteq> [] \<and> e = EEOF then EUnexpectedEOF else e), r))"

definition ReadFull :: "nat \<Rightarrow> source \<Rightarrow> bytes \<times> goerr option \<times> source" where
  "ReadFull n s = read_full_from n [] s"

lemma read_full_from_ok:
  "n \<le> length (src_data s) \<Longrightarrow>
     \<exists>s'. read_full_from n got s = (got @ take n (src_data s), None, s')"
  by (induction n got s rule: read_full_from.induct) auto

lemma read_full_from_length:
  "read_full_from n got s = (b, None, s') \<Longrightarrow> length b = length got + n"
  by (induction n got s arbitrary: b s' rule: read_full_from.induct) (auto split: if_splits)

lemma read_full_from_rest:
  "read_full_from n got s = (b, None, s') \<Longrightarrow> \<forall>p\<in>set s. snd p = None \<Longrightarrow>
     src_data s' = drop n (src_data s) \<and> (\<forall>p\<in>set s'. snd p = None)"
  by (induction n got s arbitrary: b s' rule: read_full_from.induct) (auto split: if_splits)

lemma ReadFull_ok:
  "n \<le> length (src_data s) \<Longrightarrow> \<exists>s'. ReadFull n s = (take n (src_data s), None, s')"
  using read_full_from_ok [of n s "[]"] by (simp add: ReadFull_def)

lemma ReadFull_length: "ReadFull n s = (b, None, s') \<Longrightarrow> length b = n"
  using read_full_from_length [of n "[]" s b s'] by (simp add: ReadFull_def)

text \<open>\<open>io.ReadAll\<close>: everything up to the end, which is no error.\<close>

fun ReadAll :: "source \<Rightarrow> bytes \<times> goerr option" where
  "ReadAll [] = ([], None)"
| "ReadAll ((d, None) # r) = (let (b, e) = ReadAll r in (d @ b, e))"
| "ReadAll ((d, Some e) # r) = (d, if e = EEOF then None else Some e)"

subsection \<open>io.Writer\<close>

text \<open>
  The contract of \<open>io.Writer\<close> as its documentation states it: \<open>Write\<close> returns the number of bytes
  of \<open>b\<close> it wrote, at most all of them, and an error whenever it wrote fewer.
\<close>

locale io_writer =
  fixes wr :: "'w \<Rightarrow> bytes \<Rightarrow> 'w \<times> nat \<times> goerr option"
    and stream :: "'w \<Rightarrow> bytes"
  assumes write_stream: "wr w b = (w', n, e) \<Longrightarrow> stream w' = stream w @ take n b"
    and write_le: "wr w b = (w', n, e) \<Longrightarrow> n \<le> length b"
    and write_full: "wr w b = (w', n, None) \<Longrightarrow> n = length b"
begin

lemma write_all: "wr w b = (w', n, None) \<Longrightarrow> stream w' = stream w @ b"
  using write_stream [of w b w' n None] write_full [of w b w' n] by simp

end

text \<open>
  \<open>io.Copy(dst, src)\<close>, the generic loop over a 32 KiB buffer; a count outside the contract becomes
  \<open>errInvalidWrite\<close>.
\<close>

function copy_loop :: "('w \<Rightarrow> bytes \<Rightarrow> 'w \<times> nat \<times> goerr option) \<Rightarrow> 'w \<Rightarrow> source \<Rightarrow> nat
    \<Rightarrow> 'w \<times> nat \<times> goerr option" where
  "copy_loop wr w s written =
     (case src_read 32768 s of (d, er, s') \<Rightarrow>
        if d \<noteq> [] then
          (case wr w d of (w', nw, ew) \<Rightarrow>
             let bad = length d < nw;
                 nw' = (if bad then 0 else nw);
                 ew' = (if bad \<and> ew = None then Some EInvalidWrite else ew);
                 written' = written + nw'
             in if ew' \<noteq> None then (w', written', ew')
                else if length d \<noteq> nw' then (w', written', Some EShortWrite)
                else case er of
                    Some e \<Rightarrow> (w', written', if e = EEOF then None else Some e)
                  | None \<Rightarrow> copy_loop wr w' s' written')
        else case er of
            Some e \<Rightarrow> (w, written, if e = EEOF then None else Some e)
          | None \<Rightarrow> copy_loop wr w s' written)"
  by pat_completeness auto
termination
proof (relation "measure (\<lambda>(wr, w, s, written). length s + length (concat (map fst s)))",
    goal_cases)
  case 1
  show ?case by simp
next
  case (2 wr w s written)
  then show ?case by (auto simp: src_read_def split: list.splits if_splits)
next
  case (3 wr w s written)
  then show ?case by (auto simp: src_read_def split: list.splits if_splits)
qed

declare copy_loop.simps [simp del]

definition io_Copy :: "('w \<Rightarrow> bytes \<Rightarrow> 'w \<times> nat \<times> goerr option) \<Rightarrow> 'w \<Rightarrow> source
    \<Rightarrow> 'w \<times> nat \<times> goerr option" where
  "io_Copy wr w s = copy_loop wr w s 0"

context io_writer
begin

text \<open>A copy that succeeds moved exactly the reader's bytes, and the count says how many.\<close>

lemma copy_loop_all:
  "f = wr \<Longrightarrow> copy_loop f w s k = (w', n, None) \<Longrightarrow>
     stream w' = stream w @ src_data s \<and> n = k + length (src_data s)"
proof (induction f w s k rule: copy_loop.induct)
  case (1 f w s k)
  obtain d er s1 where rd: "src_read 32768 s = (d, er, s1)" by (metis prod_cases3)
  note data = src_read_data [OF rd]
  obtain w1 nw ew where wr1: "wr w d = (w1, nw, ew)" by (metis prod_cases3)
  show ?case
  proof (cases "er = None")
    case True
    with "1.prems" "1.IH" data rd wr1
    show ?thesis
      using write_le [OF wr1] write_stream [OF wr1]
      by (auto simp: copy_loop.simps [of wr w s k] Let_def split: if_splits)
  next
    case False
    then show ?thesis
      using "1.prems" data rd wr1 write_le [OF wr1] write_stream [OF wr1]
      by (auto simp: copy_loop.simps [of wr w s k] Let_def split: if_splits)
  qed
qed

text \<open>One that fails has moved a first part of them, as long as the count says.\<close>

lemma copy_loop_part:
  "f = wr \<Longrightarrow> copy_loop f w s k = (w', n, e) \<Longrightarrow>
     k \<le> n \<and> n - k \<le> length (src_data s) \<and> stream w' = stream w @ take (n - k) (src_data s)"
proof (induction f w s k rule: copy_loop.induct)
  case (1 f w s k)
  obtain d er s1 where rd: "src_read 32768 s = (d, er, s1)" by (metis prod_cases3)
  note data = src_read_data [OF rd]
  obtain w1 nw ew where wr1: "wr w d = (w1, nw, ew)" by (metis prod_cases3)
  note le = write_le [OF wr1]
  note loop = "1.prems"(2) [unfolded "1.prems"(1) copy_loop.simps [of wr w s k] rd]
  consider (skip) "d = []" "er = None" | (stop) "d = []" "er \<noteq> None"
    | (last) "d \<noteq> []" "ew \<noteq> None \<or> length d \<noteq> nw \<or> er \<noteq> None" | (more) "d \<noteq> []" "ew = None" "length d = nw" "er = None"
    by blast
  then show ?case
  proof cases
    case skip
    then have "copy_loop wr w s1 k = (w', n, e)" using loop by simp
    with "1.IH"(2) [OF rd [symmetric] refl] skip "1.prems"(1) data show ?thesis by simp
  next
    case stop
    then show ?thesis using loop by auto
  next
    case last
    then have "n = k + nw \<and> w' = w1" using loop wr1 le by (auto simp: Let_def split: if_splits option.splits)
    then show ?thesis using le write_stream [OF wr1] data by simp
  next
    case more
    then have "copy_loop wr w1 s1 (k + nw) = (w', n, e)" using loop wr1 le by (simp add: Let_def)
    with "1.IH"(1) [OF rd [symmetric] refl more(1)] more wr1 "1.prems"(1)
    have "k + nw \<le> n \<and> n - (k + nw) \<le> length (src_data s1) \<and> stream w' = stream w1 @ take (n - (k + nw)) (src_data s1)"
      by simp
    then show ?thesis using write_stream [OF wr1] data more by auto
  qed
qed

end

subsection \<open>net.TCPConn\<close>

text \<open>
  \<open>c_segs\<close> are the writes the kernel took, in order; \<open>c_faults\<close> says how the coming writes end
  (\<open>None\<close>: complete; \<open>Some (k, e)\<close>: at most \<open>k\<close> bytes taken, then the error \<open>e\<close>), every write after
  them being complete; \<open>c_shut\<close> is the outcome of a \<open>shutdown\<close> call. A write after \<open>Close\<close> or \<open>CloseWrite\<close> takes nothing and fails.
\<close>

record tcp_conn =
  c_segs :: "bytes list"
  c_faults :: "(nat \<times> goerr) option list"
  c_shut :: "goerr option"
  c_rclosed :: bool
  c_wclosed :: bool
  c_closed :: bool
  c_rdeadline :: gotime
  c_wdeadline :: gotime

definition tcp_new :: "(nat \<times> goerr) option list \<Rightarrow> tcp_conn" where
  "tcp_new fs = \<lparr>c_segs = [], c_faults = fs, c_shut = None, c_rclosed = False, c_wclosed = False,
     c_closed = False, c_rdeadline = 0, c_wdeadline = 0\<rparr>"

definition tcp_stream :: "tcp_conn \<Rightarrow> bytes" where
  "tcp_stream c = concat (c_segs c)"

definition tcp_write :: "tcp_conn \<Rightarrow> bytes \<Rightarrow> tcp_conn \<times> nat \<times> goerr option" where
  "tcp_write c b =
     (if c_closed c \<or> c_wclosed c then (c, 0, Some EClosed)
      else case c_faults c of
        Some (k, e) # fs \<Rightarrow>
          (c\<lparr>c_segs := c_segs c @ [take k b], c_faults := fs\<rparr>, min k (length b), Some e)
      | None # fs \<Rightarrow> (c\<lparr>c_segs := c_segs c @ [b], c_faults := fs\<rparr>, length b, None)
      | [] \<Rightarrow> (c\<lparr>c_segs := c_segs c @ [b]\<rparr>, length b, None))"

definition tcp_CloseRead :: "tcp_conn \<Rightarrow> tcp_conn \<times> goerr option" where
  "tcp_CloseRead c =
     (if c_closed c then (c, Some EClosed)
      else case c_shut c of Some e \<Rightarrow> (c, Some e) | None \<Rightarrow> (c\<lparr>c_rclosed := True\<rparr>, None))"

definition tcp_CloseWrite :: "tcp_conn \<Rightarrow> tcp_conn \<times> goerr option" where
  "tcp_CloseWrite c =
     (if c_closed c then (c, Some EClosed)
      else case c_shut c of Some e \<Rightarrow> (c, Some e) | None \<Rightarrow> (c\<lparr>c_wclosed := True\<rparr>, None))"

definition tcp_Close :: "tcp_conn \<Rightarrow> tcp_conn \<times> goerr option" where
  "tcp_Close c = (if c_closed c then (c, Some EClosed) else (c\<lparr>c_closed := True\<rparr>, None))"

definition tcp_SetReadDeadline :: "gotime \<Rightarrow> tcp_conn \<Rightarrow> tcp_conn \<times> goerr option" where
  "tcp_SetReadDeadline t c =
     (if c_closed c then (c, Some EClosed) else (c\<lparr>c_rdeadline := t\<rparr>, None))"

definition tcp_SetWriteDeadline :: "gotime \<Rightarrow> tcp_conn \<Rightarrow> tcp_conn \<times> goerr option" where
  "tcp_SetWriteDeadline t c =
     (if c_closed c then (c, Some EClosed) else (c\<lparr>c_wdeadline := t\<rparr>, None))"

lemmas tcp_op_defs = tcp_CloseRead_def tcp_CloseWrite_def tcp_Close_def
  tcp_SetReadDeadline_def tcp_SetWriteDeadline_def

lemma tcp_stream_ops [simp]:
  "tcp_stream (fst (tcp_CloseRead c)) = tcp_stream c"
  "tcp_stream (fst (tcp_CloseWrite c)) = tcp_stream c"
  "tcp_stream (fst (tcp_Close c)) = tcp_stream c"
  "tcp_stream (fst (tcp_SetReadDeadline t c)) = tcp_stream c"
  "tcp_stream (fst (tcp_SetWriteDeadline t c)) = tcp_stream c"
  "tcp_stream (tcp_new fs) = []"
  by (simp_all add: tcp_stream_def tcp_op_defs tcp_new_def split: option.splits)

lemma tcp_closed_ops [simp]:
  "c_closed (fst (tcp_CloseRead c)) = c_closed c"
  "c_closed (fst (tcp_CloseWrite c)) = c_closed c"
  "c_closed (fst (tcp_Close c))"
  "c_closed (fst (tcp_SetReadDeadline t c)) = c_closed c"
  "c_closed (fst (tcp_SetWriteDeadline t c)) = c_closed c"
  by (simp_all add: tcp_op_defs split: option.splits)

interpretation tcp: io_writer tcp_write tcp_stream
  by unfold_locales
    (auto simp: tcp_write_def tcp_stream_def min_def split: if_splits list.splits option.splits)

lemma tcp_write_frame:
  assumes "tcp_write c b = (c', n, e)"
  shows "c_shut c' = c_shut c" "c_rclosed c' = c_rclosed c" "c_wclosed c' = c_wclosed c" "c_closed c' = c_closed c"
    "c_rdeadline c' = c_rdeadline c" "c_wdeadline c' = c_wdeadline c"
  using assms by (auto simp: tcp_write_def split: if_splits list.splits option.splits)

text \<open>A socket on which nothing can go wrong takes every write whole, as one segment.\<close>

definition tcp_healthy :: "tcp_conn \<Rightarrow> bool" where
  "tcp_healthy c \<longleftrightarrow> \<not> c_closed c \<and> \<not> c_wclosed c \<and> set (c_faults c) \<subseteq> {None}"

lemma tcp_write_healthy:
  assumes "tcp_healthy c"
  shows "tcp_write c b = (c\<lparr>c_segs := c_segs c @ [b], c_faults := tl (c_faults c)\<rparr>, length b, None)"
    and "tcp_healthy (c\<lparr>c_segs := ss, c_faults := tl (c_faults c)\<rparr>)"
  using assms by (cases "c_faults c"; auto simp: tcp_healthy_def tcp_write_def)+

definition tcp_ReadFrom :: "tcp_conn \<Rightarrow> source \<Rightarrow> tcp_conn \<times> nat \<times> goerr option" where
  "tcp_ReadFrom = io_Copy tcp_write"

end
