(* ===== verification/Split.thy ===== *)
theory Split
  imports Go_IO
begin

unbundle bit_operations_syntax

section \<open>Splitting the first upstream segment (transport/split)\<close>

text \<open>
  \<open>getTLSClientHelloRecordLen\<close> and \<open>splitHello\<close> of \<open>transport/split/retrier.go\<close>, \<open>copyOnce\<close>, and the
  \<open>splitter\<close> of \<open>transport/split/conn.go\<close>. \<open>splitHello\<close> works on the caller's buffer in place, so the
  model returns the buffer as the call leaves it. The abstract view of a TLS stream is \<open>tls_content\<close>:
  every byte of every record, tagged with its record's type and version.
\<close>

subsection \<open>The code\<close>

definition TYPE_HANDSHAKE :: byte where "TYPE_HANDSHAKE = 22"
definition VERSION_TLS10 :: u16 where "VERSION_TLS10 = 0x0301"
definition VERSION_TLS11 :: u16 where "VERSION_TLS11 = 0x0302"
definition VERSION_TLS12 :: u16 where "VERSION_TLS12 = 0x0303"
definition VERSION_TLS13 :: u16 where "VERSION_TLS13 = 0x0304"

definition getTLSClientHelloRecordLen :: "bytes \<Rightarrow> u16 \<times> bool" where
  "getTLSClientHelloRecordLen h =
     (if length h < 5 then (0, False)
      else if h ! 0 \<noteq> TYPE_HANDSHAKE then (0, False)
      else let ver = be16 (subslice 1 3 h) in
        if ver \<noteq> VERSION_TLS10 \<and> ver \<noteq> VERSION_TLS11 \<and> ver \<noteq> VERSION_TLS12 \<and> ver \<noteq> VERSION_TLS13
        then (0, False)
        else (be16 (subslice 3 5 h), True))"

definition MIN_SPLIT :: nat where "MIN_SPLIT = 6"
definition MAX_SPLIT :: nat where "MAX_SPLIT = 64"

text \<open>\<open>rand.Intn(n)\<close>: any draw \<open>r\<close> of the generator, reduced below \<open>n\<close>.\<close>

definition rand_Intn :: "nat \<Rightarrow> nat \<Rightarrow> nat" where
  "rand_Intn r n = r mod n"

text \<open>\<open>copy(b[i:], src)\<close> for a source that fits, with \<open>src\<close> read before the copy (memmove).\<close>

definition copy_at :: "nat \<Rightarrow> bytes \<Rightarrow> bytes \<Rightarrow> bytes" where
  "copy_at i src b = take i b @ src @ drop (i + length src) b"

record split_out =
  so_n :: nat
  so_split :: nat
  so_err :: "goerr option"
  so_hello :: bytes

definition splitHello :: "('w \<Rightarrow> bytes \<Rightarrow> 'w \<times> nat \<times> goerr option) \<Rightarrow> nat \<Rightarrow> bytes \<Rightarrow> 'w
    \<Rightarrow> 'w \<times> split_out" where
  "splitHello wr rnd hello w =
     (if length hello \<le> 1 then
        (case wr w hello of (w1, n, e) \<Rightarrow>
           (w1, \<lparr>so_n = n, so_split = 0, so_err = e, so_hello = hello\<rparr>))
      else
        let splitLen0 = MIN_SPLIT + rand_Intn rnd (MAX_SPLIT + 1 - MIN_SPLIT);
            limit = length hello div 2;
            splitLen = (if limit < splitLen0 then limit else splitLen0);
            (recordLen, ok) = getTLSClientHelloRecordLen hello;
            recordSplitLen = int splitLen - 5
        in if \<not> ok \<or> recordSplitLen \<le> 0 \<or> uint recordLen \<le> recordSplitLen then
             (case wr w (take splitLen hello) of
                (w1, n, Some e) \<Rightarrow>
                  (w1, \<lparr>so_n = n, so_split = splitLen, so_err = Some e, so_hello = hello\<rparr>)
              | (w1, n, None) \<Rightarrow>
                  (case wr w1 (drop splitLen hello) of (w2, m, e2) \<Rightarrow>
                     (w2, \<lparr>so_n = n + m, so_split = splitLen, so_err = e2, so_hello = hello\<rparr>)))
           else
             let hello1 = put16 3 (of_int recordSplitLen) hello
             in (case wr w (take splitLen hello1) of
                (w1, n, Some e) \<Rightarrow>
                  (w1, \<lparr>so_n = n, so_split = splitLen, so_err = Some e, so_hello = hello1\<rparr>)
              | (w1, n, None) \<Rightarrow>
                  let hello2 = copy_at (splitLen - 5) (take 5 hello1) hello1;
                      hello3 = put16 (splitLen - 5 + 3) (recordLen - of_int recordSplitLen) hello2
                  in (case wr w1 (drop (splitLen - 5) hello3) of (w2, m, e2) \<Rightarrow>
                     (w2, \<lparr>so_n = n + m, so_split = splitLen, so_err = e2, so_hello = hello3\<rparr>))))"

text \<open>\<open>copyOnce(dst, src)\<close>: one read into a 2048-byte buffer, one write.\<close>

definition copyOnce :: "('w \<Rightarrow> bytes \<Rightarrow> 'w \<times> nat \<times> goerr option) \<Rightarrow> 'w \<Rightarrow> source
    \<Rightarrow> 'w \<times> source \<times> nat \<times> goerr option" where
  "copyOnce wr w s =
     (case src_read 2048 s of (d, e, s') \<Rightarrow>
        case e of
          Some err \<Rightarrow> (w, s', 0, Some err)
        | None \<Rightarrow> (case wr w d of (w', n, e') \<Rightarrow> (w', s', n, e')))"

record splitter =
  sp_conn :: tcp_conn
  sp_used :: bool

definition DialWithSplit :: "goerr + tcp_conn \<Rightarrow> goerr + splitter" where
  "DialWithSplit d = (case d of Inl e \<Rightarrow> Inl e | Inr c \<Rightarrow> Inr \<lparr>sp_conn = c, sp_used = False\<rparr>)"

text \<open>\<open>splitter.Write\<close>; the last component is the caller's slice after the call.\<close>

definition splitter_Write :: "nat \<Rightarrow> splitter \<Rightarrow> bytes \<Rightarrow> splitter \<times> nat \<times> goerr option \<times> bytes" where
  "splitter_Write rnd s b =
     (if sp_used s then
        (case tcp_write (sp_conn s) b of (c, n, e) \<Rightarrow> (s\<lparr>sp_conn := c\<rparr>, n, e, b))
      else
        (case splitHello tcp_write rnd b (sp_conn s) of (c, out) \<Rightarrow>
           (s\<lparr>sp_conn := c, sp_used := True\<rparr>, so_n out, so_err out, so_hello out)))"

definition splitter_wr :: "nat \<Rightarrow> splitter \<Rightarrow> bytes \<Rightarrow> splitter \<times> nat \<times> goerr option" where
  "splitter_wr rnd s b = (case splitter_Write rnd s b of (s', n, e, _) \<Rightarrow> (s', n, e))"

definition splitter_ReadFrom :: "nat \<Rightarrow> splitter \<Rightarrow> source \<Rightarrow> splitter \<times> nat \<times> goerr option" where
  "splitter_ReadFrom rnd s src =
     (if \<not> sp_used s then
        (case copyOnce (splitter_wr rnd) s src of
           (s', src', n, Some e) \<Rightarrow> (s', n, Some e)
         | (s', src', n, None) \<Rightarrow>
             (case tcp_ReadFrom (sp_conn s') src' of (c, b, e) \<Rightarrow> (s'\<lparr>sp_conn := c\<rparr>, n + b, e)))
      else
        (case tcp_ReadFrom (sp_conn s) src of (c, b, e) \<Rightarrow> (s\<lparr>sp_conn := c\<rparr>, b, e)))"

subsection \<open>The plan of a split\<close>

text \<open>
  Closed forms of what \<open>splitHello\<close> decides and writes: the length of the first segment, whether the
  TLS record is fragmented, and the two segments.
\<close>

definition split_len :: "nat \<Rightarrow> bytes \<Rightarrow> nat" where
  "split_len rnd hello = min (MIN_SPLIT + rnd mod 59) (length hello div 2)"

definition record_split :: "nat \<Rightarrow> bytes \<Rightarrow> bool" where
  "record_split rnd hello \<longleftrightarrow> 2 \<le> length hello \<and> snd (getTLSClientHelloRecordLen hello)
     \<and> 5 < split_len rnd hello
     \<and> split_len rnd hello - 5 < unat (fst (getTLSClientHelloRecordLen hello))"

definition seg1 :: "nat \<Rightarrow> bytes \<Rightarrow> bytes" where
  "seg1 rnd hello =
     (if record_split rnd hello
      then take 3 hello @ enc16 (of_nat (split_len rnd hello - 5)) @ subslice 5 (split_len rnd hello) hello
      else take (split_len rnd hello) hello)"

definition seg2 :: "nat \<Rightarrow> bytes \<Rightarrow> bytes" where
  "seg2 rnd hello =
     (if record_split rnd hello
      then take 3 hello
        @ enc16 (fst (getTLSClientHelloRecordLen hello) - of_nat (split_len rnd hello - 5))
        @ drop (split_len rnd hello) hello
      else drop (split_len rnd hello) hello)"

lemma split_len_bounds:
  "2 \<le> length hello \<Longrightarrow> 1 \<le> split_len rnd hello"
  "split_len rnd hello \<le> length hello div 2"
  "split_len rnd hello \<le> 64"
proof -
  have "rnd mod 59 < 59" by simp
  then show "split_len rnd hello \<le> 64" by (simp add: split_len_def MIN_SPLIT_def)
qed (simp_all add: split_len_def MIN_SPLIT_def)

lemma record_split_length: "record_split rnd hello \<Longrightarrow> 12 \<le> length hello"
  using split_len_bounds(2) [of rnd hello] by (auto simp: record_split_def)

lemma put16_append [go_simps]:
  "n = length xs \<Longrightarrow> put16 n v (xs @ a # b # ys) = xs @ enc16 v @ ys"
  by (simp add: put16_def enc16_def list_update_append)

lemma length5D: "5 \<le> length h \<Longrightarrow> \<exists>a b c d e p. h = a # b # c # d # e # p"
  by (cases h; cases "tl h"; cases "tl (tl h)"; cases "tl (tl (tl h))";
      cases "tl (tl (tl (tl h)))") auto

definition buf1 :: "nat \<Rightarrow> bytes \<Rightarrow> bytes" where
  "buf1 rnd hello =
     (if record_split rnd hello then put16 3 (of_nat (split_len rnd hello - 5)) hello else hello)"

definition buf2 :: "nat \<Rightarrow> bytes \<Rightarrow> bytes" where
  "buf2 rnd hello =
     (if record_split rnd hello
      then take (split_len rnd hello - 5) (buf1 rnd hello) @ seg2 rnd hello
      else hello)"

lemma record_split_buffers:
  assumes "record_split rnd hello" and k: "k = split_len rnd hello"
    and v: "v = of_nat (k - 5)" and u: "u = fst (getTLSClientHelloRecordLen hello) - v"
  shows "take k (put16 3 v hello) = seg1 rnd hello"
    and "put16 (k - 5 + 3) u (copy_at (k - 5) (take 5 (put16 3 v hello)) (put16 3 v hello))
       = buf2 rnd hello"
    and "drop (k - 5) (buf2 rnd hello) = seg2 rnd hello"
proof -
  have len: "12 \<le> length hello" using assms(1) by (rule record_split_length)
  then obtain a b c d e p where h: "hello = a # b # c # d # e # p"
    using length5D [of hello] by auto
  have k5: "5 < k" "k \<le> length hello div 2"
    using assms(1) k split_len_bounds(2) [of rnd hello] by (auto simp: record_split_def)
  define j where "j = k - 5"
  have j: "k = j + 5" "j \<le> length p"
    using k5 h by (auto simp: j_def)
  have p1: "put16 3 v hello = [a, b, c] @ enc16 v @ p"
    using put16_append [of 3 "[a, b, c]" v d e p] h by simp
  have hd3: "take 3 hello = [a, b, c]" and tl5: "subslice 5 k hello = take j p"
    and tlk: "drop k hello = drop j p"
    using h j(1) by (simp_all add: subslice_def eval_nat_numeral)
  have s1: "seg1 rnd hello = [a, b, c] @ enc16 v @ take j p"
    and s2: "seg2 rnd hello = [a, b, c] @ enc16 u @ drop j p"
    and b2: "buf2 rnd hello = take j (put16 3 v hello) @ seg2 rnd hello"
    using assms(1) by (simp_all add: seg1_def seg2_def buf2_def buf1_def hd3 tl5 tlk
        k [symmetric] v u j_def)
  show "take k (put16 3 v hello) = seg1 rnd hello"
    unfolding p1 s1 using j by (simp add: enc16_def eval_nat_numeral)
  have "copy_at j (take 5 (put16 3 v hello)) (put16 3 v hello)
      = (take j (put16 3 v hello) @ [a, b, c]) @ ucast (drop_bit 8 v) # ucast v # drop j p"
    unfolding p1 copy_at_def using j by (simp add: enc16_def)
  moreover have "length (take j (put16 3 v hello) @ [a, b, c]) = j + 3"
    unfolding p1 using j by simp
  ultimately have "put16 (j + 3) u (copy_at j (take 5 (put16 3 v hello)) (put16 3 v hello))
      = (take j (put16 3 v hello) @ [a, b, c]) @ enc16 u @ drop j p"
    by (simp only: put16_append)
  then show "put16 (k - 5 + 3) u (copy_at (k - 5) (take 5 (put16 3 v hello)) (put16 3 v hello))
       = buf2 rnd hello"
    by (simp add: b2 s2 j_def)
  show "drop (k - 5) (buf2 rnd hello) = seg2 rnd hello"
    unfolding b2 j_def [symmetric] using j(2) by (simp add: h)
qed

lemma uint_le_iff_unat: "5 < k \<Longrightarrow> uint (w :: u16) \<le> int k - 5 \<longleftrightarrow> unat w \<le> k - 5"
  by (simp only: nat_uint_eq [symmetric] nat_le_iff of_nat_diff) simp

text \<open>What \<open>splitHello\<close> does, through its plan: the two writes and the buffer it leaves.\<close>

lemma splitHello_plan:
  assumes "2 \<le> length hello"
  shows "splitHello wr rnd hello w =
     (case wr w (seg1 rnd hello) of
        (w1, n, Some e) \<Rightarrow> (w1, \<lparr>so_n = n, so_split = split_len rnd hello, so_err = Some e,
           so_hello = buf1 rnd hello\<rparr>)
      | (w1, n, None) \<Rightarrow> (case wr w1 (seg2 rnd hello) of (w2, m, e2) \<Rightarrow>
           (w2, \<lparr>so_n = n + m, so_split = split_len rnd hello, so_err = e2,
             so_hello = buf2 rnd hello\<rparr>)))"
proof -
  define k where "k = split_len rnd hello"
  obtain rl ok where rl: "getTLSClientHelloRecordLen hello = (rl, ok)"
    by (cases "getTLSClientHelloRecordLen hello")
  have k: "(if length hello div 2 < MIN_SPLIT + rand_Intn rnd (MAX_SPLIT + 1 - MIN_SPLIT)
      then length hello div 2 else MIN_SPLIT + rand_Intn rnd (MAX_SPLIT + 1 - MIN_SPLIT)) = k"
    by (simp add: k_def split_len_def rand_Intn_def MAX_SPLIT_def MIN_SPLIT_def min_def)
  have cond: "(\<not> ok \<or> int k - 5 \<le> 0 \<or> uint rl \<le> int k - 5) = (\<not> record_split rnd hello)"
    using assms rl unfolding record_split_def k_def [symmetric]
    by (cases "5 < k") (auto simp: uint_le_iff_unat)
  have eq: "splitHello wr rnd hello w =
     (if \<not> record_split rnd hello then
        (case wr w (take k hello) of
           (w1, n, Some e) \<Rightarrow> (w1, \<lparr>so_n = n, so_split = k, so_err = Some e, so_hello = hello\<rparr>)
         | (w1, n, None) \<Rightarrow> (case wr w1 (drop k hello) of (w2, m, e2) \<Rightarrow>
             (w2, \<lparr>so_n = n + m, so_split = k, so_err = e2, so_hello = hello\<rparr>)))
      else let h1 = put16 3 (of_int (int k - 5)) hello in
        (case wr w (take k h1) of
           (w1, n, Some e) \<Rightarrow> (w1, \<lparr>so_n = n, so_split = k, so_err = Some e, so_hello = h1\<rparr>)
         | (w1, n, None) \<Rightarrow>
             let h3 = put16 (k - 5 + 3) (rl - of_int (int k - 5)) (copy_at (k - 5) (take 5 h1) h1)
             in (case wr w1 (drop (k - 5) h3) of (w2, m, e2) \<Rightarrow>
             (w2, \<lparr>so_n = n + m, so_split = k, so_err = e2, so_hello = h3\<rparr>))))"
    using assms unfolding splitHello_def Let_def rl prod.case k cond by simp
  show ?thesis
  proof (cases "record_split rnd hello")
    case False
    then show ?thesis
      unfolding eq by (simp add: seg1_def seg2_def buf1_def buf2_def k_def
          split: prod.splits option.splits)
  next
    case True
    then have k5: "5 \<le> k" by (simp add: record_split_def k_def)
    then have v: "(of_int (int k - 5) :: u16) = of_nat (k - 5)"
      by (simp add: of_nat_diff)
    have b1: "buf1 rnd hello = put16 3 (of_nat (k - 5)) hello"
      using True by (simp add: buf1_def k_def)
    note bufs = record_split_buffers [OF True k_def refl refl, folded b1]
    show ?thesis
      using True bufs unfolding eq Let_def v b1 [symmetric]
      by (simp add: rl k_def split: prod.splits option.splits)
  qed
qed

text \<open>What a whole call puts on the wire.\<close>

definition split_wire :: "nat \<Rightarrow> bytes \<Rightarrow> bytes" where
  "split_wire rnd hello =
     (if length hello \<le> 1 then hello else seg1 rnd hello @ seg2 rnd hello)"

context io_writer
begin

lemma splitHello_stream:
  assumes "splitHello wr rnd hello w = (w', out)"
  shows "stream w' = stream w @ take (so_n out) (split_wire rnd hello)"
    and "so_n out \<le> length (split_wire rnd hello)"
    and "so_err out = None \<Longrightarrow> so_n out = length (split_wire rnd hello)"
proof -
  have "stream w' = stream w @ take (so_n out) (split_wire rnd hello)
      \<and> so_n out \<le> length (split_wire rnd hello)
      \<and> (so_err out = None \<longrightarrow> so_n out = length (split_wire rnd hello))"
  proof (cases "length hello \<le> 1")
    case True
    then show ?thesis
      using assms by (auto simp: splitHello_def split_wire_def write_stream
          dest: write_le write_full write_stream split: prod.splits)
  next
    case False
    obtain w1 n e where w1: "wr w (seg1 rnd hello) = (w1, n, e)" by (metis prod_cases3)
    obtain w2 m e2 where w2: "wr w1 (seg2 rnd hello) = (w2, m, e2)" by (metis prod_cases3)
    show ?thesis
      using False assms w1 w2 write_stream [OF w1] write_stream [OF w2] write_le [OF w1]
        write_le [OF w2] write_full [of w "seg1 rnd hello" w1 n]
        write_full [of w1 "seg2 rnd hello" w2 m]
      by (cases e) (auto simp: splitHello_plan split_wire_def)
  qed
  then show "stream w' = stream w @ take (so_n out) (split_wire rnd hello)"
    and "so_n out \<le> length (split_wire rnd hello)"
    and "so_err out = None \<Longrightarrow> so_n out = length (split_wire rnd hello)"
    by blast+
qed

lemma splitHello_stream_all:
  assumes "splitHello wr rnd hello w = (w', out)" and "so_err out = None"
  shows "stream w' = stream w @ split_wire rnd hello"
  using splitHello_stream [OF assms(1)] assms(2) by simp

end

subsection \<open>The TLS view of a stream\<close>

text \<open>
  \<open>tls_content s\<close> cuts \<open>s\<close> into TLS records (type, version, length, fragment) and lists the
  fragments' bytes in order, each with the type and version of its record: what a TLS peer hands to
  its handshake layer. A fragment cut off by the end of the stream counts as far as it goes.
\<close>

function tls_content :: "bytes \<Rightarrow> (bytes \<times> byte) list" where
  "tls_content s =
     (if length s < 5 then []
      else map (Pair (take 3 s)) (take (unat (be16 (subslice 3 5 s))) (drop 5 s))
        @ tls_content (drop (5 + unat (be16 (subslice 3 5 s))) s))"
  by pat_completeness auto
termination
  by (relation "measure length") auto

declare tls_content.simps [simp del]

lemma tls_content_record:
  assumes "length t = 3"
  shows "tls_content (t @ enc16 v @ r) = map (Pair t) (take (unat v) r) @ tls_content (drop (unat v) r)"
proof -
  have "subslice 3 5 (t @ enc16 v @ r) = enc16 v"
    using assms by (simp add: subslice_def)
  with assms show ?thesis
    by (subst tls_content.simps) simp
qed

lemma tls_content_fragment:
  assumes "length t = 3" and "unat a = n" and "n \<le> unat v" and "n \<le> length r"
  shows "tls_content (t @ enc16 a @ take n r @ t @ enc16 (v - a) @ drop n r)
    = tls_content (t @ enc16 v @ r)"
proof -
  have va: "unat (v - a) = unat v - n"
    using assms by (simp add: unat_sub word_le_nat_alt)
  have "take (unat v) r = take n r @ take (unat v - n) (drop n r)"
    using assms(3) take_add [of n "unat v - n" r] by simp
  then show ?thesis
    using assms va by (simp add: tls_content_record)
qed

lemma getTLSClientHelloRecordLen_True:
  assumes "snd (getTLSClientHelloRecordLen h)"
  shows "\<exists>t v p. length t = 3 \<and> h = t @ enc16 v @ p \<and> fst (getTLSClientHelloRecordLen h) = v"
proof -
  have len: "5 \<le> length h"
    and v: "fst (getTLSClientHelloRecordLen h) = be16 (subslice 3 5 h)"
    using assms by (auto simp: getTLSClientHelloRecordLen_def Let_def split: if_splits)
  from len obtain a b c d e p where h: "h = a # b # c # d # e # p"
    using length5D [of h] by auto
  have "enc16 (be16 [d, e]) = [d, e]"
    by (simp add: enc16_be16)
  moreover have "subslice 3 5 h = [d, e]"
    by (simp add: h subslice_def eval_nat_numeral)
  ultimately show ?thesis
    using v h by (intro exI [of _ "[a, b, c]"] exI [of _ "be16 [d, e]"] exI [of _ p]) simp
qed

lemma split_wire_content:
  assumes "record_split rnd hello"
  shows "tls_content (split_wire rnd hello @ rest) = tls_content (hello @ rest)"
proof -
  define n where "n = split_len rnd hello - 5"
  obtain t v p where h: "length t = 3" "hello = t @ enc16 v @ p"
    and v: "fst (getTLSClientHelloRecordLen hello) = v"
    using assms getTLSClientHelloRecordLen_True [of hello] by (auto simp: record_split_def)
  have n: "n < unat v" "split_len rnd hello = n + 5" "n \<le> length p" "n < 65536"
    using assms v h(1) split_len_bounds(2,3) [of rnd hello] arg_cong [OF h(2), of length]
    by (auto simp: record_split_def n_def)
  have wire: "split_wire rnd hello
      = t @ enc16 (of_nat n) @ take n p @ t @ enc16 (v - of_nat n) @ drop n p"
    using assms h(1) v record_split_length [OF assms] n(2)
    by (simp add: split_wire_def seg1_def seg2_def n_def [symmetric] subslice_def)
      (simp add: h(2))
  have "tls_content (t @ enc16 (of_nat n) @ take n (p @ rest) @ t @ enc16 (v - of_nat n)
      @ drop n (p @ rest)) = tls_content (t @ enc16 v @ p @ rest)"
    using h n by (intro tls_content_fragment) simp_all
  with n(3) show ?thesis by (simp add: wire) (simp add: h(2))
qed

lemma length_split_wire:
  "length (split_wire rnd hello) = length hello + (if record_split rnd hello then 5 else 0)"
  using split_len_bounds(2) [of rnd hello] record_split_length [of rnd hello]
  by (auto simp: split_wire_def seg1_def seg2_def subslice_def record_split_def)

lemma split_wire_plain: "\<not> record_split rnd hello \<Longrightarrow> split_wire rnd hello = hello"
  by (simp add: split_wire_def seg1_def seg2_def)

lemma seg_lengths:
  assumes "2 \<le> length hello"
  shows "length (seg1 rnd hello) = split_len rnd hello"
    and "seg1 rnd hello \<noteq> []" and "seg2 rnd hello \<noteq> []"
proof -
  note bounds = split_len_bounds(1) [of hello rnd] split_len_bounds(2) [of rnd hello]
  show len: "length (seg1 rnd hello) = split_len rnd hello"
    using bounds assms record_split_length [of rnd hello]
    by (auto simp: seg1_def subslice_def record_split_def)
  have "length (seg2 rnd hello) > 0"
    using length_split_wire [of rnd hello] len bounds assms
    by (auto simp: split_wire_def seg2_def split: if_splits)
  then show "seg1 rnd hello \<noteq> []" and "seg2 rnd hello \<noteq> []"
    using bounds assms len by force+
qed

lemma splitHello_healthy:
  assumes "tcp_healthy c" and "2 \<le> length hello"
  shows "splitHello tcp_write rnd hello c =
     (c\<lparr>c_segs := c_segs c @ [seg1 rnd hello, seg2 rnd hello],
        c_faults := tl (tl (c_faults c))\<rparr>,
      \<lparr>so_n = length (split_wire rnd hello), so_split = split_len rnd hello, so_err = None,
       so_hello = buf2 rnd hello\<rparr>)"
  using assms tcp_write_healthy(2) [OF assms(1)]
  by (simp add: splitHello_plan tcp_write_healthy split_wire_def)

lemma buf2_mutated:
  assumes "record_split rnd hello" and "10 \<le> split_len rnd hello"
  shows "buf2 rnd hello \<noteq> hello"
proof -
  define j where "j = split_len rnd hello - 5"
  have j: "5 \<le> j" "j < unat (fst (getTLSClientHelloRecordLen hello))" "j < 65536"
    using assms split_len_bounds(3) [of rnd hello] by (auto simp: j_def record_split_def)
  obtain t v p where h: "length t = 3" "hello = t @ enc16 v @ p"
    and v: "fst (getTLSClientHelloRecordLen hello) = v"
    using assms(1) getTLSClientHelloRecordLen_True [of hello] by (auto simp: record_split_def)
  have "buf1 rnd hello = t @ enc16 (of_nat j) @ p"
    using assms(1) h(1) put16_append [of 3 t "of_nat j"]
    by (simp add: buf1_def j_def [symmetric]) (simp add: h(2) enc16_def)
  then have "take 2 (drop 3 (buf2 rnd hello)) = enc16 (of_nat j)"
    using assms(1) j(1) h(1) by (simp add: buf2_def j_def [symmetric] take_drop)
  moreover have "take 2 (drop 3 hello) = enc16 v"
    using h by simp
  moreover have "enc16 (of_nat j) \<noteq> enc16 v"
    using j v by (metis be16_enc16_nil unat_of_nat16 less_irrefl)
  ultimately show ?thesis by metis
qed

subsection \<open>Properties\<close>

text \<open>A TLS 1.0 handshake record of 7 bytes, the smallest hello that is fragmented.\<close>

definition demo_hello :: bytes where
  "demo_hello = [22, 3, 1, 0, 7, 10, 11, 12, 13, 14, 15, 16]"

lemma demo_hello_facts:
  "2 \<le> length demo_hello" "record_split 0 demo_hello" "split_len 0 demo_hello = 6"
  "tcp_healthy (tcp_new [])"
proof -
  show 1: "2 \<le> length demo_hello" and 2: "split_len 0 demo_hello = 6"
    by (simp_all add: demo_hello_def split_len_def MIN_SPLIT_def)
  have "getTLSClientHelloRecordLen demo_hello = (7, True)"
    by (simp add: demo_hello_def getTLSClientHelloRecordLen_def subslice_def be16_def
        TYPE_HANDSHAKE_def VERSION_TLS10_def)
  then show "record_split 0 demo_hello"
    using 1 by (simp add: record_split_def 2)
  show "tcp_healthy (tcp_new [])"
    by (simp add: tcp_healthy_def tcp_new_def)
qed

text \<open>
  C9. When \<open>splitHello\<close> reports success, the peer sees the data the caller wrote: without
  fragmentation the very same bytes, with fragmentation a stream that carries, whatever is written
  next, the same record contents in the same order (same record type and version, the record's
  length divided between the two fragments).
\<close>

theorem splitHello_transparent:
  assumes "so_err (snd (splitHello tcp_write rnd hello c)) = None"
  shows "\<exists>wire. tcp_stream (fst (splitHello tcp_write rnd hello c)) = tcp_stream c @ wire
     \<and> (if record_split rnd hello
        then (\<forall>rest. tls_content (wire @ rest) = tls_content (hello @ rest))
        else wire = hello)"
  using tcp.splitHello_stream_all [OF surjective_pairing assms]
  by (auto simp: split_wire_content split_wire_plain)

theorem splitHello_transparent_witness:
  "record_split 0 demo_hello
   \<and> (\<exists>wire. tcp_stream (fst (splitHello tcp_write 0 demo_hello (tcp_new [])))
          = tcp_stream (tcp_new []) @ wire
      \<and> (if record_split 0 demo_hello
         then (\<forall>rest. tls_content (wire @ rest) = tls_content (demo_hello @ rest))
         else wire = demo_hello))"
proof -
  have "so_err (snd (splitHello tcp_write 0 demo_hello (tcp_new []))) = None"
    by (simp add: splitHello_healthy demo_hello_facts)
  from splitHello_transparent [OF this] show ?thesis
    using demo_hello_facts(2) by blast
qed

text \<open>
  On a socket that takes every write, the first upstream segment of a hello of two bytes or more
  always goes out as exactly two non-empty segments, the first of the reported length: at most 64
  bytes and at most half of the hello, whatever the random draw.
\<close>

theorem splitHello_two_segments:
  assumes "tcp_healthy c" and "2 \<le> length hello"
  shows "\<exists>s1 s2. c_segs (fst (splitHello tcp_write rnd hello c)) = c_segs c @ [s1, s2]
     \<and> s1 \<noteq> [] \<and> s2 \<noteq> []
     \<and> length s1 = so_split (snd (splitHello tcp_write rnd hello c))
     \<and> length s1 \<le> 64 \<and> length s1 \<le> length hello div 2
     \<and> so_n (snd (splitHello tcp_write rnd hello c)) = length s1 + length s2
     \<and> so_err (snd (splitHello tcp_write rnd hello c)) = None"
  using assms seg_lengths [OF assms(2), of rnd] split_len_bounds(2,3) [of rnd hello]
  by (simp add: splitHello_healthy split_wire_def)

theorem splitHello_two_segments_witness:
  "tcp_healthy (tcp_new []) \<and>
   (\<exists>s1 s2. c_segs (fst (splitHello tcp_write 0 demo_hello (tcp_new []))) = c_segs (tcp_new []) @ [s1, s2]
     \<and> s1 \<noteq> [] \<and> s2 \<noteq> []
     \<and> length s1 = so_split (snd (splitHello tcp_write 0 demo_hello (tcp_new [])))
     \<and> length s1 \<le> 64 \<and> length s1 \<le> length demo_hello div 2
     \<and> so_n (snd (splitHello tcp_write 0 demo_hello (tcp_new []))) = length s1 + length s2
     \<and> so_err (snd (splitHello tcp_write 0 demo_hello (tcp_new []))) = None)"
  using splitHello_two_segments [OF demo_hello_facts(4,1), of 0] demo_hello_facts(4) by blast

text \<open>Writes in sequence through a splitter.\<close>

fun splitter_run :: "nat \<Rightarrow> splitter \<Rightarrow> bytes list \<Rightarrow> splitter" where
  "splitter_run rnd s [] = s"
| "splitter_run rnd s (b # bs) = splitter_run rnd (fst (splitter_Write rnd s b)) bs"

lemma splitter_run_used:
  "sp_used s \<Longrightarrow> tcp_healthy (sp_conn s) \<Longrightarrow>
     tcp_stream (sp_conn (splitter_run rnd s bs)) = tcp_stream (sp_conn s) @ concat bs"
proof (induction bs arbitrary: s)
  case Nil
  show ?case by simp
next
  case (Cons b bs)
  define s' where "s' = fst (splitter_Write rnd s b)"
  have "sp_used s'" "tcp_healthy (sp_conn s')"
    and "tcp_stream (sp_conn s') = tcp_stream (sp_conn s) @ b"
    using Cons.prems tcp_write_healthy [of "sp_conn s"]
    by (simp_all add: s'_def splitter_Write_def tcp_stream_def)
  with Cons.IH [of s'] show ?case by (simp add: s'_def [symmetric])
qed

text \<open>
  A socket dialled with \<open>DialWithSplit\<close> splits the first write and no other: after any sequence
  of writes on a healthy socket the stream is the split first write followed by the other writes
  unchanged, so the peer sees the caller's data.
\<close>

theorem splitter_transparent:
  assumes "DialWithSplit (Inr c) = Inr s" and "tcp_healthy c" and "tcp_stream c = []"
  shows "tcp_stream (sp_conn (splitter_run rnd s (b # bs))) = split_wire rnd b @ concat bs
     \<and> (if record_split rnd b
        then tls_content (tcp_stream (sp_conn (splitter_run rnd s (b # bs))))
          = tls_content (concat (b # bs))
        else tcp_stream (sp_conn (splitter_run rnd s (b # bs))) = concat (b # bs))"
proof -
  have s: "s = \<lparr>sp_conn = c, sp_used = False\<rparr>"
    using assms(1) by (simp add: DialWithSplit_def)
  define s' where "s' = fst (splitter_Write rnd s b)"
  obtain c' out where sh: "splitHello tcp_write rnd b c = (c', out)"
    by (cases "splitHello tcp_write rnd b c")
  have s': "s' = \<lparr>sp_conn = c', sp_used = True\<rparr>"
    by (simp add: s'_def s splitter_Write_def sh)
  have "so_err out = None" and h: "tcp_healthy c'"
  proof -
    show "so_err out = None"
      using sh splitHello_healthy [OF assms(2), of b rnd] tcp_write_healthy(1) [OF assms(2), of b]
      by (cases "2 \<le> length b") (auto simp: splitHello_def)
    show "tcp_healthy c'"
      using sh splitHello_healthy [OF assms(2), of b rnd] tcp_write_healthy [OF assms(2)]
        assms(2) tcp_write_healthy(2) [OF tcp_write_healthy(2) [OF assms(2)]]
      by (cases "2 \<le> length b") (auto simp: splitHello_def)
  qed
  then have "tcp_stream c' = split_wire rnd b"
    using tcp.splitHello_stream_all [OF sh] assms(3) by simp
  then have "tcp_stream (sp_conn (splitter_run rnd s (b # bs))) = split_wire rnd b @ concat bs"
    using splitter_run_used [of s' rnd bs] s' h by (simp add: s'_def [symmetric])
  then show ?thesis
    by (simp add: split_wire_content split_wire_plain)
qed

theorem splitter_transparent_witness:
  "tcp_stream (sp_conn (splitter_run 0 \<lparr>sp_conn = tcp_new [], sp_used = False\<rparr> [demo_hello, [1, 2]]))
      = split_wire 0 demo_hello @ concat [[1, 2]]
   \<and> tls_content (tcp_stream (sp_conn
        (splitter_run 0 \<lparr>sp_conn = tcp_new [], sp_used = False\<rparr> [demo_hello, [1, 2]])))
      = tls_content (concat [demo_hello, [1, 2]])"
proof -
  have "DialWithSplit (Inr (tcp_new [])) = Inr \<lparr>sp_conn = tcp_new [], sp_used = False\<rparr>"
    by (simp add: DialWithSplit_def)
  from splitter_transparent [OF this demo_hello_facts(4) tcp_stream_ops(6), of 0 demo_hello "[[1, 2]]"]
  show ?thesis unfolding if_P [OF demo_hello_facts(2)] .
qed

text \<open>
  The first write through a splitter does not keep the contract of \<open>io.Writer\<close>: when the hello is
  fragmented the count is the length of the slice plus the five bytes of the second record header,
  and from a split of ten bytes on the call leaves the caller's slice changed.
\<close>

theorem splitter_Write_contract:
  assumes "\<not> sp_used s" and "tcp_healthy (sp_conn s)"
    and "record_split rnd b" and "10 \<le> split_len rnd b"
  shows "\<exists>s' b'. splitter_Write rnd s b = (s', length b + 5, None, b') \<and> length b < length b + 5
     \<and> b' \<noteq> b"
proof -
  have "2 \<le> length b" using record_split_length [OF assms(3)] by simp
  then show ?thesis
    using assms buf2_mutated [OF assms(3,4)]
    by (simp add: splitter_Write_def splitHello_healthy length_split_wire)
qed

definition demo_hello20 :: bytes where
  "demo_hello20 = [22, 3, 3, 0, 15, 1, 2, 3, 4, 5, 6, 7, 8, 9, 10, 11, 12, 13, 14, 15]"

lemma demo_hello20_split: "record_split 4 demo_hello20" "split_len 4 demo_hello20 = 10"
proof -
  show len: "split_len 4 demo_hello20 = 10"
    by (simp add: demo_hello20_def split_len_def MIN_SPLIT_def)
  have "getTLSClientHelloRecordLen demo_hello20 = (15, True)"
    by (simp add: demo_hello20_def getTLSClientHelloRecordLen_def subslice_def be16_def
        TYPE_HANDSHAKE_def VERSION_TLS10_def VERSION_TLS11_def VERSION_TLS12_def)
  then show "record_split 4 demo_hello20"
    by (simp add: record_split_def len) (simp add: demo_hello20_def)
qed

theorem splitter_Write_contract_witness:
  "\<exists>s' b'. splitter_Write 4 \<lparr>sp_conn = tcp_new [], sp_used = False\<rparr> demo_hello20
      = (s', length demo_hello20 + 5, None, b')
     \<and> length demo_hello20 < length demo_hello20 + 5 \<and> b' \<noteq> demo_hello20"
  using splitter_Write_contract [of "\<lparr>sp_conn = tcp_new [], sp_used = False\<rparr>" 4 demo_hello20]
    demo_hello20_split demo_hello_facts(4) by simp

text \<open>
  \<open>copyOnce\<close> drops the bytes of a read that returns data together with an error, which \<open>io.Reader\<close>
  allows.
\<close>

lemma copyOnce_drops_final_bytes:
  "length d \<le> 2048 \<Longrightarrow> copyOnce f w ((d, Some e) # s) = (w, s, 0, Some e)"
  by (simp add: copyOnce_def src_read_def)

end
