(* ===== verification/Retrier.thy ===== *)
theory Retrier
  imports Split
begin

section \<open>The split-retry connection (transport/split/retrier.go)\<close>

text \<open>
  A \<open>retrier\<close> sends the first bytes unsplit on a provisional socket and keeps a copy in \<open>hello\<close>. The
  first result of \<open>Read\<close> settles the connection: data means the socket is good; an error means it
  is given up, a second one is dialled and the hello is sent again, split. The operations are
  functions on the record; what the network does (the result of a dial, of a read) is an argument.
  The second half is the protocol between the reader, the writer and the closing threads as a step
  relation, one step per critical section, with the invariant that rules every interleaving.
\<close>

subsection \<open>State\<close>

record RetryStats =
  rs_Bytes :: i32
  rs_Chunks :: i16
  rs_Split :: i16
  rs_Timeout :: bool

definition no_stats :: RetryStats where
  "no_stats = \<lparr>rs_Bytes = 0, rs_Chunks = 0, rs_Split = 0, rs_Timeout = False\<rparr>"

text \<open>
  \<open>rt_complete\<close>: \<open>retryCompleteFlag\<close> is closed. \<open>rt_retired\<close> is not a field of the code: it keeps the
  sockets the retrier has let go of, so that their fate can be stated.
\<close>

record retrier =
  rt_addr :: tcpaddr
  rt_conn :: tcp_conn
  rt_readDeadline :: gotime
  rt_writeDeadline :: gotime
  rt_timeout :: duration
  rt_hello :: bytes
  rt_complete :: bool
  rt_readClose :: bool
  rt_writeClose :: bool
  rt_stats :: RetryStats
  rt_retired :: "tcp_conn list"

definition readClosed :: "retrier \<Rightarrow> bool" where "readClosed r = rt_readClose r"
definition writeClosed :: "retrier \<Rightarrow> bool" where "writeClosed r = rt_writeClose r"
definition retryCompleted :: "retrier \<Rightarrow> bool" where "retryCompleted r = rt_complete r"

lemmas flag_defs = readClosed_def writeClosed_def retryCompleted_def

definition timeout :: "gotime \<Rightarrow> gotime \<Rightarrow> duration" where
  "timeout before after = 1200 * millisecond + 2 * (after - before)"

text \<open>
  \<open>DialWithSplitRetry\<close>: the clock before and after the dial, its result, and the caller's stats
  object, if any (a fresh one otherwise).
\<close>

definition DialWithSplitRetry :: "gotime \<Rightarrow> goerr + tcp_conn \<Rightarrow> gotime \<Rightarrow> tcpaddr
    \<Rightarrow> RetryStats option \<Rightarrow> goerr + retrier" where
  "DialWithSplitRetry before dial after addr stats =
     (case dial of
        Inl err \<Rightarrow> Inl err
      | Inr conn \<Rightarrow> Inr
          \<lparr>rt_addr = addr, rt_conn = conn, rt_readDeadline = 0, rt_writeDeadline = 0,
           rt_timeout = timeout before after, rt_hello = [], rt_complete = False,
           rt_readClose = False, rt_writeClose = False,
           rt_stats = (case stats of None \<Rightarrow> no_stats | Some st \<Rightarrow> st), rt_retired = []\<rparr>)"

subsection \<open>Reading\<close>

text \<open>
  \<open>retry(buf)\<close>, called with the mutex held: \<open>dial\<close> is the result of the second dial, \<open>rd\<close> what the
  read on the new socket returns.
\<close>

definition retry :: "nat \<Rightarrow> goerr + tcp_conn \<Rightarrow> bytes \<times> goerr option \<Rightarrow> retrier
    \<Rightarrow> retrier \<times> bytes \<times> goerr option" where
  "retry rnd dial rd r =
     (let old = fst (tcp_Close (rt_conn r)) in
      case dial of
        Inl err \<Rightarrow> (r\<lparr>rt_conn := old\<rparr>, [], Some err)
      | Inr newConn \<Rightarrow>
          (case splitHello tcp_write rnd (rt_hello r) newConn of (c1, out) \<Rightarrow>
             let r1 = r\<lparr>rt_conn := c1, rt_hello := so_hello out, rt_retired := old # rt_retired r,
                   rt_stats := (rt_stats r)\<lparr>rs_Split := of_nat (so_split out)\<rparr>\<rparr>
             in case so_err out of
                  Some err \<Rightarrow> (r1, [], Some err)
                | None \<Rightarrow>
                    let c2 = (if readClosed r then fst (tcp_CloseRead c1) else c1);
                        c3 = (if writeClosed r then fst (tcp_CloseWrite c2) else c2);
                        c4 = fst (tcp_SetReadDeadline (rt_readDeadline r) c3);
                        c5 = fst (tcp_SetWriteDeadline (rt_writeDeadline r) c4)
                    in (r1\<lparr>rt_conn := c5\<rparr>, fst rd, snd rd)))"

text \<open>\<open>Read(buf)\<close>: \<open>rd1\<close> is what the read on the current socket returned.\<close>

definition retrier_Read :: "nat \<Rightarrow> bytes \<times> goerr option \<Rightarrow> goerr + tcp_conn
    \<Rightarrow> bytes \<times> goerr option \<Rightarrow> retrier \<Rightarrow> retrier \<times> bytes \<times> goerr option" where
  "retrier_Read rnd rd1 dial rd2 r =
     (case rd1 of (d, e) \<Rightarrow>
        if d = [] \<and> e = None then (r, d, e)
        else if \<not> retryCompleted r then
          (case (case e of
               Some err \<Rightarrow>
                 retry rnd dial rd2
                   (case errors_as_net err of
                      Some t \<Rightarrow> r\<lparr>rt_stats := (rt_stats r)\<lparr>rs_Timeout := t\<rparr>\<rparr>
                    | None \<Rightarrow> r)
             | None \<Rightarrow> (r, d, e)) of
             (r1, d1, e1) \<Rightarrow>
               (r1\<lparr>rt_complete := True, rt_conn := fst (tcp_SetReadDeadline 0 (rt_conn r1)),
                  rt_hello := []\<rparr>, d1, e1))
        else (r, d, e))"

subsection \<open>Writing\<close>

text \<open>The section of \<open>Write\<close> under the mutex, with the retry not complete.\<close>

definition write_provisional :: "gotime \<Rightarrow> retrier \<Rightarrow> bytes \<Rightarrow> retrier \<times> nat \<times> goerr option" where
  "write_provisional now r b =
     (case tcp_write (rt_conn r) b of (c, n, e) \<Rightarrow>
        let hello = rt_hello r @ take n b in
        (r\<lparr>rt_conn := fst (tcp_SetReadDeadline (now + rt_timeout r) c), rt_hello := hello,
           rt_stats := (rt_stats r)\<lparr>rs_Chunks := rs_Chunks (rt_stats r) + 1,
             rs_Bytes := of_nat (length hello)\<rparr>\<rparr>, n, e))"

definition write_direct :: "retrier \<Rightarrow> bytes \<Rightarrow> retrier \<times> nat \<times> goerr option" where
  "write_direct r b = (case tcp_write (rt_conn r) b of (c, n, e) \<Rightarrow> (r\<lparr>rt_conn := c\<rparr>, n, e))"

text \<open>After a failed provisional write, once the flag is closed: the rest of the slice.\<close>

definition write_rest :: "retrier \<Rightarrow> bytes \<Rightarrow> nat \<Rightarrow> goerr \<Rightarrow> retrier \<times> nat \<times> goerr option" where
  "write_rest r b n err =
     (let buf = drop n b in
      if 0 < length buf then
        (case tcp_write (rt_conn r) buf of (c, m, e) \<Rightarrow> (r\<lparr>rt_conn := c\<rparr>, n + m, e))
      else (r, n, Some err))"

text \<open>
  \<open>Write(b)\<close> as a whole, \<open>wait\<close> being what the other threads do to the retrier until the flag is
  closed.
\<close>

definition retrier_Write :: "gotime \<Rightarrow> (retrier \<Rightarrow> retrier) \<Rightarrow> retrier \<Rightarrow> bytes
    \<Rightarrow> retrier \<times> nat \<times> goerr option" where
  "retrier_Write now wait r b =
     (if \<not> retryCompleted r then
        (case write_provisional now r b of
           (r1, n, None) \<Rightarrow> (r1, n, None)
         | (r1, n, Some err) \<Rightarrow> write_rest (wait r1) b n err)
      else write_direct r b)"

lemma copyOnce_shrinks:
  "copyOnce f w s = (w', s', n, None) \<Longrightarrow>
     length s' + length (concat (map fst s')) < length s + length (concat (map fst s))"
  by (auto simp: copyOnce_def src_read_def split: prod.splits list.splits if_splits option.splits)

text \<open>
  \<open>ReadFrom(reader)\<close>: \<open>other i\<close> is what the other threads do before the \<open>i\<close>-th look at the flag.
\<close>

function read_from_loop :: "gotime \<Rightarrow> (retrier \<Rightarrow> retrier) \<Rightarrow> (nat \<Rightarrow> retrier \<Rightarrow> retrier) \<Rightarrow> nat
    \<Rightarrow> retrier \<Rightarrow> source \<Rightarrow> nat \<Rightarrow> retrier \<times> nat \<times> goerr option" where
  "read_from_loop now wait other i r src bytes =
     (let r0 = other i r in
      if \<not> retryCompleted r0 then
        (case copyOnce (retrier_Write now wait) r0 src of
           (r1, src1, n, Some e) \<Rightarrow> (r1, bytes + n, Some e)
         | (r1, src1, n, None) \<Rightarrow> read_from_loop now wait other (Suc i) r1 src1 (bytes + n))
      else
        (case tcp_ReadFrom (rt_conn r0) src of (c, b, e) \<Rightarrow> (r0\<lparr>rt_conn := c\<rparr>, bytes + b, e)))"
  by pat_completeness auto
termination
  by (relation "measure (\<lambda>(now, wait, other, i, r, src, bytes).
        length src + length (concat (map fst src)))")
    (auto dest!: copyOnce_shrinks [OF sym])

declare read_from_loop.simps [simp del]

definition retrier_ReadFrom :: "gotime \<Rightarrow> (retrier \<Rightarrow> retrier) \<Rightarrow> (nat \<Rightarrow> retrier \<Rightarrow> retrier)
    \<Rightarrow> retrier \<Rightarrow> source \<Rightarrow> retrier \<times> nat \<times> goerr option" where
  "retrier_ReadFrom now wait other r src = read_from_loop now wait other 0 r src 0"

subsection \<open>Closing, deadlines\<close>

text \<open>The store to the flag and the section under the mutex are separate steps of \<open>CloseRead\<close>.\<close>

definition closeRead_store :: "retrier \<Rightarrow> retrier" where
  "closeRead_store r = r\<lparr>rt_readClose := True\<rparr>"

definition closeRead_locked :: "retrier \<Rightarrow> retrier \<times> goerr option" where
  "closeRead_locked r = (case tcp_CloseRead (rt_conn r) of (c, e) \<Rightarrow> (r\<lparr>rt_conn := c\<rparr>, e))"

definition retrier_CloseRead :: "retrier \<Rightarrow> retrier \<times> goerr option" where
  "retrier_CloseRead r = closeRead_locked (closeRead_store r)"

definition closeWrite_store :: "retrier \<Rightarrow> retrier" where
  "closeWrite_store r = r\<lparr>rt_writeClose := True\<rparr>"

definition closeWrite_locked :: "retrier \<Rightarrow> retrier \<times> goerr option" where
  "closeWrite_locked r = (case tcp_CloseWrite (rt_conn r) of (c, e) \<Rightarrow> (r\<lparr>rt_conn := c\<rparr>, e))"

definition retrier_CloseWrite :: "retrier \<Rightarrow> retrier \<times> goerr option" where
  "retrier_CloseWrite r = closeWrite_locked (closeWrite_store r)"

definition retrier_Close :: "retrier \<Rightarrow> retrier \<times> goerr option" where
  "retrier_Close r =
     (case retrier_CloseWrite r of
        (r1, Some err) \<Rightarrow> (r1, Some err)
      | (r1, None) \<Rightarrow> retrier_CloseRead r1)"

definition retrier_RemoteAddr :: "retrier \<Rightarrow> tcpaddr" where
  "retrier_RemoteAddr r = rt_addr r"

definition retrier_SetReadDeadline :: "gotime \<Rightarrow> retrier \<Rightarrow> retrier \<times> goerr option" where
  "retrier_SetReadDeadline t r =
     (let r1 = r\<lparr>rt_readDeadline := t\<rparr> in
      if retryCompleted r1 then
        (case tcp_SetReadDeadline t (rt_conn r1) of (c, e) \<Rightarrow> (r1\<lparr>rt_conn := c\<rparr>, e))
      else (r1, None))"

definition retrier_SetWriteDeadline :: "gotime \<Rightarrow> retrier \<Rightarrow> retrier \<times> goerr option" where
  "retrier_SetWriteDeadline t r =
     (case tcp_SetWriteDeadline t (rt_conn r) of (c, e) \<Rightarrow>
        (r\<lparr>rt_writeDeadline := t, rt_conn := c\<rparr>, e))"

definition retrier_SetDeadline :: "gotime \<Rightarrow> retrier \<Rightarrow> retrier \<times> goerr option" where
  "retrier_SetDeadline t r =
     (case retrier_SetReadDeadline t r of (r1, e1) \<Rightarrow>
       (case retrier_SetWriteDeadline t r1 of (r2, e2) \<Rightarrow>
          (r2, if e1 \<noteq> None then e1 else e2)))"

subsection \<open>The threads\<close>

text \<open>
  A writer is idle, waits for the mutex with its slice after it saw the flag open, or waits for the
  flag after a provisional write took \<open>n\<close> bytes and failed. \<open>s_cr\<close> and \<open>s_cw\<close> say that a \<open>CloseRead\<close> or
  \<open>CloseWrite\<close> has stored its flag and not yet taken the mutex. \<open>s_acc\<close> and \<open>s_mode\<close> are ghosts: the
  bytes accepted from the caller so far, and how the connection was settled.
\<close>

datatype wpc = WIdle | WLock bytes | WWait bytes nat goerr

datatype mode = Provisional | Direct | Retried | Failed

record rsys =
  s_r :: retrier
  s_w :: wpc
  s_cr :: bool
  s_cw :: bool
  s_acc :: bytes
  s_mode :: mode

text \<open>How a first non-empty read result settles the connection.\<close>

definition settle :: "nat \<Rightarrow> bytes \<times> goerr option \<Rightarrow> goerr + tcp_conn \<Rightarrow> retrier \<Rightarrow> mode" where
  "settle rnd rd1 dial r =
     (if snd rd1 = None then Direct
      else case dial of
        Inl _ \<Rightarrow> Failed
      | Inr c \<Rightarrow> if so_err (snd (splitHello tcp_write rnd (rt_hello r) c)) = None then Retried else Failed)"

text \<open>
  A socket that was just dialled. What its \<open>shutdown\<close> calls and writes will return is not restricted; the kernel can also
  begin to refuse \<open>shutdown\<close> later (\<open>peer_reset\<close>), as it does once the peer has reset the connection.
\<close>

definition fresh_conn :: "tcp_conn \<Rightarrow> bool" where
  "fresh_conn c \<longleftrightarrow> tcp_stream c = [] \<and> \<not> c_closed c \<and> \<not> c_rclosed c \<and> \<not> c_wclosed c"

inductive rstep :: "rsys \<Rightarrow> rsys \<Rightarrow> bool" where
  read_nothing:
    "rd1 = ([], None) \<Longrightarrow> rstep s (s\<lparr>s_r := fst (retrier_Read rnd rd1 dial rd2 (s_r s))\<rparr>)"
| read_settled:
    "rd1 \<noteq> ([], None) \<Longrightarrow> rt_complete (s_r s) \<Longrightarrow>
     rstep s (s\<lparr>s_r := fst (retrier_Read rnd rd1 dial rd2 (s_r s))\<rparr>)"
| read_first:
    "rd1 \<noteq> ([], None) \<Longrightarrow> \<not> rt_complete (s_r s) \<Longrightarrow> (\<And>c. dial = Inr c \<Longrightarrow> fresh_conn c) \<Longrightarrow>
     rstep s (s\<lparr>s_r := fst (retrier_Read rnd rd1 dial rd2 (s_r s)),
               s_mode := settle rnd rd1 dial (s_r s)\<rparr>)"
| write_check:
    "s_w s = WIdle \<Longrightarrow> \<not> rt_complete (s_r s) \<Longrightarrow> rstep s (s\<lparr>s_w := WLock b\<rparr>)"
| write_fast:
    "s_w s = WIdle \<or> s_w s = WLock b \<Longrightarrow> rt_complete (s_r s) \<Longrightarrow> write_direct (s_r s) b = (r', n, e) \<Longrightarrow>
     rstep s (s\<lparr>s_r := r', s_w := WIdle, s_acc := s_acc s @ take n b\<rparr>)"
| write_locked:
    "s_w s = WLock b \<Longrightarrow> \<not> rt_complete (s_r s) \<Longrightarrow> write_provisional now (s_r s) b = (r', n, e) \<Longrightarrow>
     rstep s (s\<lparr>s_r := r', s_w := (case e of None \<Rightarrow> WIdle | Some err \<Rightarrow> WWait b n err),
               s_acc := s_acc s @ take n b\<rparr>)"
| write_after:
    "s_w s = WWait b n err \<Longrightarrow> rt_complete (s_r s) \<Longrightarrow> write_rest (s_r s) b n err = (r', m, e) \<Longrightarrow>
     rstep s (s\<lparr>s_r := r', s_w := WIdle, s_acc := s_acc s @ take (m - n) (drop n b)\<rparr>)"
| close_read_store:
    "rstep s (s\<lparr>s_r := closeRead_store (s_r s), s_cr := True\<rparr>)"
| close_read_lock:
    "s_cr s \<Longrightarrow> rstep s (s\<lparr>s_r := fst (closeRead_locked (s_r s)), s_cr := False\<rparr>)"
| close_write_store:
    "rstep s (s\<lparr>s_r := closeWrite_store (s_r s), s_cw := True\<rparr>)"
| close_write_lock:
    "s_cw s \<Longrightarrow> rstep s (s\<lparr>s_r := fst (closeWrite_locked (s_r s)), s_cw := False\<rparr>)"
| read_deadline:
    "rstep s (s\<lparr>s_r := fst (retrier_SetReadDeadline t (s_r s))\<rparr>)"
| write_deadline:
    "rstep s (s\<lparr>s_r := fst (retrier_SetWriteDeadline t (s_r s))\<rparr>)"
| peer_reset:
    "c_shut (rt_conn (s_r s)) = None \<Longrightarrow>
     rstep s (s\<lparr>s_r := (s_r s)\<lparr>rt_conn := (rt_conn (s_r s))\<lparr>c_shut := Some err\<rparr>\<rparr>\<rparr>)"

definition rinit :: "retrier \<Rightarrow> rsys" where
  "rinit r = \<lparr>s_r = r, s_w = WIdle, s_cr = False, s_cw = False, s_acc = [], s_mode = Provisional\<rparr>"

inductive rreach :: "rsys \<Rightarrow> bool" where
  start: "DialWithSplitRetry before (Inr c) after addr stats = Inr r \<Longrightarrow> fresh_conn c \<Longrightarrow> rreach (rinit r)"
| step: "rreach s \<Longrightarrow> rstep s t \<Longrightarrow> rreach t"

text \<open>
  The invariant. Before the connection is settled the hello is what was accepted and what the
  socket carries; after that the hello is gone and the socket carries what was accepted, behind a
  split hello if there was a retry; the retired socket carries the hello. When the retry failed, either there is no second
  socket and the first, which is closed, carries what was accepted; or the second one carries a part of the split hello
  and what was accepted after it. At most one socket was retired, and it is closed.
\<close>

definition stream_inv :: "mode \<Rightarrow> retrier \<Rightarrow> bytes \<Rightarrow> bool" where
  "stream_inv md r acc = (case md of
      Provisional \<Rightarrow> \<not> rt_complete r \<and> rt_hello r = acc \<and> tcp_stream (rt_conn r) = acc
    | Direct \<Rightarrow> rt_complete r \<and> rt_hello r = [] \<and> tcp_stream (rt_conn r) = acc
    | Retried \<Rightarrow> rt_complete r \<and> rt_hello r = []
        \<and> (\<exists>rnd h rest old. acc = h @ rest \<and> tcp_stream (rt_conn r) = split_wire rnd h @ rest
             \<and> rt_retired r = [old] \<and> tcp_stream old = h)
    | Failed \<Rightarrow> rt_complete r \<and> rt_hello r = []
        \<and> (rt_retired r = [] \<and> c_closed (rt_conn r) \<and> tcp_stream (rt_conn r) = acc
           \<or> (\<exists>rnd h k rest old. acc = h @ rest \<and> tcp_stream (rt_conn r) = take k (split_wire rnd h) @ rest
                \<and> rt_retired r = [old] \<and> tcp_stream old = h)))"

definition retired_inv :: "mode \<Rightarrow> retrier \<Rightarrow> bool" where
  "retired_inv md r \<longleftrightarrow> length (rt_retired r) \<le> (if md = Provisional \<or> md = Direct then 0 else 1)
     \<and> (\<forall>c\<in>set (rt_retired r). c_closed c)"

text \<open>A close request that has finished is in force on the socket in use, unless that socket refuses \<open>shutdown\<close>.\<close>

definition close_inv :: "rsys \<Rightarrow> bool" where
  "close_inv s \<longleftrightarrow> s_mode s \<noteq> Failed \<longrightarrow>
     (\<not> c_closed (rt_conn (s_r s))
      \<and> (rt_readClose (s_r s) \<and> \<not> s_cr s \<longrightarrow> c_rclosed (rt_conn (s_r s)) \<or> c_shut (rt_conn (s_r s)) \<noteq> None)
      \<and> (rt_writeClose (s_r s) \<and> \<not> s_cw s \<longrightarrow> c_wclosed (rt_conn (s_r s)) \<or> c_shut (rt_conn (s_r s)) \<noteq> None))"

definition rinv :: "rsys \<Rightarrow> bool" where
  "rinv s \<longleftrightarrow> stream_inv (s_mode s) (s_r s) (s_acc s) \<and> retired_inv (s_mode s) (s_r s) \<and> close_inv s"

lemmas rinv_defs = rinv_def stream_inv_def retired_inv_def close_inv_def

subsection \<open>Every step keeps the invariant\<close>

lemma complete_iff_mode: "rinv s \<Longrightarrow> rt_complete (s_r s) = (s_mode s \<noteq> Provisional)"
  by (cases "s_mode s") (simp_all add: rinv_def stream_inv_def)

lemma rinv_init:
  assumes "DialWithSplitRetry before (Inr c) after addr stats = Inr r" and "fresh_conn c"
  shows "rinv (rinit r)"
  using assms by (auto simp: rinv_defs rinit_def DialWithSplitRetry_def fresh_conn_def)

lemma retrier_Read_frame:
  "rt_complete r \<or> rd1 = ([], None) \<Longrightarrow> fst (retrier_Read rnd rd1 dial rd2 r) = r"
  by (auto simp: retrier_Read_def retryCompleted_def split: prod.splits)

lemma tcp_op_frame:
  "\<not> c_closed c \<Longrightarrow> tcp_CloseRead c = (if c_shut c = None then c\<lparr>c_rclosed := True\<rparr> else c, c_shut c)"
  "\<not> c_closed c \<Longrightarrow> tcp_CloseWrite c = (if c_shut c = None then c\<lparr>c_wclosed := True\<rparr> else c, c_shut c)"
  "\<not> c_closed c \<Longrightarrow> tcp_SetReadDeadline t c = (c\<lparr>c_rdeadline := t\<rparr>, None)"
  "\<not> c_closed c \<Longrightarrow> tcp_SetWriteDeadline t c = (c\<lparr>c_wdeadline := t\<rparr>, None)"
  by (simp_all add: tcp_op_defs split: option.split)

lemma tcp_stream_fields [simp]:
  "tcp_stream (c\<lparr>c_rclosed := x\<rparr>) = tcp_stream c"
  "tcp_stream (c\<lparr>c_wclosed := x\<rparr>) = tcp_stream c"
  "tcp_stream (c\<lparr>c_closed := x\<rparr>) = tcp_stream c"
  "tcp_stream (c\<lparr>c_shut := y\<rparr>) = tcp_stream c"
  "tcp_stream (c\<lparr>c_rdeadline := t\<rparr>) = tcp_stream c"
  "tcp_stream (c\<lparr>c_wdeadline := t\<rparr>) = tcp_stream c"
  by (simp_all add: tcp_stream_def)

lemma splitHello_frame:
  assumes "splitHello tcp_write rnd h c = (c1, out)"
  shows "c_shut c1 = c_shut c" "c_rclosed c1 = c_rclosed c" "c_wclosed c1 = c_wclosed c"
    "c_closed c1 = c_closed c"
proof -
  have "c_shut c1 = c_shut c \<and> c_rclosed c1 = c_rclosed c \<and> c_wclosed c1 = c_wclosed c
      \<and> c_closed c1 = c_closed c"
  proof (cases "length h \<le> 1")
    case True
    with assms show ?thesis
      by (auto simp: splitHello_def tcp_write_frame split: prod.splits)
  next
    case False
    with assms show ?thesis
      by (auto simp: splitHello_plan tcp_write_frame split: prod.splits option.splits)
  qed
  then show "c_shut c1 = c_shut c" "c_rclosed c1 = c_rclosed c" "c_wclosed c1 = c_wclosed c"
    "c_closed c1 = c_closed c"
    by blast+
qed

text \<open>What a first read leaves, by the way it settles the connection.\<close>

lemma read_first_direct:
  assumes "\<not> rt_complete r" and "rd1 = (d, None)" and "d \<noteq> []"
  shows "retrier_Read rnd rd1 dial rd2 r =
     (r\<lparr>rt_complete := True, rt_conn := fst (tcp_SetReadDeadline 0 (rt_conn r)), rt_hello := []\<rparr>,
      d, None)"
  using assms by (simp add: retrier_Read_def retryCompleted_def)

lemma read_first_retried:
  assumes "\<not> rt_complete r" and "rd1 = (d, Some err)" and "dial = Inr c" and "fresh_conn c"
    and "so_err (snd (splitHello tcp_write rnd (rt_hello r) c)) = None"
    and r': "r' = fst (retrier_Read rnd rd1 dial rd2 r)"
  shows "rt_complete r'" "rt_hello r' = []"
    and "tcp_stream (rt_conn r') = split_wire rnd (rt_hello r)"
    and "rt_retired r' = fst (tcp_Close (rt_conn r)) # rt_retired r"
    and "\<not> c_closed (rt_conn r')"
    and "rt_readClose r \<Longrightarrow> c_rclosed (rt_conn r') \<or> c_shut (rt_conn r') \<noteq> None"
    and "rt_writeClose r \<Longrightarrow> c_wclosed (rt_conn r') \<or> c_shut (rt_conn r') \<noteq> None"
    and "rt_readClose r' = rt_readClose r" "rt_writeClose r' = rt_writeClose r"
    and "c_wdeadline (rt_conn r') = rt_writeDeadline r" "c_rdeadline (rt_conn r') = 0"
    and "rt_readDeadline r' = rt_readDeadline r"
proof -
  obtain c1 out where sh: "splitHello tcp_write rnd (rt_hello r) c = (c1, out)"
    by (cases "splitHello tcp_write rnd (rt_hello r) c")
  note frame = splitHello_frame [OF sh]
  have st: "tcp_stream c1 = split_wire rnd (rt_hello r)"
    using tcp.splitHello_stream_all [OF sh] assms(4,5) sh by (simp add: fresh_conn_def)
  have c1: "\<not> c_closed c1" "\<not> c_rclosed c1" "\<not> c_wclosed c1"
    using frame assms(4) by (simp_all add: fresh_conn_def)
  obtain t where t: "(case errors_as_net err of Some t \<Rightarrow> r\<lparr>rt_stats := (rt_stats r)\<lparr>rs_Timeout := t\<rparr>\<rparr>
      | None \<Rightarrow> r) = r\<lparr>rt_stats := t\<rparr>"
    by (cases "errors_as_net err") (auto intro: that [of "rt_stats r"])
  have "r' = r\<lparr>rt_complete := True, rt_hello := [],
      rt_conn := c1\<lparr>c_rclosed := rt_readClose r \<and> c_shut c1 = None, c_wclosed := rt_writeClose r \<and> c_shut c1 = None,
        c_rdeadline := 0, c_wdeadline := rt_writeDeadline r\<rparr>,
      rt_retired := fst (tcp_Close (rt_conn r)) # rt_retired r,
      rt_stats := t\<lparr>rs_Split := of_nat (so_split out)\<rparr>\<rparr>"
    using assms(1,2,3,5) r' sh c1
    by (auto simp: retrier_Read_def t retry_def flag_defs Let_def tcp_op_frame)
  then show "rt_complete r'" "rt_hello r' = []"
    "tcp_stream (rt_conn r') = split_wire rnd (rt_hello r)"
    "rt_retired r' = fst (tcp_Close (rt_conn r)) # rt_retired r"
    "\<not> c_closed (rt_conn r')"
    "rt_readClose r \<Longrightarrow> c_rclosed (rt_conn r') \<or> c_shut (rt_conn r') \<noteq> None"
    "rt_writeClose r \<Longrightarrow> c_wclosed (rt_conn r') \<or> c_shut (rt_conn r') \<noteq> None"
    "rt_readClose r' = rt_readClose r" "rt_writeClose r' = rt_writeClose r"
    "c_wdeadline (rt_conn r') = rt_writeDeadline r" "c_rdeadline (rt_conn r') = 0"
    "rt_readDeadline r' = rt_readDeadline r"
    using st c1 by (cases "c_shut c1"; simp)+
qed

lemma read_first_failed:
  assumes "\<not> rt_complete r" and "rd1 = (d, Some err)" and "settle rnd rd1 dial r = Failed"
    and "\<And>c. dial = Inr c \<Longrightarrow> fresh_conn c" and r': "r' = fst (retrier_Read rnd rd1 dial rd2 r)"
  shows "rt_complete r' \<and> rt_hello r' = []
    \<and> (rt_retired r' = rt_retired r \<and> c_closed (rt_conn r') \<and> tcp_stream (rt_conn r') = tcp_stream (rt_conn r)
      \<or> rt_retired r' = fst (tcp_Close (rt_conn r)) # rt_retired r
        \<and> (\<exists>k. tcp_stream (rt_conn r') = take k (split_wire rnd (rt_hello r))))"
proof -
  obtain t where t: "(case errors_as_net err of Some t \<Rightarrow> r\<lparr>rt_stats := (rt_stats r)\<lparr>rs_Timeout := t\<rparr>\<rparr>
      | None \<Rightarrow> r) = r\<lparr>rt_stats := t\<rparr>"
    by (cases "errors_as_net err") (auto intro: that [of "rt_stats r"])
  show ?thesis
  proof (cases dial)
    case (Inl e)
    then show ?thesis using assms by (auto simp: retrier_Read_def t retry_def flag_defs Let_def)
  next
    case (Inr c)
    obtain c1 out where sh: "splitHello tcp_write rnd (rt_hello r) c = (c1, out)"
      by (cases "splitHello tcp_write rnd (rt_hello r) c")
    obtain e where e: "so_err out = Some e" using assms(2,3) sh Inr by (auto simp: settle_def split: if_splits)
    have "tcp_stream c1 = take (so_n out) (split_wire rnd (rt_hello r))"
      using tcp.splitHello_stream(1) [OF sh] assms(4) [OF Inr] by (simp add: fresh_conn_def)
    then show ?thesis using assms(1,2) r' sh e Inr by (auto simp: retrier_Read_def t retry_def flag_defs Let_def)
  qed
qed

lemma rinv_read_first:
  assumes "rinv s" and "rd1 \<noteq> ([], None)" and "\<not> rt_complete (s_r s)"
    and "\<And>c. dial = Inr c \<Longrightarrow> fresh_conn c"
  shows "rinv (s\<lparr>s_r := fst (retrier_Read rnd rd1 dial rd2 (s_r s)),
                s_mode := settle rnd rd1 dial (s_r s)\<rparr>)"
proof -
  have md: "s_mode s = Provisional" using complete_iff_mode [OF assms(1)] assms(3) by simp
  obtain d e where rd1: "rd1 = (d, e)" by (cases rd1)
  define r' where "r' = fst (retrier_Read rnd rd1 dial rd2 (s_r s))"
  show ?thesis
  proof (cases e)
    case None
    with rd1 assms(2) have d: "d \<noteq> []" by simp
    have "settle rnd rd1 dial (s_r s) = Direct" by (simp add: settle_def rd1 None)
    then show ?thesis
      using assms(1) md read_first_direct [OF assms(3) rd1 [unfolded None] d]
      by (auto simp: rinv_defs tcp_op_frame)
  next
    case (Some err)
    show ?thesis
    proof (cases "settle rnd rd1 dial (s_r s) = Failed")
      case True
      have old: "s_acc s = rt_hello (s_r s)" "rt_retired (s_r s) = []" "tcp_stream (rt_conn (s_r s)) = s_acc s"
        using assms(1) md by (simp_all add: rinv_defs)
      from read_first_failed [OF assms(3) rd1 [unfolded Some] True assms(4) r'_def]
      show ?thesis using old True unfolding r'_def [symmetric]
        by (auto simp: rinv_defs) blast+
    next
      case False
      then obtain c where c: "dial = Inr c" "settle rnd rd1 dial (s_r s) = Retried"
        and ok: "so_err (snd (splitHello tcp_write rnd (rt_hello (s_r s)) c)) = None"
        by (auto simp: settle_def rd1 Some split: sum.splits if_splits)
      note ret = read_first_retried [OF assms(3) rd1 [unfolded Some] c(1) assms(4) [OF c(1)] ok r'_def]
      from assms(1) md have old: "s_acc s = rt_hello (s_r s)" "rt_retired (s_r s) = []" "tcp_stream (rt_conn (s_r s)) = s_acc s"
        by (simp_all add: rinv_defs)
      then have "\<exists>rn h rest old. s_acc s = h @ rest \<and> tcp_stream (rt_conn r') = split_wire rn h @ rest
          \<and> rt_retired r' = [old] \<and> tcp_stream old = h"
        using ret(3,4) by (intro exI [of _ rnd] exI [of _ "s_acc s"] exI [of _ "[]"]) simp
      then show ?thesis
        using ret c(2) \<open>rt_retired (s_r s) = []\<close> unfolding r'_def [symmetric]
        by (simp add: rinv_defs)
    qed
  qed
qed

text \<open>Steps that leave the bytes and the retry alone.\<close>

lemma stream_inv_frame:
  assumes "stream_inv md r acc" and "rt_complete r' = rt_complete r" and "rt_hello r' = rt_hello r" and "rt_retired r' = rt_retired r"
    and "tcp_stream (rt_conn r') = tcp_stream (rt_conn r)" and "c_closed (rt_conn r') = c_closed (rt_conn r)"
  shows "stream_inv md r' acc"
  using assms(1) unfolding stream_inv_def assms(2-6) .

lemma retired_inv_frame: "retired_inv md r \<Longrightarrow> rt_retired r' = rt_retired r \<Longrightarrow> retired_inv md r'"
  by (simp add: retired_inv_def)

lemma rinv_frame:
  assumes "rinv s" and "s_mode t = s_mode s" and "s_acc t = s_acc s" and "rt_complete (s_r t) = rt_complete (s_r s)"
    and "rt_hello (s_r t) = rt_hello (s_r s)" and "rt_retired (s_r t) = rt_retired (s_r s)"
    and "tcp_stream (rt_conn (s_r t)) = tcp_stream (rt_conn (s_r s))" and "c_closed (rt_conn (s_r t)) = c_closed (rt_conn (s_r s))"
    and "close_inv t"
  shows "rinv t"
  using assms stream_inv_frame retired_inv_frame unfolding rinv_def by metis

text \<open>A write on a settled connection appends what it took to the stream and to the ghost.\<close>

lemma stream_inv_write:
  assumes "stream_inv md r acc" and "md \<noteq> Provisional"
    and "tcp_stream c' = tcp_stream (rt_conn r) @ x" and "c_closed c' = c_closed (rt_conn r)"
  shows "stream_inv md (r\<lparr>rt_conn := c'\<rparr>) (acc @ x)"
proof (cases md)
  case Retried
  then obtain rnd h rest old where "rt_complete r" "rt_hello r = []" "acc = h @ rest"
      "tcp_stream (rt_conn r) = split_wire rnd h @ rest" "rt_retired r = [old]" "tcp_stream old = h"
    using assms(1) by (auto simp: stream_inv_def)
  then show ?thesis using Retried assms(3) unfolding stream_inv_def by auto
next
  case Failed
  show ?thesis
  proof (cases "rt_retired r")
    case (Cons a as)
    then obtain rnd h k rest where "rt_complete r" "rt_hello r = []" "acc = h @ rest"
        "tcp_stream (rt_conn r) = take k (split_wire rnd h) @ rest" "rt_retired r = [a]" "tcp_stream a = h"
      using assms(1) Failed by (auto simp: stream_inv_def)
    moreover from this have "tcp_stream c' = take k (split_wire rnd h) @ rest @ x" "acc @ x = h @ rest @ x"
      using assms(3) by simp_all
    ultimately show ?thesis unfolding Failed stream_inv_def mode.case
      by (intro conjI disjI2 exI [of _ rnd] exI [of _ h] exI [of _ k] exI [of _ "rest @ x"] exI [of _ a]) simp_all
  qed (use assms Failed in \<open>auto simp: stream_inv_def\<close>)
qed (use assms in \<open>auto simp: stream_inv_def\<close>)

lemma rinv_settled_write:
  assumes "rinv s" and "rt_complete (s_r s)" and "tcp_write (rt_conn (s_r s)) b = (c', n, e)"
  shows "rinv (s\<lparr>s_r := (s_r s)\<lparr>rt_conn := c'\<rparr>, s_w := w, s_acc := s_acc s @ take n b\<rparr>)"
proof -
  have md: "s_mode s \<noteq> Provisional" using complete_iff_mode assms(1,2) by blast
  have "stream_inv (s_mode s) ((s_r s)\<lparr>rt_conn := c'\<rparr>) (s_acc s @ take n b)"
    using stream_inv_write [OF _ md tcp.write_stream [OF assms(3)] tcp_write_frame(4) [OF assms(3)]] assms(1)
    by (simp add: rinv_def)
  then show ?thesis
    using assms(1) tcp_write_frame [OF assms(3)]
    by (simp add: rinv_def retired_inv_def close_inv_def)
qed

lemma rinv_write_direct:
  assumes "rinv s" and "rt_complete (s_r s)" and "write_direct (s_r s) b = (r', n, e)"
  shows "rinv (s\<lparr>s_r := r', s_w := w, s_acc := s_acc s @ take n b\<rparr>)"
proof -
  obtain c' where "tcp_write (rt_conn (s_r s)) b = (c', n, e)" "r' = (s_r s)\<lparr>rt_conn := c'\<rparr>"
    using assms(3) by (auto simp: write_direct_def split: prod.splits)
  with rinv_settled_write [OF assms(1,2)] show ?thesis by simp
qed

lemma rinv_write_rest:
  assumes "rinv s" and "rt_complete (s_r s)" and "write_rest (s_r s) b n err = (r', m, e)"
  shows "rinv (s\<lparr>s_r := r', s_w := w, s_acc := s_acc s @ take (m - n) (drop n b)\<rparr>)"
proof (cases "0 < length (drop n b)")
  case True
  then obtain c' k where "tcp_write (rt_conn (s_r s)) (drop n b) = (c', k, e)"
    "r' = (s_r s)\<lparr>rt_conn := c'\<rparr>" "m = n + k"
    using assms(3) by (auto simp: write_rest_def Let_def split: prod.splits)
  with rinv_settled_write [OF assms(1,2)] show ?thesis by simp
next
  case False
  then have "r' = s_r s" "m = n" using assms(3) by (auto simp: write_rest_def Let_def)
  then show ?thesis using assms(1) by (simp add: rinv_defs)
qed

lemma rinv_write_provisional:
  assumes "rinv s" and "\<not> rt_complete (s_r s)" and "write_provisional now (s_r s) b = (r', n, e)"
  shows "rinv (s\<lparr>s_r := r', s_w := w, s_acc := s_acc s @ take n b\<rparr>)"
proof -
  have md: "s_mode s = Provisional" using complete_iff_mode [OF assms(1)] assms(2) by simp
  obtain c' st where w: "tcp_write (rt_conn (s_r s)) b = (c', n, e)"
    and r': "r' = (s_r s)\<lparr>rt_conn := fst (tcp_SetReadDeadline (now + rt_timeout (s_r s)) c'),
        rt_hello := rt_hello (s_r s) @ take n b, rt_stats := st\<rparr>"
    using assms(3) by (auto simp: write_provisional_def Let_def split: prod.splits)
  show ?thesis
    using assms(1) md tcp_write_frame [OF w] tcp.write_stream [OF w] r'
    by (auto simp: rinv_defs tcp_op_frame)
qed

lemma rinv_close_read:
  assumes "rinv s"
  shows "rinv (s\<lparr>s_r := closeRead_store (s_r s), s_cr := True\<rparr>)"
    and "rinv (s\<lparr>s_r := fst (closeRead_locked (s_r s)), s_cr := False\<rparr>)"
  by (rule rinv_frame [OF assms];
      use assms in \<open>simp add: rinv_def close_inv_def closeRead_store_def closeRead_locked_def tcp_op_frame split: prod.splits\<close>)
    (rule rinv_frame [OF assms];
      use assms in \<open>auto simp: rinv_def close_inv_def closeRead_locked_def tcp_CloseRead_def tcp_stream_def split: prod.splits option.splits if_splits\<close>)

lemma rinv_close_write:
  assumes "rinv s"
  shows "rinv (s\<lparr>s_r := closeWrite_store (s_r s), s_cw := True\<rparr>)"
    and "rinv (s\<lparr>s_r := fst (closeWrite_locked (s_r s)), s_cw := False\<rparr>)"
  by (rule rinv_frame [OF assms];
      use assms in \<open>simp add: rinv_def close_inv_def closeWrite_store_def closeWrite_locked_def tcp_op_frame split: prod.splits\<close>)
    (rule rinv_frame [OF assms];
      use assms in \<open>auto simp: rinv_def close_inv_def closeWrite_locked_def tcp_CloseWrite_def tcp_stream_def split: prod.splits option.splits if_splits\<close>)

lemma tcp_deadline_frame [simp]:
  "c_shut (fst (tcp_SetReadDeadline t c)) = c_shut c"
  "c_rclosed (fst (tcp_SetReadDeadline t c)) = c_rclosed c"
  "c_wclosed (fst (tcp_SetReadDeadline t c)) = c_wclosed c"
  "c_shut (fst (tcp_SetWriteDeadline t c)) = c_shut c"
  "c_rclosed (fst (tcp_SetWriteDeadline t c)) = c_rclosed c"
  "c_wclosed (fst (tcp_SetWriteDeadline t c)) = c_wclosed c"
  by (simp_all add: tcp_op_defs)

lemma rinv_conn_frame:
  assumes "rinv s" and "tcp_stream c = tcp_stream (rt_conn (s_r s))"
    and "c_closed c = c_closed (rt_conn (s_r s))" and "c_shut c = c_shut (rt_conn (s_r s))"
    and "c_rclosed c = c_rclosed (rt_conn (s_r s))" and "c_wclosed c = c_wclosed (rt_conn (s_r s))"
  shows "rinv (s\<lparr>s_r := (s_r s)\<lparr>rt_conn := c, rt_readDeadline := x, rt_writeDeadline := y\<rparr>\<rparr>)"
  by (rule rinv_frame [OF assms(1)]) (use assms in \<open>simp_all add: rinv_def close_inv_def\<close>)

lemma retrier_deadlines_eq:
  "fst (retrier_SetReadDeadline t r) =
     r\<lparr>rt_conn := (if rt_complete r then fst (tcp_SetReadDeadline t (rt_conn r)) else rt_conn r),
       rt_readDeadline := t, rt_writeDeadline := rt_writeDeadline r\<rparr>"
  "fst (retrier_SetWriteDeadline t r) =
     r\<lparr>rt_conn := fst (tcp_SetWriteDeadline t (rt_conn r)),
       rt_readDeadline := rt_readDeadline r, rt_writeDeadline := t\<rparr>"
  by (auto simp: retrier_SetReadDeadline_def retrier_SetWriteDeadline_def retryCompleted_def Let_def
      split: prod.splits)

lemma rinv_deadlines:
  assumes "rinv s"
  shows "rinv (s\<lparr>s_r := fst (retrier_SetReadDeadline t (s_r s))\<rparr>)"
    and "rinv (s\<lparr>s_r := fst (retrier_SetWriteDeadline t (s_r s))\<rparr>)"
  unfolding retrier_deadlines_eq by (intro rinv_conn_frame [OF assms]; simp)+

lemma rstep_rinv: "rstep s t \<Longrightarrow> rinv s \<Longrightarrow> rinv t"
proof (induction rule: rstep.induct)
  case (read_nothing rd1 s rnd dial rd2)
  then show ?case by (simp add: retrier_Read_frame)
next
  case (read_settled rd1 s rnd dial rd2)
  then show ?case by (simp add: retrier_Read_frame)
next
  case (read_first rd1 s dial rnd rd2)
  then show ?case by (intro rinv_read_first)
next
  case (write_check s b)
  then show ?case by (simp add: rinv_defs)
next
  case (write_fast s b r' n e)
  then show ?case by (intro rinv_write_direct)
next
  case (write_locked s b now r' n e)
  then show ?case by (intro rinv_write_provisional)
next
  case (write_after s b n err r' m e)
  then show ?case by (intro rinv_write_rest)
next
  case (close_read_store s)
  then show ?case by (rule rinv_close_read)
next
  case (close_read_lock s)
  then show ?case by (intro rinv_close_read)
next
  case (close_write_store s)
  then show ?case by (rule rinv_close_write)
next
  case (close_write_lock s)
  then show ?case by (intro rinv_close_write)
next
  case (read_deadline s t)
  then show ?case by (rule rinv_deadlines)
next
  case (write_deadline s t)
  then show ?case by (rule rinv_deadlines)
next
  case (peer_reset s err)
  then show ?case by (intro rinv_frame [OF peer_reset(2)]) (auto simp: rinv_def close_inv_def)
qed

lemma rreach_rinv: "rreach s \<Longrightarrow> rinv s"
  by (induction rule: rreach.induct) (auto intro: rinv_init rstep_rinv)

lemma rinv_transparent:
  assumes "rinv s" and "s_mode s \<noteq> Failed"
  shows "tcp_stream (rt_conn (s_r s)) = s_acc s
    \<or> (\<forall>rest. tls_content (tcp_stream (rt_conn (s_r s)) @ rest) = tls_content (s_acc s @ rest))"
proof (cases "s_mode s")
  case Retried
  with assms(1) obtain rn h rest where acc: "s_acc s = h @ rest"
    and st: "tcp_stream (rt_conn (s_r s)) = split_wire rn h @ rest"
    by (auto simp: rinv_defs)
  show ?thesis
  proof (cases "record_split rn h")
    case True
    then show ?thesis by (simp add: acc st split_wire_content)
  next
    case False
    then show ?thesis by (simp add: acc st split_wire_plain)
  qed
qed (use assms in \<open>auto simp: rinv_defs\<close>)

subsection \<open>Properties\<close>

text \<open>A concrete run: a hello on the provisional socket, a reset, the retry, and one more write.\<close>

definition demo_addr :: tcpaddr where
  "demo_addr = \<lparr>ta_ip = [192, 0, 2, 1], ta_port = 443\<rparr>"

definition demo_r0 :: retrier where
  "demo_r0 = projr (DialWithSplitRetry 0 (Inr (tcp_new [])) 10 demo_addr None)"

definition demo_r1 :: retrier where
  "demo_r1 = fst (write_provisional 20 demo_r0 demo_hello)"

definition demo_r2 :: retrier where
  "demo_r2 = fst (retrier_Read 0 ([], Some (ENet False)) (Inr (tcp_new [])) ([1], None) demo_r1)"

definition demo_s2 :: rsys where
  "demo_s2 = \<lparr>s_r = demo_r2, s_w = WIdle, s_cr = False, s_cw = False, s_acc = demo_hello,
     s_mode = Retried\<rparr>"

lemma demo_dial: "DialWithSplitRetry 0 (Inr (tcp_new [])) 10 demo_addr None = Inr demo_r0"
  by (simp add: demo_r0_def DialWithSplitRetry_def)

lemma demo_fresh: "fresh_conn (tcp_new [])"
  by (simp add: fresh_conn_def tcp_new_def tcp_stream_def)

lemma demo_r1_facts:
  "write_provisional 20 demo_r0 demo_hello = (demo_r1, 12, None)"
  "\<not> rt_complete demo_r0" "\<not> rt_complete demo_r1" "rt_hello demo_r1 = demo_hello"
  by (simp_all add: demo_r1_def demo_r0_def DialWithSplitRetry_def write_provisional_def
      tcp_write_def tcp_new_def demo_hello_def)

lemma demo_settle: "settle 0 ([], Some (ENet False)) (Inr (tcp_new [])) demo_r1 = Retried"
  using splitHello_healthy [OF demo_hello_facts(4,1), of 0]
  by (simp add: settle_def demo_r1_facts)

lemma demo_reach: "rreach demo_s2"
proof -
  have 0: "rreach (rinit demo_r0)"
    using rreach.start [OF demo_dial demo_fresh] .
  have 1: "rreach ((rinit demo_r0)\<lparr>s_w := WLock demo_hello\<rparr>)"
    by (rule rreach.step [OF 0], rule rstep.write_check)
      (simp_all add: rinit_def demo_r1_facts)
  have 2: "rreach ((rinit demo_r0)\<lparr>s_r := demo_r1, s_acc := demo_hello\<rparr>)"
    using rreach.step [OF 1 rstep.write_locked [of _ demo_hello 20 demo_r1 12 None]]
    by (simp add: rinit_def demo_r1_facts) (simp add: demo_hello_def)
  have "rreach (((rinit demo_r0)\<lparr>s_r := demo_r1, s_acc := demo_hello\<rparr>)
      \<lparr>s_r := demo_r2, s_mode := Retried\<rparr>)"
    using rreach.step [OF 2 rstep.read_first [of "([], Some (ENet False))" _ "Inr (tcp_new [])" 0 "([1], None)"]]
    by (simp add: rinit_def demo_r1_facts demo_fresh demo_settle demo_r2_def [symmetric])
  then show ?thesis by (simp add: rinit_def demo_s2_def)
qed

text \<open>
  C1. In every reachable state of a split-retry connection whose retry has not failed, the socket in
  use carries exactly the bytes accepted from the caller, or a stream with the same TLS record
  contents: no interleaving of the reader, the writer and the closers loses, repeats or reorders a
  byte, across a retry and across a write that failed half-way on the provisional socket.
\<close>

theorem retrier_transparent:
  assumes "rreach s" and "s_mode s \<noteq> Failed"
  shows "tcp_stream (rt_conn (s_r s)) = s_acc s
    \<or> (\<forall>rest. tls_content (tcp_stream (rt_conn (s_r s)) @ rest) = tls_content (s_acc s @ rest))"
  using rinv_transparent [OF rreach_rinv [OF assms(1)] assms(2)] .

theorem retrier_transparent_witness:
  "rreach demo_s2 \<and> s_mode demo_s2 \<noteq> Failed \<and> s_acc demo_s2 = demo_hello
   \<and> (tcp_stream (rt_conn (s_r demo_s2)) = s_acc demo_s2
      \<or> (\<forall>rest. tls_content (tcp_stream (rt_conn (s_r demo_s2)) @ rest) = tls_content (s_acc demo_s2 @ rest)))"
proof -
  have "s_mode demo_s2 \<noteq> Failed" "s_acc demo_s2 = demo_hello" by (simp_all add: demo_s2_def)
  with retrier_transparent [OF demo_reach this(1)] demo_reach show ?thesis by blast
qed

text \<open>
  C24. A \<open>CloseRead\<close> or \<open>CloseWrite\<close> is never lost to a retry: in every reachable state whose retry has
  not failed, a close call that has finished is in force on the socket in use, whether it came
  before the retry, during it or after it. The one exception is a socket whose \<open>shutdown\<close> fails, from its dial on or since
  its peer has reset it: \<open>retry\<close> ignores that error, so that there the half stays open.
\<close>

theorem retrier_close_propagates:
  assumes "rreach s" and "s_mode s \<noteq> Failed"
  shows "(rt_readClose (s_r s) \<and> \<not> s_cr s \<longrightarrow> c_rclosed (rt_conn (s_r s)) \<or> c_shut (rt_conn (s_r s)) \<noteq> None)
    \<and> (rt_writeClose (s_r s) \<and> \<not> s_cw s \<longrightarrow> c_wclosed (rt_conn (s_r s)) \<or> c_shut (rt_conn (s_r s)) \<noteq> None)"
  using rreach_rinv [OF assms(1)] assms(2) by (simp add: rinv_def close_inv_def)

definition demo_s3 :: rsys where
  "demo_s3 = demo_s2\<lparr>s_r := fst (closeRead_locked (closeRead_store demo_r2))\<rparr>"

lemma demo_reach3: "rreach demo_s3"
proof -
  have 1: "rreach (demo_s2\<lparr>s_r := closeRead_store demo_r2, s_cr := True\<rparr>)"
    using rreach.step [OF demo_reach rstep.close_read_store] by (simp add: demo_s2_def)
  show ?thesis
    using rreach.step [OF 1 rstep.close_read_lock] by (simp add: demo_s3_def demo_s2_def)
qed

lemma demo_shut: "c_shut (rt_conn (s_r demo_s3)) = None"
proof -
  obtain c1 out where sh: "splitHello tcp_write 0 demo_hello (tcp_new []) = (c1, out)"
    by (cases "splitHello tcp_write 0 demo_hello (tcp_new [])")
  have "so_err out = None" using demo_settle sh by (simp add: settle_def demo_r1_facts split: if_splits)
  moreover have "c_shut c1 = None" using splitHello_frame(1) [OF sh] by (simp add: tcp_new_def)
  moreover have "\<not> rt_readClose demo_r1" "\<not> rt_writeClose demo_r1"
    by (simp_all add: demo_r1_def demo_r0_def DialWithSplitRetry_def write_provisional_def split: prod.splits)
  ultimately show ?thesis
    using sh demo_r1_facts
    by (simp add: demo_s3_def demo_s2_def demo_r2_def closeRead_locked_def closeRead_store_def retrier_Read_def retry_def
        flag_defs Let_def tcp_op_defs split: prod.splits)
qed

theorem retrier_close_propagates_witness:
  "rreach demo_s3 \<and> rt_readClose (s_r demo_s3) \<and> c_rclosed (rt_conn (s_r demo_s3))"
proof -
  have m: "s_mode demo_s3 \<noteq> Failed" and "rt_readClose (s_r demo_s3)" "\<not> s_cr demo_s3"
    by (simp_all add: demo_s3_def demo_s2_def closeRead_locked_def closeRead_store_def
        split: prod.splits)
  with retrier_close_propagates [OF demo_reach3 m] demo_reach3 demo_shut show ?thesis by blast
qed

text \<open>
  C23. A connection is retried at most once, and no socket is abandoned open: in every reachable
  state at most one socket has been given up, none before the connection is settled or when data
  came, every one of them is closed, and a settled connection keeps no copy of the hello.
\<close>

theorem retrier_retries_once:
  assumes "rreach s"
  shows "length (rt_retired (s_r s)) \<le> 1
    \<and> (s_mode s = Provisional \<or> s_mode s = Direct \<longrightarrow> rt_retired (s_r s) = [])
    \<and> (\<forall>c\<in>set (rt_retired (s_r s)). c_closed c)
    \<and> (rt_complete (s_r s) \<longrightarrow> rt_hello (s_r s) = [])"
  using rreach_rinv [OF assms] complete_iff_mode [OF rreach_rinv [OF assms]]
  by (cases "s_mode s") (auto simp: rinv_defs)

theorem retrier_retries_once_witness:
  "rreach demo_s2 \<and> length (rt_retired (s_r demo_s2)) \<le> 1
    \<and> list_all c_closed (rt_retired (s_r demo_s2))"
  using retrier_retries_once [OF demo_reach] demo_reach by (simp add: list_all_iff)

text \<open>
  A read deadline the caller sets before the connection is settled is stored and then never
  enforced: the first read result (data, or a retry that succeeds) leaves the socket in use with no
  read deadline, although the stored deadline is still the caller's; the write deadline is
  re-applied by a retry.
\<close>

theorem retrier_read_deadline_lost:
  assumes "\<not> rt_complete r" and "\<not> c_closed (rt_conn r)" and "rd1 \<noteq> ([], None)"
    and "\<And>c. dial = Inr c \<Longrightarrow> fresh_conn c" and "settle rnd rd1 dial r \<noteq> Failed"
  shows "rt_readDeadline (fst (retrier_Read rnd rd1 dial rd2 (fst (retrier_SetReadDeadline t r)))) = t
    \<and> c_rdeadline (rt_conn (fst (retrier_Read rnd rd1 dial rd2 (fst (retrier_SetReadDeadline t r))))) = 0"
proof -
  define r1 where "r1 = r\<lparr>rt_readDeadline := t\<rparr>"
  have r1: "fst (retrier_SetReadDeadline t r) = r1"
    using assms(1) by (simp add: retrier_SetReadDeadline_def retryCompleted_def r1_def Let_def)
  have c: "\<not> rt_complete r1" "\<not> c_closed (rt_conn r1)" "settle rnd rd1 dial r1 = settle rnd rd1 dial r"
    using assms(1,2) by (simp_all add: r1_def settle_def split: sum.splits)
  obtain d e where rd1: "rd1 = (d, e)" by (cases rd1)
  show ?thesis
  proof (cases e)
    case None
    with rd1 assms(3) have "d \<noteq> []" by simp
    from read_first_direct [OF c(1) rd1 [unfolded None] this] c(2)
    show ?thesis unfolding r1 by (simp add: r1_def tcp_op_frame)
  next
    case (Some err)
    with assms(5) rd1 obtain c' where c': "dial = Inr c'"
      "so_err (snd (splitHello tcp_write rnd (rt_hello r1) c')) = None"
      by (auto simp: settle_def r1_def split: sum.splits if_splits)
    from read_first_retried(11,12) [OF c(1) rd1 [unfolded Some] c'(1) assms(4) [OF c'(1)] c'(2) refl]
    show ?thesis unfolding r1 by (simp add: r1_def)
  qed
qed

theorem retrier_read_deadline_lost_witness:
  "rt_readDeadline (fst (retrier_Read 0 ([], Some (ENet False)) (Inr (tcp_new [])) ([1], None)
      (fst (retrier_SetReadDeadline 99 demo_r1)))) = 99
   \<and> c_rdeadline (rt_conn (fst (retrier_Read 0 ([], Some (ENet False)) (Inr (tcp_new [])) ([1], None)
      (fst (retrier_SetReadDeadline 99 demo_r1))))) = 0"
proof (rule retrier_read_deadline_lost)
  show "\<not> c_closed (rt_conn demo_r1)"
    by (simp add: demo_r1_def demo_r0_def DialWithSplitRetry_def write_provisional_def
        tcp_write_def tcp_new_def)
qed (use demo_r1_facts demo_settle demo_fresh in auto)

lemma read_from_loop_open:
  "\<not> rt_complete r \<Longrightarrow> tcp_healthy (rt_conn r) \<Longrightarrow> \<forall>b\<in>set bs. length b \<le> 2048 \<Longrightarrow>
    \<exists>r'. read_from_loop now wait (\<lambda>i r. r) i r (map (\<lambda>b. (b, None)) bs) k
        = (r', k + length (concat bs), Some EEOF)
      \<and> rt_hello r' = rt_hello r @ concat bs
      \<and> tcp_stream (rt_conn r') = tcp_stream (rt_conn r) @ concat bs"
proof (induction bs arbitrary: i r k)
  case Nil
  then show ?case
    by (simp add: read_from_loop.simps [of now wait "\<lambda>i r. r" i r] retryCompleted_def
        copyOnce_def src_read_def)
next
  case (Cons b bs)
  define r1 where "r1 = fst (write_provisional now r b)"
  have w: "write_provisional now r b = (r1, length b, None)"
    and r1: "\<not> rt_complete r1" "tcp_healthy (rt_conn r1)" "rt_hello r1 = rt_hello r @ b"
      "tcp_stream (rt_conn r1) = tcp_stream (rt_conn r) @ b"
    using Cons.prems(1) tcp_write_healthy [OF Cons.prems(2)] Cons.prems(2)
    by (auto simp: r1_def write_provisional_def Let_def tcp_op_defs tcp_healthy_def tcp_stream_def)
  have once: "copyOnce (retrier_Write now wait) r ((b, None) # rest) = (r1, rest, length b, None)" for rest
    using Cons.prems(1,3) w
    by (simp add: copyOnce_def src_read_def retrier_Write_def retryCompleted_def)
  from Cons.IH [OF r1(1,2), of "Suc i" "k + length b"] Cons.prems(3)
  show ?case
    using Cons.prems(1) r1(3,4)
    by (auto simp: read_from_loop.simps [of now wait "\<lambda>i r. r" i r] retryCompleted_def once)
qed

text \<open>
  \<open>ReadFrom\<close> passes the end of its source on as an error as long as no reply has come: it
  forwards and counts every byte of the source, and then returns \<open>io.EOF\<close>, which \<open>io.ReaderFrom\<close>
  and \<open>io.Copy\<close> do not count as an error.
\<close>

theorem retrier_ReadFrom_eof:
  assumes "\<not> rt_complete r" and "tcp_healthy (rt_conn r)" and "\<forall>b\<in>set bs. length b \<le> 2048"
  shows "\<exists>r'. retrier_ReadFrom now wait (\<lambda>i r. r) r (map (\<lambda>b. (b, None)) bs)
        = (r', length (concat bs), Some EEOF)
      \<and> tcp_stream (rt_conn r') = tcp_stream (rt_conn r) @ concat bs"
  using read_from_loop_open [of r bs now wait 0 0] assms
  by (auto simp: retrier_ReadFrom_def)

theorem retrier_ReadFrom_eof_witness:
  "\<exists>r'. retrier_ReadFrom 20 id (\<lambda>i r. r) demo_r0 (map (\<lambda>b. (b, None)) [demo_hello, [1]])
      = (r', length (concat [demo_hello, [1]]), Some EEOF)
    \<and> tcp_stream (rt_conn r') = tcp_stream (rt_conn demo_r0) @ concat [demo_hello, [1]]"
proof (rule retrier_ReadFrom_eof)
  show "tcp_healthy (rt_conn demo_r0)"
    using demo_hello_facts(4) by (simp add: demo_r0_def DialWithSplitRetry_def)
qed (simp_all add: demo_r1_facts demo_hello_def)

text \<open>
  \<open>Close\<close> shuts down the two directions and never closes the socket itself; when shutting down
  the write side fails, the read side is not touched and its flag stays open.
\<close>

theorem retrier_Close_effect:
  "c_closed (rt_conn (fst (retrier_Close r))) = c_closed (rt_conn r)
   \<and> (snd (tcp_CloseWrite (rt_conn r)) \<noteq> None \<longrightarrow>
        snd (retrier_Close r) = snd (tcp_CloseWrite (rt_conn r))
        \<and> rt_readClose (fst (retrier_Close r)) = rt_readClose r
        \<and> c_rclosed (rt_conn (fst (retrier_Close r))) = c_rclosed (rt_conn r))
   \<and> (snd (tcp_CloseWrite (rt_conn r)) = None \<longrightarrow>
        rt_readClose (fst (retrier_Close r)) \<and> rt_writeClose (fst (retrier_Close r))
        \<and> c_wclosed (rt_conn (fst (retrier_Close r))))"
  by (auto simp: retrier_Close_def retrier_CloseWrite_def retrier_CloseRead_def
      closeRead_locked_def closeWrite_locked_def closeRead_store_def closeWrite_store_def
      tcp_op_defs split: prod.splits option.splits if_splits)

theorem retrier_Close_effect_witness:
  "snd (tcp_CloseWrite (rt_conn demo_r0)) = None \<and> rt_readClose (fst (retrier_Close demo_r0))
   \<and> c_closed (rt_conn (fst (retrier_Close demo_r0))) = False"
proof -
  have "snd (tcp_CloseWrite (rt_conn demo_r0)) = None" "c_closed (rt_conn demo_r0) = False"
    by (simp_all add: demo_r0_def DialWithSplitRetry_def tcp_CloseWrite_def tcp_new_def)
  with retrier_Close_effect [of demo_r0] show ?thesis by simp
qed

end
