(* ===== verification/RetrierRuns.thy ===== *)
theory RetrierRuns
  imports Retrier
begin

section \<open>The methods of the split-retry connection as runs of its threads\<close>

text \<open>
  \<open>Retrier\<close> has \<open>Write\<close> and \<open>ReadFrom\<close> as functions, with what the other threads do meanwhile as an argument, and
  the atomic steps of all threads as a relation. Here the functions are shown to be runs of that relation, so that
  what holds in every reachable state holds of them.
\<close>

subsection \<open>Other threads\<close>

text \<open>
  What other threads may do while a writer waits: any steps that leave the writer alone. The wait for
  \<open>retryCompleteFlag\<close> ends when they have closed it.
\<close>

definition env_steps :: "(retrier \<Rightarrow> retrier) \<Rightarrow> bool" where
  "env_steps f \<longleftrightarrow> (\<forall>s. rreach s \<longrightarrow>
     (\<exists>t. rstep\<^sup>*\<^sup>* s t \<and> s_r t = f (s_r s) \<and> s_w t = s_w s \<and> s_acc t = s_acc s))"

definition env_settles :: "(retrier \<Rightarrow> retrier) \<Rightarrow> bool" where
  "env_settles f \<longleftrightarrow> env_steps f \<and> (\<forall>r. rt_complete (f r))"

lemma env_stepsE:
  assumes "env_steps f" and "rreach s"
  obtains t where "rstep\<^sup>*\<^sup>* s t" "s_r t = f (s_r s)" "s_w t = s_w s" "s_acc t = s_acc s"
  using assms by (auto simp: env_steps_def)

lemma env_steps_id: "env_steps (\<lambda>r. r)"
  by (auto simp: env_steps_def)

lemma rreach_run: "rstep\<^sup>*\<^sup>* s t \<Longrightarrow> rreach s \<Longrightarrow> rreach t"
  by (induction rule: rtranclp_induct) (auto intro: rreach.step)

text \<open>A reader whose first read gives data or an error is such a thread, and settles the connection.\<close>

lemma retrier_Read_completes: "rd1 \<noteq> ([], None) \<Longrightarrow> rt_complete (fst (retrier_Read rnd rd1 dial rd2 r))"
  by (cases rd1) (auto simp: retrier_Read_def retryCompleted_def split: prod.splits option.splits)

lemma env_settles_read:
  assumes "rd1 \<noteq> ([], None)" and "\<And>c. dial = Inr c \<Longrightarrow> fresh_conn c"
  shows "env_settles (\<lambda>r. fst (retrier_Read rnd rd1 dial rd2 r))"
proof -
  have "\<exists>t. rstep\<^sup>*\<^sup>* s t \<and> s_r t = fst (retrier_Read rnd rd1 dial rd2 (s_r s)) \<and> s_w t = s_w s \<and> s_acc t = s_acc s" for s
  proof (cases "rt_complete (s_r s)")
    case True
    from read_settled [OF assms(1) this] show ?thesis by (intro exI conjI, rule r_into_rtranclp) simp_all
  next
    case False
    from read_first [OF assms(1) this assms(2)] show ?thesis by (intro exI conjI, rule r_into_rtranclp) simp_all
  qed
  then show ?thesis using retrier_Read_completes [OF assms(1)] by (simp add: env_settles_def env_steps_def)
qed

subsection \<open>Write\<close>

text \<open>From \<open>s\<close> a writer got \<open>b\<close> accepted and is idle again, with the retrier \<open>r\<close>.\<close>

definition wrote :: "rsys \<Rightarrow> bytes \<Rightarrow> retrier \<Rightarrow> bool" where
  "wrote s b r \<longleftrightarrow> (\<exists>t. rstep\<^sup>*\<^sup>* s t \<and> s_r t = r \<and> s_w t = WIdle \<and> s_acc t = s_acc s @ b)"

lemma wrote_refl: "s_w s = WIdle \<Longrightarrow> wrote s [] (s_r s)"
  by (auto simp: wrote_def)

lemma wrote_trans:
  assumes "rstep\<^sup>*\<^sup>* s t" and "s_acc t = s_acc s @ a" and "wrote t b r"
  shows "wrote s (a @ b) r"
  using assms by (auto simp: wrote_def intro: rtranclp_trans)

lemma tcp_write_count: "tcp_write c b = (c', n, e) \<Longrightarrow> n \<le> length b \<and> (e = None \<longrightarrow> n = length b)"
  using tcp.write_le tcp.write_full by blast

lemma wrote_direct:
  assumes "s_w s = WIdle" and "rt_complete (s_r s)" and "write_direct (s_r s) b = (r, n, e)"
  shows "wrote s (take n b) r"
  unfolding wrote_def
  by (rule exI, intro conjI, rule r_into_rtranclp, rule write_fast [OF _ assms(2,3)]) (use assms(1) in simp_all)

lemma Write_steps:
  assumes "rreach s" and "s_w s = WIdle" and "env_settles wait" and "retrier_Write now wait (s_r s) b = (r, m, e)"
  shows "wrote s (take m b) r \<and> m \<le> length b \<and> (e = None \<longrightarrow> m = length b)"
proof (cases "rt_complete (s_r s)")
  case True
  then have w: "write_direct (s_r s) b = (r, m, e)"
    using assms(4) by (simp add: retrier_Write_def retryCompleted_def)
  show ?thesis
    using wrote_direct [OF assms(2) True w] w tcp_write_count
    by (fastforce simp: write_direct_def split: prod.splits)
next
  case False
  obtain r1 n e1 where p: "write_provisional now (s_r s) b = (r1, n, e1)" by (metis prod_cases3)
  then have n: "n \<le> length b" "e1 = None \<Longrightarrow> n = length b"
    using tcp_write_count by (fastforce simp: write_provisional_def Let_def split: prod.splits)+
  let ?t = "s\<lparr>s_r := r1, s_w := (case e1 of None \<Rightarrow> WIdle | Some err \<Rightarrow> WWait b n err), s_acc := s_acc s @ take n b\<rparr>"
  have "rstep s (s\<lparr>s_w := WLock b\<rparr>)" by (rule write_check [OF assms(2) False])
  moreover have "rstep (s\<lparr>s_w := WLock b\<rparr>) ?t"
    using write_locked [of "s\<lparr>s_w := WLock b\<rparr>" b now r1 n e1] False p by simp
  ultimately have t: "rstep\<^sup>*\<^sup>* s ?t" by (rule converse_rtranclp_into_rtranclp [OF _ r_into_rtranclp])
  show ?thesis
  proof (cases e1)
    case None
    then have "r = r1 \<and> m = n \<and> e = None" using assms(4) p False by (simp add: retrier_Write_def retryCompleted_def)
    then show ?thesis using t n None unfolding wrote_def by fastforce
  next
    case (Some err)
    then have w: "write_rest (wait r1) b n err = (r, m, e)"
      using assms(4) p False by (simp add: retrier_Write_def retryCompleted_def)
    have "env_steps wait" "rreach ?t" using assms(3) rreach_run [OF t assms(1)] by (simp_all add: env_settles_def)
    then obtain u where u: "rstep\<^sup>*\<^sup>* ?t u" "s_r u = wait r1" "s_w u = WWait b n err" "s_acc u = s_acc s @ take n b"
      by (rule env_stepsE) (use Some in auto)
    have m: "n \<le> m \<and> m \<le> length b \<and> (e = None \<longrightarrow> m = length b)"
      using w n(1) tcp_write_count by (fastforce simp: write_rest_def Let_def split: prod.splits if_splits)
    have "take (m - n) (drop n b) = drop n (take m b)" by (simp add: drop_take)
    then have "take n b @ take (m - n) (drop n b) = take m b" using m by (metis append_take_drop_id min.absorb1 take_take)
    moreover have "rstep u (u\<lparr>s_r := r, s_w := WIdle, s_acc := s_acc u @ take (m - n) (drop n b)\<rparr>)"
      by (rule write_after [OF u(3)]) (use assms(3) w u(2) in \<open>simp_all add: env_settles_def\<close>)
    ultimately have "wrote s (take m b) r"
      using t u unfolding wrote_def
      by (intro exI [of _ "u\<lparr>s_r := r, s_w := WIdle, s_acc := s_acc u @ take (m - n) (drop n b)\<rparr>"])
        (auto intro: rtranclp_trans rtranclp.rtrancl_into_rtrancl)
    then show ?thesis using m by blast
  qed
qed

subsection \<open>ReadFrom\<close>

text \<open>From \<open>s\<close> the writer got the first \<open>n\<close> bytes of a source accepted.\<close>

definition copied :: "rsys \<Rightarrow> source \<Rightarrow> nat \<Rightarrow> retrier \<Rightarrow> bool" where
  "copied s src n r \<longleftrightarrow> n \<le> length (src_data src) \<and> wrote s (take n (src_data src)) r"

lemma copied_none: "s_w s = WIdle \<Longrightarrow> copied s src 0 (s_r s)"
  by (simp add: copied_def wrote_refl)

lemma copied_part:
  assumes "src_data src = d @ rest" and "m \<le> length d" and "wrote s (take m d) r"
  shows "copied s src m r"
  using assms by (simp add: copied_def)

lemma copied_more:
  assumes "src_data src = d @ src_data src'" and "rstep\<^sup>*\<^sup>* s t" and "s_acc t = s_acc s @ d" and "copied t src' n r"
  shows "copied s src (length d + n) r"
  using assms wrote_trans [OF assms(2,3)] by (simp add: copied_def)

lemma wroteE:
  assumes "wrote s b r"
  obtains t where "rstep\<^sup>*\<^sup>* s t" "s_r t = r" "s_w t = WIdle" "s_acc t = s_acc s @ b"
  using assms by (auto simp: wrote_def)

lemma copy_loop_tcp:
  "copy_loop tcp_write c src k =
     (case src_read 32768 src of (d, er, src') \<Rightarrow>
        if d \<noteq> [] then
          (case tcp_write c d of (c', n, ew) \<Rightarrow>
             if ew \<noteq> None then (c', k + n, ew)
             else case er of
                 Some e \<Rightarrow> (c', k + n, if e = EEOF then None else Some e)
               | None \<Rightarrow> copy_loop tcp_write c' src' (k + n))
        else case er of
            Some e \<Rightarrow> (c, k, if e = EEOF then None else Some e)
          | None \<Rightarrow> copy_loop tcp_write c src' k)"
proof -
  obtain d er src' where rd: "src_read 32768 src = (d, er, src')" by (metis prod_cases3)
  obtain c' n ew where w: "tcp_write c d = (c', n, ew)" by (metis prod_cases3)
  from tcp_write_count [OF w] show ?thesis
    unfolding copy_loop.simps [of tcp_write c src k] rd by (auto simp: w Let_def split: option.splits)
qed

text \<open>The last part of \<open>ReadFrom\<close>, on the settled connection: writes past the mutex, to the socket in use.\<close>

lemma direct_copy_steps:
  assumes "f = tcp_write" and "c = rt_conn (s_r s)" and "rt_complete (s_r s)" and "s_w s = WIdle"
    and "copy_loop f c src k = (c', n, e)"
  shows "k \<le> n \<and> copied s src (n - k) ((s_r s)\<lparr>rt_conn := c'\<rparr>)"
  using assms
proof (induction f c src k arbitrary: s rule: copy_loop.induct)
  case (1 f c src k)
  obtain d er src' where rd: "src_read 32768 src = (d, er, src')" by (metis prod_cases3)
  note data = src_read_data [OF rd]
  note loop = "1.prems"(5) [unfolded "1.prems"(1) copy_loop_tcp [of c src k] rd]
  show ?case
  proof (cases "d = []")
    case True
    show ?thesis
    proof (cases er)
      case (Some x)
      then show ?thesis using loop True "1.prems"(2,4) copied_none [of s src] by auto
    next
      case None
      then have "copy_loop f c src' k = (c', n, e)" using loop True "1.prems"(1) by simp
      from "1.IH"(2) [OF rd [symmetric] refl _ None "1.prems"(1-4) this] show ?thesis
        using True None data by (simp add: copied_def)
    qed
  next
    case False
    obtain c1 m ew where w: "tcp_write c d = (c1, m, ew)" by (metis prod_cases3)
    have direct: "write_direct (s_r s) d = ((s_r s)\<lparr>rt_conn := c1\<rparr>, m, ew)"
      using w "1.prems"(2) by (simp add: write_direct_def)
    have m: "m \<le> length d \<and> (ew = None \<longrightarrow> m = length d)" using tcp_write_count [OF w] .
    note part = wrote_direct [OF "1.prems"(4,3) direct]
    show ?thesis
    proof (cases "ew = None \<and> er = None")
      case more: True
      then have rest: "copy_loop f c1 src' (k + m) = (c', n, e)" using loop False w "1.prems"(1) by simp
      from part more m obtain t where t: "rstep\<^sup>*\<^sup>* s t" "s_r t = (s_r s)\<lparr>rt_conn := c1\<rparr>" "s_w t = WIdle"
          "s_acc t = s_acc s @ d" by (elim wroteE) simp
      have "k + m \<le> n \<and> copied t src' (n - (k + m)) ((s_r t)\<lparr>rt_conn := c'\<rparr>)"
        by (rule "1.IH"(1) [OF rd [symmetric] refl False w [symmetric, folded "1.prems"(1)]])
          (use more m rest t(2,3) "1.prems"(1,3) w in \<open>auto\<close>)
      then show ?thesis
        using copied_more [OF _ t(1,4)] data more m t(2) by fastforce
    next
      case False
      then have "n = k + m \<and> c' = c1" using loop \<open>d \<noteq> []\<close> w by (auto split: option.splits if_splits)
      then show ?thesis
        using copied_part [OF data _ part] m by simp
    qed
  qed
qed

lemma ReadFrom_steps:
  assumes "rreach s" and "s_w s = WIdle" and "s_r s = r" and "env_settles wait" and "\<forall>i. env_steps (other i)"
    and "read_from_loop now wait other i r src k = (r', n, e)"
  shows "k \<le> n \<and> copied s src (n - k) r'"
  using assms
proof (induction now wait other i r src k arbitrary: s rule: read_from_loop.induct)
  case (1 now wait other i r src k)
  let ?r0 = "other i r"
  obtain t where t: "rstep\<^sup>*\<^sup>* s t" "s_r t = ?r0" "s_w t = WIdle" "s_acc t = s_acc s"
    using env_stepsE [OF spec [OF "1.prems"(5)] "1.prems"(1), of i] "1.prems"(2,3) by metis
  note reach = rreach_run [OF t(1) "1.prems"(1)]
  have stay: "copied s src m x" if "copied t src m x" for m x
    using that wrote_trans [OF t(1), of "[]"] t(4) by (simp add: copied_def)
  note loop = "1.prems"(6) [unfolded read_from_loop.simps [of now wait other i r src k], folded t(2)]
  show ?case
  proof (cases "retryCompleted (s_r t)")
    case True
    obtain c' m e' where c: "copy_loop tcp_write (rt_conn (s_r t)) src 0 = (c', m, e')" by (metis prod_cases3)
    have "r' = (s_r t)\<lparr>rt_conn := c'\<rparr> \<and> n = k + m"
      using loop True c by (simp add: Let_def tcp_ReadFrom_def io_Copy_def)
    moreover have "copied t src m ((s_r t)\<lparr>rt_conn := c'\<rparr>)"
      using direct_copy_steps [OF refl refl _ t(3) c] True by (simp add: retryCompleted_def)
    ultimately show ?thesis using stay by simp
  next
    case False
    obtain d er src' where rd: "src_read 2048 src = (d, er, src')" by (metis prod_cases3)
    note data = src_read_data [OF rd]
    show ?thesis
    proof (cases er)
      case (Some x)
      then show ?thesis using loop False rd stay copied_none [OF t(3), of src] by (simp add: Let_def copyOnce_def)
    next
      case None
      obtain r1 m e1 where w: "retrier_Write now wait (s_r t) d = (r1, m, e1)" by (metis prod_cases3)
      then have once: "copyOnce (retrier_Write now wait) (s_r t) src = (r1, src', m, e1)"
        using rd None by (simp add: copyOnce_def)
      note wr = Write_steps [OF reach t(3) "1.prems"(4) w]
      show ?thesis
      proof (cases e1)
        case (Some x)
        then have "r' = r1 \<and> n = k + m" using loop False once by (simp add: Let_def)
        then show ?thesis using stay copied_part [OF data _ ] wr by simp
      next
        case None
        then have rest: "read_from_loop now wait other (Suc i) r1 src' (k + m) = (r', n, e)"
          using loop False once by (simp add: Let_def)
        from wr None have m: "m = length d" "wrote t d r1" by auto
        then obtain u where u: "rstep\<^sup>*\<^sup>* t u" "s_r u = r1" "s_w u = WIdle" "s_acc u = s_acc t @ d" by (elim wroteE)
        have "k + m \<le> n \<and> copied u src' (n - (k + m)) r'"
          by (rule "1.IH" [OF t(2) _ once [symmetric] _ refl _ rreach_run [OF u(1) reach] u(3,2) "1.prems"(4,5) rest])
            (use False None t(2) in auto)
        then show ?thesis using stay copied_more [OF _ u(1,4)] data \<open>er = None\<close> m(1) by fastforce
      qed
    qed
  qed
qed

end
