(* ===== verification/Go_Net.thy ===== *)
theory Go_Net
  imports Go_Prelude
begin

section \<open>Addresses and strings of the Go standard library\<close>

text \<open>
  What the code uses of \<open>net\<close>, \<open>net/netip\<close>, \<open>strings\<close> and \<open>strconv\<close>, as functions that compute:
  \<open>net.IP\<close> with \<open>To4\<close> and \<open>Equal\<close>, \<open>net.ParseIP\<close>, \<open>net.SplitHostPort\<close> and \<open>net.JoinHostPort\<close>,
  \<open>strings.Split\<close> for a one-character separator, \<open>strconv.Atoi\<close>. Strings are lists of bytes
  (\<open>char\<close>), as in Go.
\<close>

subsection \<open>strings.Split, strconv.Atoi\<close>

fun split_on :: "char \<Rightarrow> string \<Rightarrow> string list" where
  "split_on c [] = [[]]"
| "split_on c (x # xs) =
     (if x = c then [] # split_on c xs
      else (case split_on c xs of [] \<Rightarrow> [[x]] | y # ys \<Rightarrow> (x # y) # ys))"

fun join_with :: "char \<Rightarrow> string list \<Rightarrow> string" where
  "join_with c [] = []"
| "join_with c [x] = x"
| "join_with c (x # y # ys) = x @ c # join_with c (y # ys)"

lemma split_on_nonempty [simp]: "split_on c s \<noteq> []"
  by (induction s) (auto split: list.splits)

lemma join_with_Cons: "join_with c ((a # x) # xs) = a # join_with c (x # xs)"
  by (cases xs) auto

lemma join_split_on: "join_with c (split_on c s) = s"
  by (induction s) (auto split: list.splits simp: neq_Nil_conv join_with_Cons)

lemma split_on_no_sep: "c \<notin> set s \<Longrightarrow> split_on c s = [s]"
  by (induction s) auto

lemma split_on_append: "c \<notin> set x \<Longrightarrow> split_on c (x @ c # s) = x # split_on c s"
  by (induction x) auto

lemma split_on_join:
  "xs \<noteq> [] \<Longrightarrow> \<forall>x\<in>set xs. c \<notin> set x \<Longrightarrow> split_on c (join_with c xs) = xs"
  by (induction c xs rule: join_with.induct) (auto simp: split_on_no_sep split_on_append)

definition digit_val :: "char \<Rightarrow> nat option" where
  "digit_val c = (if 48 \<le> (of_char c :: nat) \<and> (of_char c :: nat) \<le> 57
     then Some (of_char c - 48) else None)"

fun digits_val :: "nat \<Rightarrow> string \<Rightarrow> nat option" where
  "digits_val acc [] = Some acc"
| "digits_val acc (c # cs) =
     (case digit_val c of None \<Rightarrow> None | Some d \<Rightarrow> digits_val (10 * acc + d) cs)"

text \<open>\<open>strconv.Atoi\<close>: an optional sign, at least one decimal digit, the range of a 64-bit int.\<close>

definition Atoi :: "string \<Rightarrow> goerr + int" where
  "Atoi s =
     (let neg = (s \<noteq> [] \<and> hd s = CHR ''-'');
          ds = (if s \<noteq> [] \<and> (hd s = CHR ''-'' \<or> hd s = CHR ''+'') then tl s else s)
      in if ds = [] then Inl (EMsg ''invalid syntax'')
         else case digits_val 0 ds of
             None \<Rightarrow> Inl (EMsg ''invalid syntax'')
           | Some n \<Rightarrow> (let v = (if neg then - int n else int n) in
               if v < - (2 ^ 63) \<or> 2 ^ 63 \<le> v then Inl (EMsg ''value out of range'') else Inr v))"

subsection \<open>net.IP\<close>

definition v4InV6Prefix :: bytes where
  "v4InV6Prefix = [0, 0, 0, 0, 0, 0, 0, 0, 0, 0, 255, 255]"

definition To4 :: "ip \<Rightarrow> ip option" where
  "To4 ip =
     (if length ip = 4 then Some ip
      else if length ip = 16 \<and> take 12 ip = v4InV6Prefix then Some (drop 12 ip)
      else None)"

definition ip_Equal :: "ip \<Rightarrow> ip \<Rightarrow> bool" where
  "ip_Equal a b =
     (if length a = length b then a = b
      else if length a = 4 \<and> length b = 16 then take 12 b = v4InV6Prefix \<and> a = drop 12 b
      else if length a = 16 \<and> length b = 4 then take 12 a = v4InV6Prefix \<and> drop 12 a = b
      else False)"

text \<open>
  \<open>Equal\<close> identifies an IPv4 address with its IPv4-in-IPv6 form; \<open>ip_norm\<close> is the common form.
\<close>

definition ip_norm :: "ip \<Rightarrow> ip" where
  "ip_norm a = (if length a = 4 then v4InV6Prefix @ a else a)"

lemma ip_Equal_norm: "ip_Equal a b \<longleftrightarrow> ip_norm a = ip_norm b"
proof -
  have "take 12 b = v4InV6Prefix \<and> a = drop 12 b \<longleftrightarrow> v4InV6Prefix @ a = b" if "length b = 16" for a b :: ip
  proof -
    have "take 12 (v4InV6Prefix @ a) = v4InV6Prefix" "drop 12 (v4InV6Prefix @ a) = a"
      by (simp_all add: v4InV6Prefix_def)
    then show ?thesis by (metis append_take_drop_id)
  qed
  from this [of b a] this [of a b] show ?thesis
    by (auto simp: ip_Equal_def ip_norm_def v4InV6Prefix_def)
qed

lemma ip_Equal_refl [simp]: "ip_Equal a a" by (simp add: ip_Equal_norm)

lemma ip_Equal_nil [simp]: "ip_Equal a [] = (a = [])" "ip_Equal [] a = (a = [])"
  by (auto simp: ip_Equal_def)

definition valid_ip :: "ip \<Rightarrow> bool" where
  "valid_ip a \<longleftrightarrow> length a = 4 \<or> length a = 16"

text \<open>\<open>strconv.Itoa\<close>, and \<open>IP.String\<close>: dotted, or groups with the first longest run of zeros cut.\<close>

fun dec_str :: "nat \<Rightarrow> string" where
  "dec_str n = (if n < 10 then [char_of (48 + n)] else dec_str (n div 10) @ [char_of (48 + n mod 10)])"

declare dec_str.simps [simp del]

definition Itoa :: "int \<Rightarrow> string" where
  "Itoa i = (if i < 0 then CHR ''-'' # dec_str (nat (- i)) else dec_str (nat i))"

definition hex_digit :: "nat \<Rightarrow> char" where
  "hex_digit d = (if d < 10 then char_of (48 + d) else char_of (87 + d))"

fun hex_str :: "nat \<Rightarrow> string" where
  "hex_str n = (if n < 16 then [hex_digit n] else hex_str (n div 16) @ [hex_digit (n mod 16)])"

declare hex_str.simps [simp del]

fun groups16 :: "bytes \<Rightarrow> nat list" where
  "groups16 (a # b # r) = unat (be16 [a, b]) # groups16 r"
| "groups16 r = []"

fun zero_run :: "nat list \<Rightarrow> nat" where
  "zero_run (g # gs) = (if g = 0 then Suc (zero_run gs) else 0)"
| "zero_run [] = 0"

text \<open>The start and length of the first longest run of at least two zero groups.\<close>

fun best_run :: "nat \<Rightarrow> nat list \<Rightarrow> nat \<times> nat \<Rightarrow> nat \<times> nat" where
  "best_run i [] best = best"
| "best_run i (g # gs) best =
     (let n = zero_run (g # gs) in
      best_run (Suc i) gs (if 2 \<le> n \<and> snd best < n then (i, n) else best))"

definition v6_str :: "nat list \<Rightarrow> string" where
  "v6_str gs = (case best_run 0 gs (0, 0) of (i, n) \<Rightarrow>
     if n = 0 then join_with CHR '':'' (map hex_str gs)
     else join_with CHR '':'' (map hex_str (take i gs)) @ ''::''
       @ join_with CHR '':'' (map hex_str (drop (i + n) gs)))"

definition ip_String :: "ip \<Rightarrow> string" where
  "ip_String a =
     (if a = [] then ''<nil>''
      else case To4 a of
        Some b \<Rightarrow> join_with CHR ''.'' (map (\<lambda>x. dec_str (unat x)) b)
      | None \<Rightarrow>
          if length a = 16 then v6_str (groups16 a)
          else CHR ''?'' # concat (map (\<lambda>x. [hex_digit (unat x div 16), hex_digit (unat x mod 16)]) a))"

subsection \<open>net.ParseIP\<close>

text \<open>
  \<open>netip.ParseAddr\<close> without a zone, in its 16-byte form. \<open>v4_fields\<close> reads the four fields of a
  dotted address: the value and the number of digits of the field so far, the fields before it.
\<close>

fun v4_fields :: "nat \<Rightarrow> nat \<Rightarrow> bytes \<Rightarrow> string \<Rightarrow> bytes option" where
  "v4_fields val digLen fs [] = (if length fs < 3 then None else Some (fs @ [of_nat val]))"
| "v4_fields val digLen fs (c # cs) =
     (case digit_val c of
        Some d \<Rightarrow>
          if digLen = 1 \<and> val = 0 then None
          else if 255 < 10 * val + d then None
          else v4_fields (10 * val + d) (Suc digLen) fs cs
      | None \<Rightarrow>
          if c = CHR ''.'' then
            (if digLen = 0 \<or> cs = [] then None
             else if length fs = 3 then None
             else v4_fields 0 0 (fs @ [of_nat val]) cs)
          else None)"

definition hex_val :: "char \<Rightarrow> nat option" where
  "hex_val c = (let n = (of_char c :: nat) in
     if 48 \<le> n \<and> n \<le> 57 then Some (n - 48)
     else if 97 \<le> n \<and> n \<le> 102 then Some (n - 87)
     else if 65 \<le> n \<and> n \<le> 70 then Some (n - 55)
     else None)"

text \<open>One group of hexadecimal digits: how many, their value, the rest; \<open>None\<close> if too long.\<close>

fun hex_group :: "nat \<Rightarrow> nat \<Rightarrow> string \<Rightarrow> (nat \<times> nat \<times> string) option" where
  "hex_group off acc [] = Some (off, acc, [])"
| "hex_group off acc (c # cs) =
     (case hex_val c of
        None \<Rightarrow> Some (off, acc, c # cs)
      | Some v \<Rightarrow> if 3 < off \<or> 65535 < 16 * acc + v then None
          else hex_group (Suc off) (16 * acc + v) cs)"

text \<open>
  The loop of \<open>parseIPv6\<close>: where the ellipsis was seen, the bytes so far, the rest of the string.
  \<open>Some (e, ip)\<close> when the string is used up.
\<close>

function v6_loop :: "nat option \<Rightarrow> bytes \<Rightarrow> string \<Rightarrow> (nat option \<times> bytes) option" where
  "v6_loop ell ip s =
     (if 16 \<le> length ip then (if s = [] then Some (ell, ip) else None)
      else case hex_group 0 0 s of
        None \<Rightarrow> None
      | Some (off, acc, rest) \<Rightarrow>
          if off = 0 then None
          else if rest \<noteq> [] \<and> hd rest = CHR ''.'' then
            (if ell = None \<and> length ip \<noteq> 12 then None
             else if 16 < length ip + 4 then None
             else map_option (\<lambda>b. (ell, ip @ b)) (v4_fields 0 0 [] s))
          else let ip1 = ip @ enc16 (of_nat acc) in
            if rest = [] then Some (ell, ip1)
            else if hd rest \<noteq> CHR '':'' \<or> tl rest = [] then None
            else let s1 = tl rest in
              if hd s1 = CHR '':'' then
                (if ell \<noteq> None then None
                 else if tl s1 = [] then Some (Some (length ip1), ip1)
                 else v6_loop (Some (length ip1)) ip1 (tl s1))
              else v6_loop ell ip1 s1)"
  by pat_completeness auto
termination
  by (relation "measure (\<lambda>(ell, ip, s). 16 - length ip)") auto

declare v6_loop.simps [simp del]

definition v6_finish :: "nat option \<times> bytes \<Rightarrow> bytes option" where
  "v6_finish p = (case p of (ell, ip) \<Rightarrow>
     if length ip < 16 then
       (case ell of None \<Rightarrow> None
        | Some e \<Rightarrow> Some (take e ip @ replicate (16 - length ip) 0 @ drop e ip))
     else if ell = None then Some ip else None)"

definition parse_v6 :: "string \<Rightarrow> bytes option" where
  "parse_v6 s =
     (if take 2 s = ''::'' then
        (if drop 2 s = [] then Some (replicate 16 0)
         else Option.bind (v6_loop (Some 0) [] (drop 2 s)) v6_finish)
      else Option.bind (v6_loop None [] s) v6_finish)"

fun first_of :: "char set \<Rightarrow> string \<Rightarrow> char option" where
  "first_of cs [] = None"
| "first_of cs (x # xs) = (if x \<in> cs then Some x else first_of cs xs)"

definition ParseIP :: "string \<Rightarrow> ip option" where
  "ParseIP s =
     (if CHR ''%'' \<in> set s then None
      else case first_of {CHR ''.'', CHR '':''} s of
        None \<Rightarrow> None
      | Some c \<Rightarrow>
          if c = CHR ''.'' then map_option (\<lambda>b. v4InV6Prefix @ b) (v4_fields 0 0 [] s)
          else parse_v6 s)"

lemma ParseIP_Nil [simp]: "ParseIP [] = None"
  by (simp add: ParseIP_def)

subsection \<open>Host and port\<close>

fun index_of :: "char \<Rightarrow> string \<Rightarrow> nat option" where
  "index_of c [] = None"
| "index_of c (x # xs) = (if x = c then Some 0 else map_option Suc (index_of c xs))"

definition last_index_of :: "char \<Rightarrow> string \<Rightarrow> nat option" where
  "last_index_of c s = map_option (\<lambda>i. length s - 1 - i) (index_of c (rev s))"

definition SplitHostPort :: "string \<Rightarrow> goerr + string \<times> string" where
  "SplitHostPort hostport =
     (case last_index_of CHR '':'' hostport of
        None \<Rightarrow> Inl (EMsg ''missing port in address'')
      | Some i \<Rightarrow>
          if hd hostport = CHR ''['' then
            (case index_of CHR '']'' hostport of
               None \<Rightarrow> Inl (EMsg ''missing ']' in address'')
             | Some e \<Rightarrow>
                 if e + 1 = length hostport then Inl (EMsg ''missing port in address'')
                 else if e + 1 = i then
                   (if CHR ''['' \<in> set (drop 1 hostport) then Inl (EMsg ''unexpected '[' in address'')
                    else if CHR '']'' \<in> set (drop (e + 1) hostport)
                      then Inl (EMsg ''unexpected ']' in address'')
                    else Inr (take (e - 1) (drop 1 hostport), drop (i + 1) hostport))
                 else if hostport ! (e + 1) = CHR '':'' then Inl (EMsg ''too many colons in address'')
                 else Inl (EMsg ''missing port in address''))
          else if CHR '':'' \<in> set (take i hostport) then Inl (EMsg ''too many colons in address'')
          else if CHR ''['' \<in> set hostport then Inl (EMsg ''unexpected '[' in address'')
          else if CHR '']'' \<in> set hostport then Inl (EMsg ''unexpected ']' in address'')
          else Inr (take i hostport, drop (i + 1) hostport))"

definition JoinHostPort :: "string \<Rightarrow> string \<Rightarrow> string" where
  "JoinHostPort host port =
     (if CHR '':'' \<in> set host then ''['' @ host @ '']:'' @ port else host @ '':'' @ port)"

lemma index_of_append: "c \<notin> set x \<Longrightarrow> index_of c (x @ c # s) = Some (length x)"
  by (induction x) auto

lemma last_index_of_append: "c \<notin> set s \<Longrightarrow> last_index_of c (x @ c # s) = Some (length x)"
  by (simp add: last_index_of_def index_of_append)

text \<open>Splitting undoes joining, for a host without brackets and a port without punctuation.\<close>

lemma SplitHostPort_JoinHostPort:
  assumes "set host \<inter> {CHR ''['', CHR '']''} = {}"
    and "set port \<inter> {CHR ''['', CHR '']'', CHR '':''} = {}"
  shows "SplitHostPort (JoinHostPort host port) = Inr (host, port)"
proof (cases "CHR '':'' \<in> set host")
  case True
  have "last_index_of CHR '':'' (''['' @ host @ '']:'' @ port) = Some (length host + 2)"
    using last_index_of_append [of "CHR '':''" port "''['' @ host @ '']''"] assms by simp
  moreover have "index_of CHR '']'' (''['' @ host @ '']:'' @ port) = Some (length host + 1)"
    using index_of_append [of "CHR '']''" "''['' @ host" "CHR '':'' # port"] assms by simp
  ultimately show ?thesis
    using True assms by (auto simp: SplitHostPort_def JoinHostPort_def)
next
  case False
  have "last_index_of CHR '':'' (host @ CHR '':'' # port) = Some (length host)"
    using last_index_of_append [of "CHR '':''" port host] assms by simp
  moreover have "hd (host @ CHR '':'' # port) \<noteq> CHR ''[''"
    using assms(1) by (cases host) auto
  ultimately show ?thesis
    using False assms by (auto simp: SplitHostPort_def JoinHostPort_def)
qed

end
