(* ===== verification/Protect.thy ===== *)
theory Protect
  imports Go_Net
begin

section \<open>Protected sockets and the system resolvers (common/socket, features/platform)\<close>

text \<open>
  \<open>common/socket/protect.go\<close> and the \<open>Protector\<close> interface of \<open>features/platform/protector.go\<close>. A
  \<open>Protector\<close> is a record of its two methods; a dialer is what \<open>MakeDialer\<close> sets in it: the control
  function run on every new socket and the dial function of its DNS resolver.
\<close>

record Protector =
  pr_Protect :: "i32 \<Rightarrow> bool"
  pr_GetResolvers :: string

text \<open>
  \<open>makeControl(p)\<close>: what the control function does with a descriptor: protect it, log a failure, go
  on either way (\<open>c.Control\<close> reports no error of its own).
\<close>

datatype log_entry = LogProtectFailed string

definition makeControl :: "Protector \<Rightarrow> string \<Rightarrow> string \<Rightarrow> nat \<Rightarrow> log_entry list \<times> goerr option" where
  "makeControl p network address fd =
     (if \<not> pr_Protect p (of_nat fd) then ([LogProtectFailed network], None) else ([], None))"

fun scan :: "string list \<Rightarrow> bool \<Rightarrow> string" where
  "scan [] wantV4 = []"
| "scan (ip # ips) wantV4 =
     (case ParseIP ip of
        None \<Rightarrow> scan ips wantV4
      | Some parsed \<Rightarrow>
          let isV4 = To4 parsed \<noteq> None in
          if isV4 = wantV4 then ip else scan ips wantV4)"

definition replaceIP :: "string \<Rightarrow> string list \<Rightarrow> goerr + string" where
  "replaceIP addr ips =
     (if length ips = 0 then Inl (EMsg ''No resolvers available'')
      else case SplitHostPort addr of
        Inl err \<Rightarrow> Inl err
      | Inr (orighost, port) \<Rightarrow>
          (case ParseIP orighost of
             None \<Rightarrow> Inl (EMsg (''Can't parse resolver IP: '' @ orighost))
           | Some origip \<Rightarrow>
               let isV4 = To4 origip \<noteq> None;
                   newIP0 = scan ips isV4;
                   newIP = (if newIP0 = [] then ips ! 0 else newIP0)
               in Inr (JoinHostPort newIP port)))"

text \<open>\<open>resolverDialer\<close>, up to the address it hands to \<open>d.DialContext\<close>.\<close>

definition resolverDialer :: "Protector \<Rightarrow> string \<Rightarrow> goerr + string" where
  "resolverDialer p address = replaceIP address (split_on (CHR '','') (pr_GetResolvers p))"

record dialer =
  dl_Control :: "(string \<Rightarrow> string \<Rightarrow> nat \<Rightarrow> log_entry list \<times> goerr option) option"
  dl_Resolver :: "(string \<Rightarrow> goerr + string) option"

definition MakeDialer :: "Protector option \<Rightarrow> dialer" where
  "MakeDialer po =
     (case po of
        None \<Rightarrow> \<lparr>dl_Control = None, dl_Resolver = None\<rparr>
      | Some p \<Rightarrow> \<lparr>dl_Control = Some (makeControl p), dl_Resolver = Some (resolverDialer p)\<rparr>)"

definition MakeListenConfig :: "Protector option
    \<Rightarrow> (string \<Rightarrow> string \<Rightarrow> nat \<Rightarrow> log_entry list \<times> goerr option) option" where
  "MakeListenConfig po = map_option makeControl po"

subsection \<open>The choice of an address\<close>

text \<open>The specification: the first parseable address of the family, as a list search.\<close>

definition family_match :: "bool \<Rightarrow> string \<Rightarrow> bool" where
  "family_match wantV4 s \<longleftrightarrow> (case ParseIP s of None \<Rightarrow> False | Some a \<Rightarrow> (To4 a \<noteq> None) = wantV4)"

lemma family_match_nonempty: "family_match w s \<Longrightarrow> s \<noteq> []"
  by (auto simp: family_match_def)

lemma scan_find:
  "scan ips w = (case find (family_match w) ips of None \<Rightarrow> [] | Some s \<Rightarrow> s)"
  by (induction ips) (auto simp: family_match_def Let_def split: option.splits)

text \<open>
  \<open>replaceIP\<close> keeps the port and takes the host from the list: the first address of the list
  with the family of the original address, or the first entry when no address of the list has it.
\<close>

theorem replaceIP_choice:
  assumes "replaceIP addr ips = Inr new"
  shows "\<exists>host port orig ip. SplitHostPort addr = Inr (host, port) \<and> ParseIP host = Some orig
     \<and> new = JoinHostPort ip port \<and> ip \<in> set ips
     \<and> (case find (family_match (To4 orig \<noteq> None)) ips of
          Some s \<Rightarrow> ip = s
        | None \<Rightarrow> ip = hd ips)"
proof -
  have ne: "ips \<noteq> []" using assms by (auto simp: replaceIP_def)
  obtain host port where sp: "SplitHostPort addr = Inr (host, port)"
    using assms ne by (auto simp: replaceIP_def split: sum.splits)
  obtain orig where orig: "ParseIP host = Some orig"
    using assms ne sp by (auto simp: replaceIP_def split: option.splits)
  define w where "w = (To4 orig \<noteq> None)"
  have new: "new = JoinHostPort (if scan ips w = [] then ips ! 0 else scan ips w) port"
    using assms ne sp orig by (auto simp: replaceIP_def Let_def w_def)
  show ?thesis
  proof (cases "find (family_match w) ips")
    case None
    then have "new = JoinHostPort (hd ips) port"
      using new ne by (simp add: scan_find hd_conv_nth)
    then show ?thesis
      using sp orig None ne by (auto simp: w_def)
  next
    case (Some s)
    then have s: "s \<in> set ips" "family_match w s"
      by (auto simp: find_Some_iff)
    then have "new = JoinHostPort s port"
      using new Some family_match_nonempty [OF s(2)] by (simp add: scan_find)
    then show ?thesis
      using sp orig Some s by (auto simp: w_def)
  qed
qed

lemma ParseIP_v4_examples:
  "ParseIP ''8.8.4.4'' = Some (v4InV6Prefix @ [8, 8, 4, 4])"
  "ParseIP ''1.2.3.4'' = Some (v4InV6Prefix @ [1, 2, 3, 4])"
  by code_simp+

lemma To4_v4_examples:
  "To4 (v4InV6Prefix @ [8, 8, 4, 4]) = Some [8, 8, 4, 4]"
  "To4 (v4InV6Prefix @ [1, 2, 3, 4]) = Some [1, 2, 3, 4]"
  by (simp_all add: To4_def v4InV6Prefix_def)

lemma Split_example: "SplitHostPort ''8.8.4.4:53'' = Inr (''8.8.4.4'', ''53'')"
  using SplitHostPort_JoinHostPort [of "''8.8.4.4''" "''53''"] by (simp add: JoinHostPort_def)

lemma replaceIP_example:
  "replaceIP ''8.8.4.4:53'' [''x'', ''1.2.3.4''] = Inr (JoinHostPort ''1.2.3.4'' ''53'')"
proof -
  have "ParseIP ''x'' = None" by code_simp
  then show ?thesis
    by (simp add: replaceIP_def Split_example ParseIP_v4_examples To4_v4_examples)
qed

theorem replaceIP_choice_witness:
  "\<exists>host port orig ip. SplitHostPort ''8.8.4.4:53'' = Inr (host, port) \<and> ParseIP host = Some orig
     \<and> JoinHostPort ''1.2.3.4'' ''53'' = JoinHostPort ip port \<and> ip \<in> set [''x'', ''1.2.3.4'']
     \<and> (case find (family_match (To4 orig \<noteq> None)) [''x'', ''1.2.3.4''] of
          Some s \<Rightarrow> ip = s
        | None \<Rightarrow> ip = hd [''x'', ''1.2.3.4''])"
  by (rule replaceIP_choice [OF replaceIP_example])

text \<open>
  The error for a missing resolver cannot occur in the resolver's dial function: the list that
  \<open>strings.Split\<close> makes is never empty. With no resolvers (an empty string) the function dials the
  port with an empty host, which \<open>net\<close> takes for the local machine, for every well-formed server
  address.
\<close>

theorem resolverDialer_without_resolvers:
  assumes "pr_GetResolvers p = []" and "SplitHostPort address = Inr (host, port)"
    and "ParseIP host = Some orig"
  shows "resolverDialer p address = Inr (CHR '':'' # port)
    \<and> (\<forall>q. resolverDialer q address \<noteq> Inl (EMsg ''No resolvers available''))"
  using assms by (auto simp: resolverDialer_def replaceIP_def JoinHostPort_def Let_def)

definition no_resolvers :: Protector where
  "no_resolvers = \<lparr>pr_Protect = (\<lambda>_. True), pr_GetResolvers = []\<rparr>"

theorem resolverDialer_without_resolvers_witness:
  "resolverDialer no_resolvers ''8.8.4.4:53'' = Inr '':53''
   \<and> (\<forall>q. resolverDialer q ''8.8.4.4:53'' \<noteq> Inl (EMsg ''No resolvers available''))"
  using resolverDialer_without_resolvers [OF _ Split_example ParseIP_v4_examples(1), of no_resolvers]
  by (simp add: no_resolvers_def)

text \<open>A dialer made with a protector runs it on every descriptor, and never fails the dial.\<close>

lemma MakeDialer_control:
  "dl_Control (MakeDialer (Some p)) = Some f \<Longrightarrow>
     f network address fd
       = ((if pr_Protect p (of_nat fd) then [] else [LogProtectFailed network]), None)"
  by (auto simp: MakeDialer_def makeControl_def)

end
