(* ===== verification/IPMap.thy ===== *)
theory IPMap
  imports Go_Net
begin

section \<open>Address sets per host (proxy/doh/ipmap)\<close>

text \<open>
  \<open>proxy/doh/ipmap/ipmap.go\<close>: an \<open>IPSet\<close> is the list of known addresses and the one confirmed to work;
  an \<open>ipMap\<close> maps host names to pointers to such sets. The sets live in a heap (\<open>im_heap\<close>, a set's
  pointer is its index), so that two callers holding the same pointer see each other's updates.
  What the resolver returns for a name is an argument. The contract of a set is the locale
  \<open>ip_pool\<close>; the concurrent behaviour of \<open>Get\<close> is a step relation at the end.
\<close>

subsection \<open>IPSet\<close>

record IPSet =
  is_ips :: "ip list"
  is_confirmed :: ip

definition empty_set :: IPSet where
  "empty_set = \<lparr>is_ips = [], is_confirmed = []\<rparr>"

definition has :: "IPSet \<Rightarrow> ip \<Rightarrow> bool" where
  "has s a = list_ex (\<lambda>oldIP. ip_Equal oldIP a) (is_ips s)"

definition add :: "ip \<Rightarrow> IPSet \<Rightarrow> IPSet" where
  "add a s = (if \<not> has s a then s\<lparr>is_ips := is_ips s @ [a]\<rparr> else s)"

text \<open>\<open>Add(hostname)\<close>: \<open>resolved\<close> and \<open>err\<close> are the result of the lookup; an error is only logged.\<close>

definition Add :: "ip list \<times> goerr option \<Rightarrow> IPSet \<Rightarrow> IPSet" where
  "Add res s = (case res of (resolved, err) \<Rightarrow> fold add resolved s)"

definition Empty :: "IPSet \<Rightarrow> bool" where
  "Empty s \<longleftrightarrow> length (is_ips s) = 0"

definition swap :: "nat \<Rightarrow> nat \<Rightarrow> 'a list \<Rightarrow> 'a list" where
  "swap i j c = c[j := c ! i, i := c ! j]"

text \<open>\<open>rand.Shuffle\<close>: from the last index down, swap with a draw below or at the index.\<close>

fun shuffle_from :: "(nat \<Rightarrow> nat) \<Rightarrow> nat \<Rightarrow> 'a list \<Rightarrow> 'a list" where
  "shuffle_from draw 0 c = c"
| "shuffle_from draw (Suc i) c =
     shuffle_from draw i (swap (Suc i) (draw (Suc i) mod Suc (Suc i)) c)"

definition GetAll :: "(nat \<Rightarrow> nat) \<Rightarrow> IPSet \<Rightarrow> ip list" where
  "GetAll draw s = shuffle_from draw (length (is_ips s) - 1) (is_ips s)"

definition Confirmed :: "IPSet \<Rightarrow> ip" where
  "Confirmed s = is_confirmed s"

definition confirm_locked :: "ip \<Rightarrow> IPSet \<Rightarrow> IPSet" where
  "confirm_locked a s = (add a s)\<lparr>is_confirmed := a\<rparr>"

definition Confirm :: "ip \<Rightarrow> IPSet \<Rightarrow> IPSet" where
  "Confirm a s = (if ip_Equal a (Confirmed s) then s else confirm_locked a s)"

definition Disconfirm :: "ip \<Rightarrow> IPSet \<Rightarrow> IPSet" where
  "Disconfirm a s = (if ip_Equal a (is_confirmed s) then s\<lparr>is_confirmed := []\<rparr> else s)"

subsection \<open>ipMap\<close>

record ipMap =
  im_m :: "string \<Rightarrow> nat option"
  im_heap :: "IPSet list"

definition NewIPMap :: ipMap where
  "NewIPMap = \<lparr>im_m = (\<lambda>_. None), im_heap = []\<rparr>"

text \<open>\<open>Get(hostname)\<close> without interference: the pointer, and the map after the call.\<close>

definition Get :: "(string \<Rightarrow> ip list \<times> goerr option) \<Rightarrow> string \<Rightarrow> ipMap \<Rightarrow> ipMap \<times> nat" where
  "Get lookup hostname m =
     (case im_m m hostname of
        Some a \<Rightarrow> (m, a)
      | None \<Rightarrow>
          let a = length (im_heap m);
              s = Add (lookup hostname) empty_set
          in (m\<lparr>im_heap := im_heap m @ [s], im_m := (im_m m)(hostname \<mapsto> a)\<rparr>, a))"

definition at_set :: "nat \<Rightarrow> ipMap \<Rightarrow> IPSet" where
  "at_set a m = im_heap m ! a"

definition upd_set :: "nat \<Rightarrow> (IPSet \<Rightarrow> IPSet) \<Rightarrow> ipMap \<Rightarrow> ipMap" where
  "upd_set a f m = m\<lparr>im_heap := (im_heap m)[a := f (im_heap m ! a)]\<rparr>"

subsection \<open>The contract of an address set\<close>

text \<open>
  What the resolvers rely on: a pool of addresses, up to the equality of \<open>net.IP.Equal\<close>, that only
  grows, and one working address, which is in the pool.
\<close>

locale ip_pool =
  fixes ok :: "'s \<Rightarrow> bool"
    and pool :: "'s \<Rightarrow> ip set"
    and working :: "'s \<Rightarrow> ip option"
    and learn :: "ip \<Rightarrow> 's \<Rightarrow> 's"
    and confirm :: "ip \<Rightarrow> 's \<Rightarrow> 's"
    and disconfirm :: "ip \<Rightarrow> 's \<Rightarrow> 's"
  assumes ok_learn: "ok s \<Longrightarrow> valid_ip a \<Longrightarrow> ok (learn a s)"
    and ok_confirm: "ok s \<Longrightarrow> valid_ip a \<Longrightarrow> ok (confirm a s)"
    and ok_disconfirm: "ok s \<Longrightarrow> ok (disconfirm a s)"
    and pool_learn: "ok s \<Longrightarrow> pool (learn a s) = insert (ip_norm a) (pool s)"
    and pool_confirm: "ok s \<Longrightarrow> valid_ip a \<Longrightarrow> pool (confirm a s) = insert (ip_norm a) (pool s)"
    and pool_disconfirm: "ok s \<Longrightarrow> pool (disconfirm a s) = pool s"
    and working_learn: "ok s \<Longrightarrow> working (learn a s) = working s"
    and working_confirm: "ok s \<Longrightarrow> valid_ip a \<Longrightarrow> working (confirm a s) = Some (ip_norm a)"
    and working_disconfirm: "ok s \<Longrightarrow> valid_ip a \<Longrightarrow>
          working (disconfirm a s) = (if working s = Some (ip_norm a) then None else working s)"
    and working_pool: "ok s \<Longrightarrow> working s = Some a \<Longrightarrow> a \<in> pool s"

datatype pool_op = Learn ip | Conf ip | Disconf ip

fun op_ip :: "pool_op \<Rightarrow> ip" where
  "op_ip (Learn a) = a"
| "op_ip (Conf a) = a"
| "op_ip (Disconf a) = a"

context ip_pool
begin

fun step :: "pool_op \<Rightarrow> 's \<Rightarrow> 's" where
  "step (Learn a) s = learn a s"
| "step (Conf a) s = confirm a s"
| "step (Disconf a) s = disconfirm a s"

lemma step_grows:
  "ok s \<Longrightarrow> valid_ip (op_ip p) \<Longrightarrow> ok (step p s) \<and> pool s \<subseteq> pool (step p s)"
  by (cases p) (auto simp: ok_learn ok_confirm ok_disconfirm pool_learn pool_confirm pool_disconfirm)

lemma run_grows:
  "ok s \<Longrightarrow> list_all (\<lambda>p. valid_ip (op_ip p)) ps \<Longrightarrow> ok (fold step ps s) \<and> pool s \<subseteq> pool (fold step ps s)"
proof (induction ps arbitrary: s)
  case Nil
  then show ?case by simp
next
  case (Cons p ps)
  with step_grows [of s p] show ?case by fastforce
qed

text \<open>The last confirmation that was not taken back is the working address.\<close>

lemma run_working:
  "ok s \<Longrightarrow> valid_ip a \<Longrightarrow> list_all (\<lambda>p. valid_ip (op_ip p)) ps \<Longrightarrow>
     \<forall>p\<in>set ps. \<not> (\<exists>b. p = Conf b) \<and> (\<forall>b. p = Disconf b \<longrightarrow> ip_norm b \<noteq> ip_norm a) \<Longrightarrow>
     working s = Some (ip_norm a) \<Longrightarrow> working (fold step ps s) = Some (ip_norm a)"
proof (induction ps arbitrary: s)
  case Nil
  then show ?case by simp
next
  case (Cons p ps)
  have "working (step p s) = Some (ip_norm a)"
    using Cons.prems by (cases p) (auto simp: working_learn working_disconfirm)
  moreover have "ok (step p s)" using Cons.prems step_grows [of s p] by simp
  ultimately show ?case using Cons.IH [of "step p s"] Cons.prems by simp
qed

end

text \<open>The model's sets keep the contract.\<close>

definition pool_of :: "IPSet \<Rightarrow> ip set" where
  "pool_of s = ip_norm ` set (is_ips s)"

definition working_of :: "IPSet \<Rightarrow> ip option" where
  "working_of s = (if is_confirmed s = [] then None else Some (ip_norm (is_confirmed s)))"

definition set_ok :: "IPSet \<Rightarrow> bool" where
  "set_ok s \<longleftrightarrow> distinct (map ip_norm (is_ips s)) \<and> (\<forall>a\<in>set (is_ips s). valid_ip a)
     \<and> (is_confirmed s \<noteq> [] \<longrightarrow> ip_norm (is_confirmed s) \<in> pool_of s)"

lemma has_pool: "has s a \<longleftrightarrow> ip_norm a \<in> pool_of s"
proof -
  have "has s a \<longleftrightarrow> (\<exists>b\<in>set (is_ips s). ip_norm b = ip_norm a)"
    by (auto simp: has_def list_ex_iff ip_Equal_norm)
  also have "\<dots> \<longleftrightarrow> ip_norm a \<in> pool_of s" by (auto simp: pool_of_def intro: rev_image_eqI)
  finally show ?thesis .
qed

lemma add_simps [simp]:
  "is_confirmed (add a s) = is_confirmed s"
  "pool_of (add a s) = insert (ip_norm a) (pool_of s)"
  by (auto simp: add_def has_pool, auto simp: pool_of_def)

lemma set_ok_add:
  assumes "set_ok s" "valid_ip a"
  shows "set_ok (add a s)"
proof (cases "has s a")
  case True
  with assms show ?thesis by (simp add: add_def)
next
  case False
  then have "ip_norm a \<notin> ip_norm ` set (is_ips s)" by (simp add: has_pool pool_of_def)
  with False assms show ?thesis by (auto simp: set_ok_def add_def pool_of_def)
qed

lemma ip_norm_nonempty: "valid_ip a \<Longrightarrow> ip_norm a \<noteq> []"
  by (auto simp: valid_ip_def ip_norm_def v4InV6Prefix_def)

lemma ip_norm_Nil [simp]: "ip_norm [] = []"
  by (simp add: ip_norm_def)

lemma valid_ip_nonempty: "valid_ip a \<Longrightarrow> a \<noteq> []"
  by (auto simp: valid_ip_def)

lemma pool_of_update [simp]: "pool_of (s\<lparr>is_confirmed := a\<rparr>) = pool_of s"
  by (simp add: pool_of_def)

lemma set_ok_confirm_locked: "set_ok s \<Longrightarrow> valid_ip a \<Longrightarrow> set_ok (confirm_locked a s)"
  using set_ok_add [of s a] by (simp add: set_ok_def confirm_locked_def)

lemma set_ok_Disconfirm: "set_ok s \<Longrightarrow> set_ok (Disconfirm a s)"
  by (simp add: Disconfirm_def set_ok_def)

interpretation ipset: ip_pool set_ok pool_of working_of add Confirm Disconfirm
proof unfold_locales
  fix s :: IPSet and a :: ip
  assume ok: "set_ok s"
  show "set_ok (Disconfirm a s)" using ok by (rule set_ok_Disconfirm)
  show "pool_of (add a s) = insert (ip_norm a) (pool_of s)" by simp
  show "pool_of (Disconfirm a s) = pool_of s" by (simp add: Disconfirm_def)
  show "working_of (add a s) = working_of s" by (simp add: working_of_def)
  show "working_of s = Some a \<Longrightarrow> a \<in> pool_of s"
    using ok by (auto simp: working_of_def set_ok_def split: if_splits)
  assume a: "valid_ip a"
  show "set_ok (add a s)" using ok a by (rule set_ok_add)
  show "set_ok (Confirm a s)" using ok a by (simp add: Confirm_def set_ok_confirm_locked)
  show "pool_of (Confirm a s) = insert (ip_norm a) (pool_of s)"
    using ok ip_norm_nonempty [OF a]
    by (cases "is_confirmed s = []")
      (auto simp: Confirm_def confirm_locked_def Confirmed_def set_ok_def ip_Equal_norm)
  show "working_of (Confirm a s) = Some (ip_norm a)"
    using a ip_norm_nonempty [OF a] valid_ip_nonempty [OF a]
    by (auto simp: Confirm_def confirm_locked_def Confirmed_def working_of_def ip_Equal_norm)
  show "working_of (Disconfirm a s) = (if working_of s = Some (ip_norm a) then None else working_of s)"
    using a ip_norm_nonempty [OF a] by (auto simp: Disconfirm_def working_of_def ip_Equal_norm)
qed

subsection \<open>Properties of the operations\<close>

lemma length_swap [simp]: "length (swap i j c) = length c"
  by (simp add: swap_def)

lemma mset_swap_at: "i < length c \<Longrightarrow> j < length c \<Longrightarrow> mset (swap i j c) = mset c"
  using mset_swap [of i c j] by (simp add: swap_def)

lemma mset_shuffle_from: "i < length c \<or> c = [] \<and> i = 0 \<Longrightarrow> mset (shuffle_from draw i c) = mset c"
proof (induction draw i c rule: shuffle_from.induct)
  case (2 draw i c)
  have "draw (Suc i) mod Suc (Suc i) < Suc (Suc i)" by simp
  moreover have "Suc i < length c" using "2.prems" by simp
  ultimately have "draw (Suc i) mod Suc (Suc i) < length c" by linarith
  then show ?case using 2 by (simp add: mset_swap_at)
qed simp

text \<open>
  \<open>GetAll\<close> returns every address of the set, each as often as the set has it, for every
  sequence of random draws, and leaves the set alone: the copy is shuffled, not filtered.
\<close>

theorem GetAll_permutation: "mset (GetAll draw s) = mset (is_ips s)"
  unfolding GetAll_def by (rule mset_shuffle_from) (cases "is_ips s"; simp)

lemma set_GetAll [simp]: "set (GetAll draw s) = set (is_ips s)"
  using GetAll_permutation [of draw s] by (rule mset_eq_setD)

lemma Empty_GetAll: "Empty s \<longleftrightarrow> GetAll draw s = []"
  using GetAll_permutation [of draw s] by (auto simp: Empty_def)

lemma set_ok_empty [simp]: "set_ok empty_set"
  by (simp add: set_ok_def empty_set_def)

lemma set_ok_fold_add: "set_ok s \<Longrightarrow> list_all valid_ip xs \<Longrightarrow> set_ok (fold add xs s)"
  by (induction xs arbitrary: s) (auto intro: set_ok_add)

lemma pool_fold_add: "pool_of (fold add xs s) = ip_norm ` set xs \<union> pool_of s"
  by (induction xs arbitrary: s) auto

lemma pool_of_empty [simp]: "pool_of empty_set = {}"
  by (simp add: pool_of_def empty_set_def)

lemma Empty_pool: "Empty s \<longleftrightarrow> pool_of s = {}"
  by (simp add: Empty_def pool_of_def)

lemma set_ok_Add: "set_ok s \<Longrightarrow> list_all valid_ip (fst res) \<Longrightarrow> set_ok (Add res s)"
  by (cases res) (simp add: Add_def set_ok_fold_add)

lemma pool_of_Add: "pool_of (Add res s) = ip_norm ` set (fst res) \<union> pool_of s"
  by (cases res) (simp add: Add_def pool_fold_add)

text \<open>A set with at least one usable address is never emptied again.\<close>

fun apply_pool_op :: "pool_op \<Rightarrow> IPSet \<Rightarrow> IPSet" where
  "apply_pool_op (Learn a) s = add a s"
| "apply_pool_op (Conf a) s = Confirm a s"
| "apply_pool_op (Disconf a) s = Disconfirm a s"

lemma apply_pool_op_step: "apply_pool_op p s = ipset.step p s"
  by (cases p) simp_all

lemma fold_apply_pool_op: "fold apply_pool_op ps s = fold ipset.step ps s"
  by (induction ps arbitrary: s) (simp_all add: apply_pool_op_step)

text \<open>
  C18. Whatever sequence of additions, confirmations and disconfirmations a set goes through, its
  well-formedness is kept (no address twice up to \<open>net.IP.Equal\<close>, the confirmed address is one of
  the set's) and no address is ever lost.
\<close>

theorem IPSet_invariant:
  assumes "set_ok s" and "list_all (\<lambda>p. valid_ip (op_ip p)) ps"
  shows "set_ok (fold apply_pool_op ps s) \<and> pool_of s \<subseteq> pool_of (fold apply_pool_op ps s)"
  using ipset.run_grows [OF assms] by (simp add: fold_apply_pool_op)

theorem IPSet_invariant_witness:
  "set_ok (fold apply_pool_op [Learn [1, 2, 3, 4], Conf [5, 6, 7, 8], Disconf [5, 6, 7, 8]] empty_set)
   \<and> pool_of empty_set
       \<subseteq> pool_of (fold apply_pool_op [Learn [1, 2, 3, 4], Conf [5, 6, 7, 8], Disconf [5, 6, 7, 8]] empty_set)"
  by (rule IPSet_invariant) (simp_all add: valid_ip_def)

text \<open>
  The confirmed address is the last one confirmed that was not disconfirmed since: additions
  and the disconfirmation of other addresses (a slow failure of a server tried before) do not
  disturb it.
\<close>

theorem IPSet_confirmed_stays:
  assumes "set_ok s" and "valid_ip a" and "list_all (\<lambda>p. valid_ip (op_ip p)) ps"
    and "\<forall>p\<in>set ps. \<not> (\<exists>b. p = Conf b) \<and> (\<forall>b. p = Disconf b \<longrightarrow> ip_norm b \<noteq> ip_norm a)"
  shows "working_of (fold apply_pool_op ps (Confirm a s)) = Some (ip_norm a)"
  using ipset.run_working [OF ipset.ok_confirm [OF assms(1,2)] assms(2,3,4)]
    ipset.working_confirm [OF assms(1,2)]
  by (simp add: fold_apply_pool_op)

theorem IPSet_confirmed_stays_witness:
  "working_of (fold apply_pool_op [Disconf [9, 9, 9, 9], Learn [5, 6, 7, 8]] (Confirm [1, 2, 3, 4] empty_set))
     = Some (ip_norm [1, 2, 3, 4])"
  by (rule IPSet_confirmed_stays)
    (auto simp: valid_ip_def ip_norm_def v4InV6Prefix_def)

subsection \<open>Get, called concurrently\<close>

text \<open>
  A call of \<open>Get\<close> is between its critical sections: not started, the map read and nothing found,
  its own set built (at that address of the heap, no lock is held while the name is resolved), done
  with that result.
\<close>

datatype get_pc = GStart | GMiss | GBuilt nat | GDone nat

record get_state =
  gs_map :: ipMap
  gs_calls :: "(string \<times> get_pc) list"

text \<open>
  The steps: a new call; the read under \<open>RLock\<close>; \<open>s.Add(hostname)\<close> on the private set, with any
  result of the lookup; the second look and the store under \<open>Lock\<close>; and, between them, any operation of a
  holder of a set (\<open>Confirm\<close> runs in two critical sections, the second is \<open>confirm_locked\<close>).
\<close>

inductive gstep :: "get_state \<Rightarrow> get_state \<Rightarrow> bool" where
  g_call: "gstep g (g\<lparr>gs_calls := gs_calls g @ [(h, GStart)]\<rparr>)"
| g_hit: "\<lbrakk>i < length (gs_calls g); gs_calls g ! i = (h, GStart); im_m (gs_map g) h = Some a\<rbrakk>
    \<Longrightarrow> gstep g (g\<lparr>gs_calls := (gs_calls g)[i := (h, GDone a)]\<rparr>)"
| g_miss: "\<lbrakk>i < length (gs_calls g); gs_calls g ! i = (h, GStart); im_m (gs_map g) h = None\<rbrakk>
    \<Longrightarrow> gstep g (g\<lparr>gs_calls := (gs_calls g)[i := (h, GMiss)]\<rparr>)"
| g_build: "\<lbrakk>i < length (gs_calls g); gs_calls g ! i = (h, GMiss); list_all valid_ip (fst res)\<rbrakk>
    \<Longrightarrow> gstep g (g\<lparr>gs_map := (gs_map g)\<lparr>im_heap := im_heap (gs_map g) @ [Add res empty_set]\<rparr>,
                 gs_calls := (gs_calls g)[i := (h, GBuilt (length (im_heap (gs_map g))))]\<rparr>)"
| g_store: "\<lbrakk>i < length (gs_calls g); gs_calls g ! i = (h, GBuilt a); im_m (gs_map g) h = None\<rbrakk>
    \<Longrightarrow> gstep g (g\<lparr>gs_map := (gs_map g)\<lparr>im_m := (im_m (gs_map g))(h \<mapsto> a)\<rparr>,
                 gs_calls := (gs_calls g)[i := (h, GDone a)]\<rparr>)"
| g_lost: "\<lbrakk>i < length (gs_calls g); gs_calls g ! i = (h, GBuilt a); im_m (gs_map g) h = Some b\<rbrakk>
    \<Longrightarrow> gstep g (g\<lparr>gs_calls := (gs_calls g)[i := (h, GDone b)]\<rparr>)"
| g_add: "\<lbrakk>a < length (im_heap (gs_map g)); valid_ip x\<rbrakk>
    \<Longrightarrow> gstep g (g\<lparr>gs_map := upd_set a (add x) (gs_map g)\<rparr>)"
| g_confirm: "\<lbrakk>a < length (im_heap (gs_map g)); valid_ip x\<rbrakk>
    \<Longrightarrow> gstep g (g\<lparr>gs_map := upd_set a (confirm_locked x) (gs_map g)\<rparr>)"
| g_disconfirm: "a < length (im_heap (gs_map g))
    \<Longrightarrow> gstep g (g\<lparr>gs_map := upd_set a (Disconfirm x) (gs_map g)\<rparr>)"

inductive g_reach :: "get_state \<Rightarrow> bool" where
  g_init: "g_reach \<lparr>gs_map = NewIPMap, gs_calls = []\<rparr>"
| g_next: "g_reach g \<Longrightarrow> gstep g g' \<Longrightarrow> g_reach g'"

inductive_cases gstepE: "gstep g g'"

text \<open>
  The invariant: every set of the heap is well-formed; the map has different sets for different
  names; a private set is in no map entry and belongs to one call; a finished call holds what the
  map has.
\<close>

fun pc_ok :: "ipMap \<Rightarrow> string \<times> get_pc \<Rightarrow> bool" where
  "pc_ok m (h, GDone a) = (im_m m h = Some a)"
| "pc_ok m (h, GBuilt a) = (a < length (im_heap m) \<and> a \<notin> ran (im_m m))"
| "pc_ok m p = True"

definition map_ok :: "ipMap \<Rightarrow> bool" where
  "map_ok m \<longleftrightarrow> list_all set_ok (im_heap m)
     \<and> (\<forall>h a. im_m m h = Some a \<longrightarrow> a < length (im_heap m))
     \<and> (\<forall>h k a. im_m m h = Some a \<and> im_m m k = Some a \<longrightarrow> h = k)"

definition private_ok :: "(string \<times> get_pc) list \<Rightarrow> bool" where
  "private_ok cs \<longleftrightarrow> (\<forall>i j h k a. i < length cs \<and> j < length cs
     \<and> cs ! i = (h, GBuilt a) \<and> cs ! j = (k, GBuilt a) \<longrightarrow> i = j)"

definition g_inv :: "get_state \<Rightarrow> bool" where
  "g_inv g \<longleftrightarrow> map_ok (gs_map g) \<and> list_all (pc_ok (gs_map g)) (gs_calls g)
     \<and> private_ok (gs_calls g)"

lemma map_ok_append:
  "map_ok m \<Longrightarrow> set_ok s \<Longrightarrow> map_ok (m\<lparr>im_heap := im_heap m @ [s]\<rparr>)"
  by (auto simp: map_ok_def) (metis less_SucI)

lemma map_ok_upd:
  "map_ok m \<Longrightarrow> a < length (im_heap m) \<Longrightarrow> set_ok (f (im_heap m ! a)) \<Longrightarrow> map_ok (upd_set a f m)"
  by (auto simp: map_ok_def upd_set_def list_all_iff dest!: set_update_subset_insert [THEN subsetD])

lemma pc_ok_append: "pc_ok m c \<Longrightarrow> pc_ok (m\<lparr>im_heap := im_heap m @ [s]\<rparr>) c"
  by (cases "(m, c)" rule: pc_ok.cases) auto

lemma pc_ok_upd [simp]: "pc_ok (upd_set a f m) c = pc_ok m c"
  by (cases "(m, c)" rule: pc_ok.cases) (auto simp: upd_set_def)

lemma list_all_update: "list_all P xs \<Longrightarrow> P x \<Longrightarrow> list_all P (xs[i := x])"
  by (auto simp: list_all_iff dest!: set_update_subset_insert [THEN subsetD])

lemma private_ok_update:
  "private_ok cs \<Longrightarrow> (\<forall>k a. c \<noteq> (k, GBuilt a)) \<Longrightarrow> private_ok (cs[i := c])"
  unfolding private_ok_def by (metis length_list_update nth_list_update_eq nth_list_update_neq)

lemma private_ok_append:
  "private_ok cs \<Longrightarrow> (\<forall>k a. c \<noteq> (k, GBuilt a)) \<Longrightarrow> private_ok (cs @ [c])"
  by (auto simp: private_ok_def nth_append less_Suc_eq)

lemma private_ok_fresh:
  assumes "private_ok cs" and "\<And>j k b. j < length cs \<Longrightarrow> cs ! j = (k, GBuilt b) \<Longrightarrow> b \<noteq> a"
  shows "private_ok (cs[i := (h, GBuilt a)])"
  unfolding private_ok_def
proof (intro allI impI, elim conjE)
  fix x y u v b
  assume xy: "x < length (cs[i := (h, GBuilt a)])" "y < length (cs[i := (h, GBuilt a)])"
    and c: "cs[i := (h, GBuilt a)] ! x = (u, GBuilt b)" "cs[i := (h, GBuilt a)] ! y = (v, GBuilt b)"
  show "x = y"
  proof (cases "x = i \<or> y = i")
    case True
    then show ?thesis using xy c assms(2) by (cases "x = i"; cases "y = i") auto
  next
    case False
    then show ?thesis using xy c assms(1) unfolding private_ok_def by (metis length_list_update nth_list_update_neq)
  qed
qed

text \<open>Storing a private set leaves every other call's knowledge of the map true.\<close>

lemma pc_ok_store:
  assumes "pc_ok m (k, pc)" "im_m m h = None" "\<And>b. pc = GBuilt b \<Longrightarrow> b \<noteq> a"
  shows "pc_ok (m\<lparr>im_m := (im_m m)(h \<mapsto> a)\<rparr>) (k, pc)"
  using assms by (cases pc) (auto simp: ran_def split: if_splits)

lemma map_ok_store:
  assumes "map_ok m" "im_m m h = None" "a < length (im_heap m)" "a \<notin> ran (im_m m)"
  shows "map_ok (m\<lparr>im_m := (im_m m)(h \<mapsto> a)\<rparr>)"
  using assms by (auto simp: map_ok_def ran_def)

lemma g_inv_store:
  assumes inv: "g_inv g" and i: "i < length (gs_calls g)" "gs_calls g ! i = (h, GBuilt a)"
    and none: "im_m (gs_map g) h = None"
  shows "g_inv (g\<lparr>gs_map := (gs_map g)\<lparr>im_m := (im_m (gs_map g))(h \<mapsto> a)\<rparr>,
                 gs_calls := (gs_calls g)[i := (h, GDone a)]\<rparr>)"
proof -
  let ?m = "gs_map g" and ?cs = "gs_calls g"
  have mine: "pc_ok ?m (h, GBuilt a)" using inv i by (auto simp: g_inv_def list_all_length)
  have "pc_ok (?m\<lparr>im_m := (im_m ?m)(h \<mapsto> a)\<rparr>) (?cs[i := (h, GDone a)] ! j)" if j: "j < length ?cs" for j
  proof (cases "j = i")
    case True
    then show ?thesis using i by simp
  next
    case False
    obtain k pc where c: "?cs ! j = (k, pc)" by (cases "?cs ! j")
    have "pc \<noteq> GBuilt a"
      using inv i c j False unfolding g_inv_def private_ok_def by metis
    moreover have "pc_ok ?m (k, pc)" using inv c j by (auto simp: g_inv_def list_all_length)
    ultimately have "pc_ok (?m\<lparr>im_m := (im_m ?m)(h \<mapsto> a)\<rparr>) (k, pc)"
      by (intro pc_ok_store) (auto simp: none)
    then show ?thesis using False c by simp
  qed
  then show ?thesis
    using inv mine none by (auto simp: g_inv_def list_all_length intro: map_ok_store private_ok_update)
qed

lemma g_inv_upd:
  assumes "g_inv g" "a < length (im_heap (gs_map g))" "\<And>s. set_ok s \<Longrightarrow> set_ok (f s)"
  shows "g_inv (g\<lparr>gs_map := upd_set a f (gs_map g)\<rparr>)"
proof -
  have "set_ok (im_heap (gs_map g) ! a)"
    using assms by (simp add: g_inv_def map_ok_def list_all_length)
  then have "map_ok (upd_set a f (gs_map g))"
    using assms by (intro map_ok_upd) (simp_all add: g_inv_def)
  then show ?thesis using assms(1) by (simp add: g_inv_def list_all_iff)
qed

lemma g_inv_step: "gstep g g' \<Longrightarrow> g_inv g \<Longrightarrow> g_inv g'"
proof (induction rule: gstep.induct)
  case (g_build i g h res)
  let ?m = "gs_map g" and ?cs = "gs_calls g"
  have new: "b \<noteq> length (im_heap ?m)" if "j < length ?cs" "?cs ! j = (k, GBuilt b)" for j k b
    using that g_build.prems by (auto simp: g_inv_def list_all_length dest!: spec [of _ j])
  have "set_ok (Add res empty_set)" using g_build.hyps by (simp add: set_ok_Add)
  moreover have "length (im_heap ?m) \<notin> ran (im_m ?m)"
    using g_build.prems by (auto simp: g_inv_def map_ok_def ran_def)
  moreover have "list_all (pc_ok (?m\<lparr>im_heap := im_heap ?m @ [Add res empty_set]\<rparr>))
      (?cs[i := (h, GBuilt (length (im_heap ?m)))])"
    using g_build.prems calculation(2)
    by (intro list_all_update) (auto simp: g_inv_def list_all_iff intro: pc_ok_append)
  moreover have "private_ok (?cs[i := (h, GBuilt (length (im_heap ?m)))])"
    using g_build.prems new by (intro private_ok_fresh) (auto simp: g_inv_def)
  ultimately show ?case
    using g_build.prems by (simp add: g_inv_def map_ok_append)
next
  case (g_store i g h a)
  then show ?case by (intro g_inv_store)
next
  case (g_add a g x)
  then show ?case by (intro g_inv_upd) (simp_all add: set_ok_add)
next
  case (g_confirm a g x)
  then show ?case by (intro g_inv_upd) (simp_all add: set_ok_confirm_locked)
next
  case (g_disconfirm a g x)
  then show ?case by (intro g_inv_upd) (simp_all add: set_ok_Disconfirm)
qed (auto simp: g_inv_def intro!: list_all_update private_ok_update private_ok_append)

lemma g_reach_inv: "g_reach g \<Longrightarrow> g_inv g"
proof (induction rule: g_reach.induct)
  case g_init
  show ?case by (simp add: g_inv_def NewIPMap_def map_ok_def private_ok_def)
next
  case (g_next g g')
  then show ?case by (simp add: g_inv_step)
qed

text \<open>
  C34. However the calls of \<open>Get\<close> interleave with each other and with the users of the sets, two
  calls that have returned got the same set exactly when they asked for the same name, and that set
  is the one in the map: what one caller confirms the others see.
\<close>

theorem Get_same_set:
  assumes "g_reach g" and "(h, GDone a) \<in> set (gs_calls g)" and "(k, GDone b) \<in> set (gs_calls g)"
  shows "(a = b \<longleftrightarrow> h = k) \<and> im_m (gs_map g) h = Some a"
proof -
  have inv: "g_inv g" by (rule g_reach_inv [OF assms(1)])
  have "pc_ok (gs_map g) (h, GDone a)" "pc_ok (gs_map g) (k, GDone b)"
    using inv assms(2,3) by (auto simp: g_inv_def list_all_iff simp del: pc_ok.simps)
  then have ab: "im_m (gs_map g) h = Some a" "im_m (gs_map g) k = Some b" by simp_all
  have "\<forall>h k a. im_m (gs_map g) h = Some a \<and> im_m (gs_map g) k = Some a \<longrightarrow> h = k"
    using inv by (simp add: g_inv_def map_ok_def)
  then have "a = b \<longleftrightarrow> h = k" using ab by (metis option.inject)
  with ab show ?thesis by simp
qed

text \<open>
  In every reachable state every address set, published or still private, is well-formed: no
  duplicates, only IPv4 or IPv6 addresses, the confirmed address among them.
\<close>

theorem Get_sets_ok:
  assumes "g_reach g" and "a < length (im_heap (gs_map g))"
  shows "set_ok (at_set a (gs_map g))"
  using g_reach_inv [OF assms(1)] assms(2)
  by (simp add: g_inv_def map_ok_def list_all_length at_set_def)

text \<open>A race of two calls for one name: the second builds a set of its own and drops it.\<close>

definition race_calls :: "(string \<times> get_pc) list" where
  "race_calls = [(''d'', GDone 1), (''d'', GDone 1)]"

definition race_end :: get_state where
  "race_end = \<lparr>gs_map = \<lparr>im_m = [''d'' \<mapsto> 1],
       im_heap = [Add ([[9, 9, 9, 9]], None) empty_set, Add ([[1, 2, 3, 4]], None) empty_set]\<rparr>,
     gs_calls = race_calls\<rparr>"

lemma race_reach: "g_reach race_end"
proof -
  let ?A = "Add ([[9, 9, 9, 9]], None) empty_set" and ?B = "Add ([[1, 2, 3, 4]], None) empty_set"
  let ?g = "\<lambda>m h cs. \<lparr>gs_map = \<lparr>im_m = m, im_heap = h\<rparr>, gs_calls = cs\<rparr>"
  have "g_reach (?g Map.empty [] [])" using g_init by (simp add: NewIPMap_def)
  from g_next [OF this g_call [of _ "''d''"]]
  have "g_reach (?g Map.empty [] [(''d'', GStart)])" by simp
  from g_next [OF this g_call [of _ "''d''"]]
  have "g_reach (?g Map.empty [] [(''d'', GStart), (''d'', GStart)])" by simp
  from g_next [OF this g_miss [of 0 _ "''d''"]]
  have "g_reach (?g Map.empty [] [(''d'', GMiss), (''d'', GStart)])" by simp
  from g_next [OF this g_miss [of 1 _ "''d''"]]
  have "g_reach (?g Map.empty [] [(''d'', GMiss), (''d'', GMiss)])" by simp
  from g_next [OF this g_build [of 0 _ "''d''" "([[9, 9, 9, 9]], None)"]]
  have "g_reach (?g Map.empty [?A] [(''d'', GBuilt 0), (''d'', GMiss)])" by (simp add: valid_ip_def)
  from g_next [OF this g_build [of 1 _ "''d''" "([[1, 2, 3, 4]], None)"]]
  have "g_reach (?g Map.empty [?A, ?B] [(''d'', GBuilt 0), (''d'', GBuilt 1)])"
    by (simp add: valid_ip_def)
  from g_next [OF this g_store [of 1 _ "''d''" 1]]
  have "g_reach (?g [''d'' \<mapsto> 1] [?A, ?B] [(''d'', GBuilt 0), (''d'', GDone 1)])" by simp
  from g_next [OF this g_lost [of 0 _ "''d''" 0 1]]
  show ?thesis by (simp add: race_end_def race_calls_def)
qed

theorem Get_same_set_witness:
  "((1::nat) = 1 \<longleftrightarrow> ''d'' = ''d'') \<and> im_m (gs_map race_end) ''d'' = Some 1"
  by (rule Get_same_set [OF race_reach]) (simp_all add: race_end_def race_calls_def)

theorem Get_sets_ok_witness: "set_ok (at_set 1 (gs_map race_end))"
  by (rule Get_sets_ok [OF race_reach]) (simp add: race_end_def)

text \<open>A call without interference is the function \<open>Get\<close>: the steps refine it.\<close>

lemma Get_reach:
  assumes "g_reach g" and "list_all valid_ip (fst (lookup h))" and "Get lookup h (gs_map g) = (m', a)"
  shows "g_reach (g\<lparr>gs_map := m', gs_calls := gs_calls g @ [(h, GDone a)]\<rparr>)"
proof -
  let ?n = "length (gs_calls g)"
  let ?g1 = "g\<lparr>gs_calls := gs_calls g @ [(h, GStart)]\<rparr>"
  have g1: "g_reach ?g1" by (rule g_next [OF assms(1) g_call])
  show ?thesis
  proof (cases "im_m (gs_map g) h")
    case (Some b)
    then show ?thesis
      using g_next [OF g1 g_hit [of ?n _ h b]] assms(3) by (auto simp: Get_def)
  next
    case None
    let ?A = "Add (lookup h) empty_set" and ?k = "length (im_heap (gs_map g))"
    let ?g2 = "g\<lparr>gs_calls := gs_calls g @ [(h, GMiss)]\<rparr>"
    let ?g3 = "g\<lparr>gs_map := (gs_map g)\<lparr>im_heap := im_heap (gs_map g) @ [?A]\<rparr>,
      gs_calls := gs_calls g @ [(h, GBuilt ?k)]\<rparr>"
    have g2: "g_reach ?g2" using g_next [OF g1 g_miss [of ?n _ h]] None by simp
    have g3: "g_reach ?g3" using g_next [OF g2 g_build [of ?n _ h "lookup h"]] assms(2) by simp
    show ?thesis
      using g_next [OF g3 g_store [of ?n _ h ?k]] None assms(3) by (auto simp: Get_def Let_def)
  qed
qed

lemma Get_again: "Get lookup h m = (m', a) \<Longrightarrow> Get lookup' h m' = (m', a)"
  by (auto simp: Get_def Let_def split: option.splits)

lemma Get_map_ok:
  assumes "map_ok m" "list_all valid_ip (fst (lookup h))" "Get lookup h m = (m', a)"
  shows "map_ok m' \<and> a < length (im_heap m')"
proof (cases "im_m m h")
  case (Some b)
  then show ?thesis using assms by (auto simp: Get_def map_ok_def)
next
  case None
  let ?m = "m\<lparr>im_heap := im_heap m @ [Add (lookup h) empty_set]\<rparr>"
  have "map_ok ?m" using assms by (intro map_ok_append set_ok_Add) auto
  moreover have "length (im_heap m) \<notin> ran (im_m m)" using assms(1) by (auto simp: map_ok_def ran_def)
  ultimately have "map_ok (?m\<lparr>im_m := (im_m ?m)(h \<mapsto> length (im_heap m))\<rparr>)"
    using None by (intro map_ok_store) auto
  then show ?thesis using None assms(3) by (auto simp: Get_def Let_def)
qed

end
