(* ===== verification/DnsMsg.thy ===== *)
theory DnsMsg
  imports Go_Prelude
begin

section \<open>DNS messages: padding, names, SERVFAIL (proxy/doh)\<close>

text \<open>
  \<open>padding.go\<close>, \<open>names.go\<close> and \<open>Servfail\<close> of \<open>doh.go\<close>. The wire format belongs to
  \<open>golang.org/x/net/dns/dnsmessage\<close>, which is not part of the repository: its \<open>Unpack\<close>, \<open>Pack\<close>,
  \<open>SetEDNS0\<close> and \<open>Name.String\<close> are the fields of a \<open>codec\<close>, an argument of the definitions, and a
  message is the record of the fields the code looks at; all the rest of it (other header bits, questions,
  answers, authorities, resource headers, bodies other than OPT) is opaque, of the type \<open>'x\<close>. What the code relies on is
  stated as \<open>id_law\<close>, \<open>len_law\<close> and \<open>trip_law\<close>.
\<close>

subsection \<open>dnsmessage\<close>

record dns_option =
  op_Code :: u16
  op_Data :: bytes

datatype 'x rbody = OPTResource "dns_option list" | OtherBody 'x

record 'x resource =
  rr_Header :: 'x
  rr_Body :: "'x rbody"

record 'x message =
  m_ID :: u16
  m_Response :: bool
  m_RecursionAvailable :: bool
  m_RCode :: nat
  m_Questions :: "'x list"
  m_Additionals :: "'x resource list"
  m_Rest :: 'x

record 'x codec =
  cd_Unpack :: "bytes \<Rightarrow> goerr + 'x message"
  cd_Pack :: "'x message \<Rightarrow> goerr + bytes"
  cd_SetEDNS0 :: "nat \<Rightarrow> nat \<Rightarrow> bool \<Rightarrow> goerr + 'x"
  cd_String :: "'x \<Rightarrow> string"

definition RCodeSuccess :: nat where "RCodeSuccess = 0"
definition RCodeServerFailure :: nat where "RCodeServerFailure = 2"

subsection \<open>Padding\<close>

definition OptResourcePaddingCode :: u16 where "OptResourcePaddingCode = 12"
definition PaddingBlockSize :: int where "PaddingBlockSize = 128"
definition kOptPaddingHeaderLen :: int where "kOptPaddingHeaderLen = 2 + 2"

text \<open>Both arguments are lengths, so that Go's \<open>%\<close> is \<open>mod\<close>.\<close>

definition computePaddingSize :: "int \<Rightarrow> int \<Rightarrow> int" where
  "computePaddingSize msgLen blockSize =
     (let extraPadding = kOptPaddingHeaderLen;
          padSize = blockSize - (msgLen + extraPadding) mod blockSize
      in padSize mod blockSize)"

definition getPadding :: "int \<Rightarrow> dns_option" where
  "getPadding msgLen = \<lparr>op_Code = OptResourcePaddingCode,
     op_Data = replicate (nat (computePaddingSize msgLen PaddingBlockSize)) 0\<rparr>"

text \<open>
  The search for the OPT resource. Its \<open>break\<close> leaves the \<open>switch\<close> and not the loop, so \<open>optRes\<close> ends as
  the last one; a pointer into the message is the index of the resource.
\<close>

fun find_opt :: "nat \<Rightarrow> nat option \<Rightarrow> 'x resource list \<Rightarrow> nat option" where
  "find_opt i optRes [] = optRes"
| "find_opt i optRes (a # as) =
     (case rr_Body a of
        OPTResource os \<Rightarrow> find_opt (Suc i) (Some i) as
      | OtherBody x \<Rightarrow> find_opt (Suc i) optRes as)"

definition opt_options :: "'x resource \<Rightarrow> dns_option list" where
  "opt_options a = (case rr_Body a of OPTResource os \<Rightarrow> os | OtherBody x \<Rightarrow> [])"

text \<open>\<open>optRes.Options = append(optRes.Options, o)\<close> through the pointer at \<open>i\<close>.\<close>

definition add_option :: "nat \<Rightarrow> dns_option \<Rightarrow> 'x message \<Rightarrow> 'x message" where
  "add_option i opt m = m\<lparr>m_Additionals := (m_Additionals m)
     [i := (m_Additionals m ! i)\<lparr>rr_Body := OPTResource (opt_options (m_Additionals m ! i) @ [opt])\<rparr>]\<rparr>"

text \<open>
  The message before padding and the place of its OPT resource; \<open>None\<close> when the padding is there
  already.
\<close>

definition ensure_opt :: "'x codec \<Rightarrow> 'x message \<Rightarrow> goerr + ('x message \<times> nat) option" where
  "ensure_opt cd msg =
     (case find_opt 0 None (m_Additionals msg) of
        Some i \<Rightarrow>
          if list_ex (\<lambda>opt. op_Code opt = OptResourcePaddingCode) (opt_options (m_Additionals msg ! i))
          then Inr None
          else Inr (Some (msg, i))
      | None \<Rightarrow>
          (case cd_SetEDNS0 cd 65535 RCodeSuccess False of
             Inl err \<Rightarrow> Inl err
           | Inr optHeader \<Rightarrow> Inr (Some
               (msg\<lparr>m_Additionals := m_Additionals msg
                  @ [\<lparr>rr_Header = optHeader, rr_Body = OPTResource []\<rparr>]\<rparr>,
                length (m_Additionals msg)))))"

text \<open>\<open>AddEdnsPadding(rawMsg)\<close>: the flag says that the result is the caller's slice itself.\<close>

definition AddEdnsPadding :: "'x codec \<Rightarrow> bytes \<Rightarrow> goerr + bytes \<times> bool" where
  "AddEdnsPadding cd rawMsg =
     (case cd_Unpack cd rawMsg of
        Inl err \<Rightarrow> Inl err
      | Inr msg \<Rightarrow>
          (case ensure_opt cd msg of
             Inl err \<Rightarrow> Inl err
           | Inr None \<Rightarrow> Inr (rawMsg, True)
           | Inr (Some (msg1, i)) \<Rightarrow>
               (case cd_Pack cd msg1 of
                  Inl err \<Rightarrow> Inl err
                | Inr compressedMsg \<Rightarrow>
                    let paddingOption = getPadding (int (length compressedMsg)) in
                    (case cd_Pack cd (add_option i paddingOption msg1) of
                       Inl err \<Rightarrow> Inl err
                     | Inr out \<Rightarrow> Inr (out, False)))))"

subsection \<open>SERVFAIL and the names of a query\<close>

definition Servfail :: "'x codec \<Rightarrow> bytes \<Rightarrow> goerr + bytes" where
  "Servfail cd q =
     (case cd_Unpack cd q of
        Inl err \<Rightarrow> Inl err
      | Inr msg \<Rightarrow> cd_Pack cd (msg\<lparr>m_Response := True, m_RecursionAvailable := True,
          m_RCode := RCodeServerFailure, m_Additionals := []\<rparr>))"

text \<open>A slice that may be \<open>nil\<close> is an option.\<close>

definition tryServfail :: "'x codec \<Rightarrow> bytes \<Rightarrow> bytes option" where
  "tryServfail cd q = (case Servfail cd q of Inl err \<Rightarrow> None | Inr b \<Rightarrow> Some b)"

definition QueryQuestionNames :: "'x codec \<Rightarrow> bytes \<Rightarrow> goerr + string list" where
  "QueryQuestionNames cd q =
     (case cd_Unpack cd q of
        Inl err \<Rightarrow> Inl err
      | Inr msg \<Rightarrow> Inr (map (cd_String cd) (m_Questions msg)))"

subsection \<open>What the code relies on in dnsmessage\<close>

text \<open>The first two bytes of a message are its ID; a packed message has a 12-byte header.\<close>

definition id_law :: "'x codec \<Rightarrow> bool" where
  "id_law cd \<longleftrightarrow>
     (\<forall>b m. cd_Unpack cd b = Inr m \<longrightarrow> 12 \<le> length b \<and> m_ID m = be16 b)
   \<and> (\<forall>m b. cd_Pack cd m = Inr b \<longrightarrow> 12 \<le> length b \<and> be16 b = m_ID m)"

text \<open>
  An option takes its code, its length and its data on the wire, and nothing else changes its size
  as long as every name is at an offset a compression pointer can express (14 bits).
\<close>

definition len_law :: "'x codec \<Rightarrow> bool" where
  "len_law cd \<longleftrightarrow>
     (\<forall>m i os opt b b'. i < length (m_Additionals m) \<longrightarrow> rr_Body (m_Additionals m ! i) = OPTResource os
        \<longrightarrow> cd_Pack cd m = Inr b \<longrightarrow> cd_Pack cd (add_option i opt m) = Inr b' \<longrightarrow> length b' \<le> 16383
        \<longrightarrow> length b' = length b + 4 + length (op_Data opt))"

text \<open>What was packed is unpacked with the same resource bodies.\<close>

definition trip_law :: "'x codec \<Rightarrow> bool" where
  "trip_law cd \<longleftrightarrow>
     (\<forall>m b. cd_Pack cd m = Inr b \<longrightarrow>
        (\<exists>m'. cd_Unpack cd b = Inr m' \<and> map rr_Body (m_Additionals m') = map rr_Body (m_Additionals m)))"

subsection \<open>Properties\<close>

lemma computePaddingSize_range:
  "0 < blockSize \<Longrightarrow> 0 \<le> computePaddingSize msgLen blockSize \<and> computePaddingSize msgLen blockSize < blockSize"
  by (simp add: computePaddingSize_def Let_def)

lemma computePaddingSize_dvd:
  "blockSize dvd msgLen + 4 + computePaddingSize msgLen blockSize"
proof -
  define c where "c = computePaddingSize msgLen blockSize"
  have c: "c = (blockSize - (msgLen + 4) mod blockSize) mod blockSize"
    by (simp add: c_def computePaddingSize_def Let_def kOptPaddingHeaderLen_def)
  have "(msgLen + 4 + c) mod blockSize = (msgLen + 4 + (blockSize - (msgLen + 4))) mod blockSize"
    unfolding c by (simp only: mod_add_right_eq mod_diff_right_eq)
  also have "\<dots> = 0" by simp
  finally show ?thesis by (simp only: c_def mod_eq_0_iff_dvd)
qed

text \<open>
  \<open>computePaddingSize\<close> is the least padding that brings the message, with the header of the
  padding option, to a multiple of the block size; it is less than a block.
\<close>

theorem computePaddingSize_least:
  assumes "0 < blockSize"
  shows "0 \<le> computePaddingSize msgLen blockSize \<and> computePaddingSize msgLen blockSize < blockSize
    \<and> blockSize dvd msgLen + 4 + computePaddingSize msgLen blockSize
    \<and> (\<forall>p. 0 \<le> p \<and> blockSize dvd msgLen + 4 + p \<longrightarrow> computePaddingSize msgLen blockSize \<le> p)"
proof -
  let ?c = "computePaddingSize msgLen blockSize"
  have "?c \<le> p" if p: "0 \<le> p" "blockSize dvd msgLen + 4 + p" for p
  proof -
    have "blockSize dvd (msgLen + 4 + ?c) - (msgLen + 4 + p)"
      using computePaddingSize_dvd p(2) by (rule dvd_diff)
    then have "blockSize dvd ?c - p" by simp
    moreover have "?c - p < blockSize" using computePaddingSize_range [OF assms, of msgLen] p(1) by linarith
    ultimately show ?thesis using assms zdvd_imp_le [of blockSize "?c - p"] by linarith
  qed
  then show ?thesis
    using computePaddingSize_range [OF assms] computePaddingSize_dvd by blast
qed

theorem computePaddingSize_least_witness:
  "0 \<le> computePaddingSize 29 128 \<and> computePaddingSize 29 128 < 128
    \<and> 128 dvd (29 :: int) + 4 + computePaddingSize 29 128
    \<and> (\<forall>p. 0 \<le> p \<and> 128 dvd (29 :: int) + 4 + p \<longrightarrow> computePaddingSize 29 128 \<le> p)"
  by (rule computePaddingSize_least) simp

text \<open>The OPT resource found is one, and the last one.\<close>

lemma find_opt_Some:
  "find_opt k acc as = Some i \<Longrightarrow>
     (acc = Some i \<and> (\<forall>a\<in>set as. \<exists>x. rr_Body a = OtherBody x))
     \<or> (k \<le> i \<and> i < k + length as \<and> (\<exists>os. rr_Body (as ! (i - k)) = OPTResource os)
        \<and> (\<forall>j. i < j \<and> j < k + length as \<longrightarrow> (\<exists>x. rr_Body (as ! (j - k)) = OtherBody x)))"
proof (induction k acc as rule: find_opt.induct)
  case (2 k acc a as)
  show ?case
  proof (cases "rr_Body a")
    case (OPTResource os)
    with "2.IH"(1) [OF OPTResource] "2.prems" show ?thesis
      by (auto simp: nth_Cons' Suc_le_eq dest: bspec [OF _ nth_mem])
  next
    case (OtherBody x)
    with "2.IH"(2) [OF OtherBody] "2.prems" show ?thesis
      by (auto simp: nth_Cons' Suc_le_eq)
  qed
qed simp

lemma find_opt_SomeD:
  assumes "find_opt 0 None as = Some i"
  shows "i < length as" "\<exists>os. rr_Body (as ! i) = OPTResource os"
  using find_opt_Some [OF assms] by auto

lemma find_opt_snoc:
  "find_opt k acc (as @ [\<lparr>rr_Header = h, rr_Body = OPTResource os\<rparr>]) = Some (k + length as)"
  by (induction k acc as rule: find_opt.induct) (auto split: rbody.splits)

lemma find_opt_none: "\<forall>r\<in>set as. \<exists>x. rr_Body r = OtherBody x \<Longrightarrow> find_opt k acc as = acc"
  by (induction k acc as rule: find_opt.induct) (auto split: rbody.splits)

lemma find_opt_last:
  "rr_Body a = OPTResource os \<Longrightarrow> \<forall>r\<in>set post. \<exists>x. rr_Body r = OtherBody x \<Longrightarrow>
     find_opt k acc (pre @ a # post) = Some (k + length pre)"
  by (induction pre arbitrary: k acc) (auto simp: find_opt_none split: rbody.splits)

lemma find_opt_bodies: "map rr_Body as = map rr_Body bs \<Longrightarrow> find_opt k acc as = find_opt k acc bs"
proof (induction k acc as arbitrary: bs rule: find_opt.induct)
  case (2 k acc a as)
  then show ?case by (cases bs) (auto split: rbody.splits)
qed simp

lemma opt_options_bodies:
  "map rr_Body as = map rr_Body bs \<Longrightarrow> i < length as \<Longrightarrow> opt_options (as ! i) = opt_options (bs ! i)"
  by (metis length_map nth_map opt_options_def)

lemma ensure_opt_Some:
  assumes "ensure_opt cd msg = Inr (Some (m1, i))"
  obtains os where "i < length (m_Additionals m1)" "rr_Body (m_Additionals m1 ! i) = OPTResource os"
    "\<forall>opt\<in>set os. op_Code opt \<noteq> OptResourcePaddingCode"
    "find_opt 0 None (m_Additionals m1) = Some i"
    "\<exists>extra. m1 = msg\<lparr>m_Additionals := m_Additionals msg @ extra\<rparr>"
proof (cases "find_opt 0 None (m_Additionals msg)")
  case None
  with assms obtain h where "m1 = msg\<lparr>m_Additionals := m_Additionals msg @ [\<lparr>rr_Header = h, rr_Body = OPTResource []\<rparr>]\<rparr>"
    "i = length (m_Additionals msg)"
    by (auto simp: ensure_opt_def split: sum.splits)
  then show ?thesis by (intro that [of "[]"]) (auto simp: find_opt_snoc)
next
  case (Some j)
  with assms have "m1 = msg" "j = i"
    and no: "\<not> list_ex (\<lambda>opt. op_Code opt = OptResourcePaddingCode) (opt_options (m_Additionals msg ! i))"
    by (auto simp: ensure_opt_def split: if_splits)
  moreover obtain os where "rr_Body (m_Additionals msg ! i) = OPTResource os"
    using find_opt_SomeD(2) [OF Some] calculation by blast
  moreover have "\<exists>extra. msg = msg\<lparr>m_Additionals := m_Additionals msg @ extra\<rparr>"
    by (rule exI [of _ "[]"]) simp
  ultimately show ?thesis
    using find_opt_SomeD(1) [OF Some] Some by (intro that [of os]) (auto simp: opt_options_def list_ex_iff)
qed

lemma add_option_frame [simp]:
  "m_ID (add_option i opt m) = m_ID m"
  "length (m_Additionals (add_option i opt m)) = length (m_Additionals m)"
  by (simp_all add: add_option_def)

lemma find_opt_same_shape:
  "list_all2 (\<lambda>a b. (\<exists>os. rr_Body a = OPTResource os) \<longleftrightarrow> (\<exists>os. rr_Body b = OPTResource os)) as bs \<Longrightarrow>
     find_opt k acc as = find_opt k acc bs"
proof (induction k acc as arbitrary: bs rule: find_opt.induct)
  case (2 k acc a as)
  then show ?case by (cases bs) (auto split: rbody.splits)
qed simp

lemma find_opt_add_option:
  "i < length (m_Additionals m) \<Longrightarrow> rr_Body (m_Additionals m ! i) = OPTResource os \<Longrightarrow>
     find_opt 0 None (m_Additionals (add_option i opt m)) = find_opt 0 None (m_Additionals m)"
  by (rule find_opt_same_shape) (auto simp: add_option_def list_all2_conv_all_nth nth_list_update)

lemma add_option_options:
  "i < length (m_Additionals m) \<Longrightarrow> rr_Body (m_Additionals m ! i) = OPTResource os \<Longrightarrow>
     opt_options (m_Additionals (add_option i opt m) ! i) = os @ [opt]"
  by (simp add: add_option_def opt_options_def)

text \<open>What a padded message is: the packed message with one padding option more.\<close>

lemma AddEdnsPadding_new:
  assumes "AddEdnsPadding cd rawMsg = Inr (out, False)"
  obtains msg m1 i b where "cd_Unpack cd rawMsg = Inr msg" "ensure_opt cd msg = Inr (Some (m1, i))"
    "cd_Pack cd m1 = Inr b" "cd_Pack cd (add_option i (getPadding (int (length b))) m1) = Inr out"
  using assms that by (auto simp: AddEdnsPadding_def Let_def split: sum.splits option.splits prod.splits)

lemma AddEdnsPadding_same:
  "AddEdnsPadding cd rawMsg = Inr (out, True) \<Longrightarrow> out = rawMsg \<and> (\<exists>msg. cd_Unpack cd rawMsg = Inr msg)"
  by (auto simp: AddEdnsPadding_def Let_def split: sum.splits option.splits prod.splits)

text \<open>Padding keeps the query's ID, which the resolvers cut out and put back.\<close>

lemma AddEdnsPadding_id:
  assumes "id_law cd" "AddEdnsPadding cd rawMsg = Inr (out, same)"
  shows "12 \<le> length out \<and> be16 out = be16 rawMsg"
proof (cases same)
  case True
  with assms AddEdnsPadding_same [of cd rawMsg out] show ?thesis by (auto simp: id_law_def)
next
  case False
  with assms(2) have "AddEdnsPadding cd rawMsg = Inr (out, False)" by simp
  then obtain msg m1 i b where *: "cd_Unpack cd rawMsg = Inr msg" "ensure_opt cd msg = Inr (Some (m1, i))"
      "cd_Pack cd m1 = Inr b" "cd_Pack cd (add_option i (getPadding (int (length b))) m1) = Inr out"
    by (rule AddEdnsPadding_new)
  have "m_ID m1 = m_ID msg" using ensure_opt_Some [OF *(2)] by (metis message.select_convs(1) message.surjective message.update_convs(6))
  moreover have "m_ID msg = be16 rawMsg" using assms(1) *(1) unfolding id_law_def by blast
  moreover have "12 \<le> length out \<and> be16 out = m_ID (add_option i (getPadding (int (length b))) m1)"
    using assms(1) *(4) unfolding id_law_def by blast
  ultimately show ?thesis by simp
qed

lemma tryServfail_id:
  assumes "id_law cd" "tryServfail cd q = Some b"
  shows "12 \<le> length b \<and> be16 b = be16 q"
proof -
  obtain m where m: "cd_Unpack cd q = Inr m"
    and p: "cd_Pack cd (m\<lparr>m_Response := True, m_RecursionAvailable := True,
          m_RCode := RCodeServerFailure, m_Additionals := []\<rparr>) = Inr b"
    using assms(2) by (auto simp: tryServfail_def Servfail_def split: sum.splits)
  have "m_ID m = be16 q" using assms(1) m unfolding id_law_def by blast
  moreover have "12 \<le> length b \<and> be16 b = m_ID (m\<lparr>m_Response := True, m_RecursionAvailable := True,
          m_RCode := RCodeServerFailure, m_Additionals := []\<rparr>)"
    using assms(1) p unfolding id_law_def by blast
  ultimately show ?thesis by simp
qed

lemma length_getPadding: "int (length (op_Data (getPadding n))) = computePaddingSize n 128"
  using computePaddingSize_range [of 128 n] by (simp add: getPadding_def PaddingBlockSize_def)

subsection \<open>A codec for examples\<close>

text \<open>
  A small wire format that satisfies the three laws: a header of 12 bytes, then at most one resource,
  an OPT with its options. It only serves to apply the theorems to concrete queries.
\<close>

definition opt_wire :: "dns_option \<Rightarrow> bytes" where
  "opt_wire opt = enc16 (op_Code opt) @ enc16 (of_nat (length (op_Data opt))) @ op_Data opt"

fun opts_parse :: "nat \<Rightarrow> bytes \<Rightarrow> dns_option list option" where
  "opts_parse f [] = Some []"
| "opts_parse (Suc f) (a # b # c # d # r) =
     (let n = unat (be16 [c, d]) in
      if length r < n then None
      else map_option (Cons \<lparr>op_Code = be16 [a, b], op_Data = take n r\<rparr>) (opts_parse f (drop n r)))"
| "opts_parse f r = None"

definition sample_Unpack :: "bytes \<Rightarrow> goerr + unit message" where
  "sample_Unpack b =
     (let m = (\<lambda>as. \<lparr>m_ID = be16 b, m_Response = False, m_RecursionAvailable = False, m_RCode = 0,
                m_Questions = [], m_Additionals = as, m_Rest = ()\<rparr>) in
      if length b < 12 then Inl (EMsg ''unpacking header'')
      else case drop 12 b of
        [] \<Rightarrow> Inr (m [])
      | t # r \<Rightarrow> (case opts_parse (length r) r of
            None \<Rightarrow> Inl (EMsg ''unpacking additional'')
          | Some os \<Rightarrow> Inr (m [\<lparr>rr_Header = (), rr_Body = OPTResource os\<rparr>])))"

definition sample_header :: "unit message \<Rightarrow> bytes" where
  "sample_header m = enc16 (m_ID m) @ [if m_Response m then 128 else 0, of_nat (m_RCode m)] @ replicate 8 0"

definition sample_Pack :: "unit message \<Rightarrow> goerr + bytes" where
  "sample_Pack m =
     (case map rr_Body (m_Additionals m) of
        [] \<Rightarrow> Inr (sample_header m)
      | [OPTResource os] \<Rightarrow>
          if list_all (\<lambda>opt. length (op_Data opt) < 65536) os
          then Inr (sample_header m @ 41 # concat (map opt_wire os))
          else Inl (EMsg ''resource length'')
      | _ \<Rightarrow> Inl (EMsg ''resource''))"

definition sample_codec :: "unit codec" where
  "sample_codec = \<lparr>cd_Unpack = sample_Unpack, cd_Pack = sample_Pack, cd_SetEDNS0 = (\<lambda>_ _ _. Inr ()),
     cd_String = (\<lambda>_. [])\<rparr>"

lemma length_sample_header [simp]: "length (sample_header m) = 12"
  by (simp add: sample_header_def)

lemma be16_sample_header [simp]: "be16 (sample_header m @ r) = m_ID m" "be16 (sample_header m) = m_ID m"
  by (simp_all add: sample_header_def)

lemma opts_parse_wire:
  "list_all (\<lambda>opt. length (op_Data opt) < 65536) os \<Longrightarrow> length os \<le> f \<Longrightarrow>
     opts_parse f (concat (map opt_wire os)) = Some os"
proof (induction os arbitrary: f)
  case (Cons opt os)
  then obtain g where f: "f = Suc g" by (cases f) auto
  have "be16 [ucast (drop_bit 8 v), ucast v] = v" for v :: u16
    using be16_enc16_nil [of v] by (simp add: enc16_def)
  then show ?case using Cons by (simp add: opt_wire_def f enc16_def Let_def)
qed simp

lemma sample_Pack_cases:
  assumes "sample_Pack m = Inr b"
  obtains "m_Additionals m = []" "b = sample_header m"
  | a os where "m_Additionals m = [a]" "rr_Body a = OPTResource os"
      "list_all (\<lambda>opt. length (op_Data opt) < 65536) os" "b = sample_header m @ 41 # concat (map opt_wire os)"
  using assms that by (auto simp: sample_Pack_def split: list.splits rbody.splits if_splits)

lemma sample_id_law: "id_law sample_codec"
  unfolding id_law_def sample_codec_def
  by (auto simp: sample_Unpack_def Let_def elim!: sample_Pack_cases split: if_splits list.splits option.splits)

lemma sample_len_law: "len_law sample_codec"
  unfolding len_law_def
proof (intro allI impI)
  fix m i os opt b b'
  assume i: "i < length (m_Additionals m)" and os: "rr_Body (m_Additionals m ! i) = OPTResource os"
    and b: "cd_Pack sample_codec m = Inr b" and b': "cd_Pack sample_codec (add_option i opt m) = Inr b'"
  from b have "sample_Pack m = Inr b" by (simp add: sample_codec_def)
  then show "length b' = length b + 4 + length (op_Data opt)"
  proof (cases rule: sample_Pack_cases)
    case (2 a os')
    with i os b' show ?thesis
      by (auto simp: sample_codec_def sample_Pack_def add_option_def opt_options_def opt_wire_def split: if_splits)
  qed (use i in simp)
qed

lemma length_opts_wire: "length os \<le> length (concat (map opt_wire os))"
  by (induction os) (auto simp: opt_wire_def)

lemma sample_trip_law: "trip_law sample_codec"
  unfolding trip_law_def
proof (intro allI impI)
  fix m b
  assume "cd_Pack sample_codec m = Inr b"
  then have "sample_Pack m = Inr b" by (simp add: sample_codec_def)
  then show "\<exists>m'. cd_Unpack sample_codec b = Inr m' \<and> map rr_Body (m_Additionals m') = map rr_Body (m_Additionals m)"
  proof (cases rule: sample_Pack_cases)
    case 1
    then show ?thesis by (simp add: sample_codec_def sample_Unpack_def)
  next
    case (2 a os)
    then show ?thesis
      using opts_parse_wire [OF 2(3) length_opts_wire] by (simp add: sample_codec_def sample_Unpack_def)
  qed
qed

lemmas sample_laws = sample_id_law sample_len_law sample_trip_law

subsection \<open>Padded queries\<close>

text \<open>
  C19. A query that \<open>AddEdnsPadding\<close> pads is sent with a size that is a multiple of 128 bytes, and the
  padding took less than a block more than the option's own four bytes: the size of the query on
  the wire tells only the block. (Up to 16383 bytes, where a name's offset still fits a compression
  pointer.)
\<close>

theorem AddEdnsPadding_blocks:
  assumes "len_law cd" and "AddEdnsPadding cd rawMsg = Inr (out, False)" and "length out \<le> 16383"
  shows "128 dvd length out
    \<and> (\<exists>msg m1 i b. cd_Unpack cd rawMsg = Inr msg \<and> ensure_opt cd msg = Inr (Some (m1, i))
         \<and> cd_Pack cd m1 = Inr b \<and> length b + 4 \<le> length out \<and> length out < length b + 132)"
proof -
  obtain msg m1 i b where *: "cd_Unpack cd rawMsg = Inr msg" "ensure_opt cd msg = Inr (Some (m1, i))"
      "cd_Pack cd m1 = Inr b" "cd_Pack cd (add_option i (getPadding (int (length b))) m1) = Inr out"
    using assms(2) by (rule AddEdnsPadding_new)
  let ?p = "getPadding (int (length b))"
  obtain os where "i < length (m_Additionals m1)" "rr_Body (m_Additionals m1 ! i) = OPTResource os"
    using ensure_opt_Some [OF *(2)] by metis
  then have len: "length out = length b + 4 + length (op_Data ?p)"
    using assms(1,3) *(3,4) unfolding len_law_def by blast
  have "int (length out) = int (length b) + 4 + computePaddingSize (int (length b)) 128"
    using len length_getPadding [of "int (length b)"] by simp
  then have "128 dvd int (length out)" "int (length out) < int (length b) + 132"
    using computePaddingSize_dvd [of 128 "int (length b)"] computePaddingSize_range [of 128 "int (length b)"]
    by simp_all
  then have "128 dvd length out \<and> length b + 4 \<le> length out \<and> length out < length b + 132"
    using len by (simp add: int_dvd_int_iff [symmetric])
  then show ?thesis using * by blast
qed

definition sample_query :: bytes where
  "sample_query = [18, 52, 1, 0, 0, 1, 0, 0, 0, 0, 0, 0]"

definition sample_padded_query :: bytes where
  "sample_padded_query = [18, 52, 0, 0, 0, 0, 0, 0, 0, 0, 0, 0, 41, 0, 12, 0, 111] @ replicate 111 0"

definition sample_msg :: "unit message" where
  "sample_msg = \<lparr>m_ID = 0x1234, m_Response = False, m_RecursionAvailable = False, m_RCode = 0,
     m_Questions = [], m_Additionals = [], m_Rest = ()\<rparr>"

definition sample_opt_msg :: "dns_option list \<Rightarrow> unit message" where
  "sample_opt_msg os = sample_msg\<lparr>m_Additionals := [\<lparr>rr_Header = (), rr_Body = OPTResource os\<rparr>]\<rparr>"

lemma sample_words:
  "be16 sample_query = 0x1234" "enc16 (0x1234 :: u16) = [18, 52]" "enc16 (12 :: u16) = [0, 12]"
  "enc16 (111 :: u16) = [0, 111]"
  by code_simp+

lemma replicate8: "replicate 8 x = [x, x, x, x, x, x, x, x]"
  by (simp add: numeral_eq_Suc)

lemma sample_padding: "getPadding 13 = \<lparr>op_Code = 12, op_Data = replicate 111 0\<rparr>"
  by (simp add: getPadding_def computePaddingSize_def kOptPaddingHeaderLen_def PaddingBlockSize_def
      OptResourcePaddingCode_def)

lemma sample_query_parse: "sample_Unpack sample_query = Inr sample_msg"
proof -
  have "length sample_query = 12" by (simp add: sample_query_def)
  then show ?thesis by (simp add: sample_Unpack_def sample_msg_def sample_words)
qed

lemma sample_ensure: "ensure_opt sample_codec sample_msg = Inr (Some (sample_opt_msg [], 0))"
  by (simp add: ensure_opt_def sample_msg_def sample_opt_msg_def sample_codec_def)

lemma sample_pack:
  "sample_Pack (sample_opt_msg []) = Inr [18, 52, 0, 0, 0, 0, 0, 0, 0, 0, 0, 0, 41]"
  "sample_Pack (add_option 0 (getPadding 13) (sample_opt_msg [])) = Inr sample_padded_query"
  by (simp_all add: sample_Pack_def sample_opt_msg_def sample_msg_def sample_header_def sample_words
      add_option_def opt_options_def sample_padding opt_wire_def sample_padded_query_def replicate8)

lemma sample_padded: "AddEdnsPadding sample_codec sample_query = Inr (sample_padded_query, False)"
  using sample_query_parse sample_ensure sample_pack
  by (simp add: AddEdnsPadding_def sample_codec_def)

lemma length_sample_padded_query: "length sample_padded_query = 128"
  by (simp add: sample_padded_query_def)

theorem AddEdnsPadding_blocks_witness:
  "128 dvd length sample_padded_query
    \<and> (\<exists>msg m1 i b. cd_Unpack sample_codec sample_query = Inr msg
         \<and> ensure_opt sample_codec msg = Inr (Some (m1, i)) \<and> cd_Pack sample_codec m1 = Inr b
         \<and> length b + 4 \<le> length sample_padded_query
         \<and> length sample_padded_query < length b + 132)"
  by (rule AddEdnsPadding_blocks [OF sample_len_law sample_padded]) (simp add: length_sample_padded_query)

text \<open>A query whose last OPT resource has a padding option is left alone, and only such a one.\<close>

lemma AddEdnsPadding_respects:
  assumes "cd_Unpack cd rawMsg = Inr msg" and "m_Additionals msg = pre @ a # post" and "rr_Body a = OPTResource os"
    and "\<forall>r\<in>set post. \<exists>x. rr_Body r = OtherBody x"
  shows "AddEdnsPadding cd rawMsg = Inr (rawMsg, True) \<longleftrightarrow> (\<exists>opt\<in>set os. op_Code opt = OptResourcePaddingCode)"
proof -
  have "find_opt 0 None (m_Additionals msg) = Some (length pre)" "opt_options (m_Additionals msg ! length pre) = os"
    using find_opt_last [OF assms(3,4), of 0 None pre] assms(2,3) by (simp_all add: opt_options_def)
  then show ?thesis
    using assms(1) by (auto simp: AddEdnsPadding_def ensure_opt_def list_ex_iff Let_def split: sum.splits)
qed

lemma AddEdnsPadding_stays:
  assumes "trip_law cd" and "AddEdnsPadding cd rawMsg = Inr (out, same)"
  shows "AddEdnsPadding cd out = Inr (out, True)"
proof (cases same)
  case True
  then show ?thesis using assms(2) AddEdnsPadding_same [of cd rawMsg out] by auto
next
  case False
  then have "AddEdnsPadding cd rawMsg = Inr (out, False)" using assms(2) by simp
  then obtain msg m1 i b where "cd_Unpack cd rawMsg = Inr msg" "cd_Pack cd m1 = Inr b"
      and *: "ensure_opt cd msg = Inr (Some (m1, i))"
        "cd_Pack cd (add_option i (getPadding (int (length b))) m1) = Inr out"
    by (rule AddEdnsPadding_new)
  let ?m = "add_option i (getPadding (int (length b))) m1"
  obtain os where os: "i < length (m_Additionals m1)" "rr_Body (m_Additionals m1 ! i) = OPTResource os"
    "find_opt 0 None (m_Additionals m1) = Some i"
    using ensure_opt_Some [OF *(1)] by metis
  obtain m' where m': "cd_Unpack cd out = Inr m'"
      "map rr_Body (m_Additionals m') = map rr_Body (m_Additionals ?m)"
    using assms(1) *(2) unfolding trip_law_def by blast
  have "find_opt 0 None (m_Additionals m') = Some i"
    using find_opt_bodies [OF m'(2)] find_opt_add_option [OF os(1,2)] os(3) by simp
  moreover have "opt_options (m_Additionals m' ! i) = os @ [getPadding (int (length b))]"
    using opt_options_bodies [OF m'(2)] m'(2) os(1,2)
    by (metis add_option_frame(2) length_map add_option_options)
  ultimately show ?thesis
    using m'(1) by (simp add: AddEdnsPadding_def ensure_opt_def list_ex_iff getPadding_def)
qed

text \<open>
  C37. Padding is done once. A query with an OPT record is returned as it is, the same slice, exactly when the last
  OPT record of its additional section has a padding option, anywhere among its options: the stub resolver's padding is kept. And
  what \<open>AddEdnsPadding\<close> returned for any query it returns as it is when it is called again.
\<close>

theorem AddEdnsPadding_idempotent:
  assumes "trip_law cd"
  shows "(\<forall>msg pre a post os. cd_Unpack cd rawMsg = Inr msg \<and> m_Additionals msg = pre @ a # post \<and> rr_Body a = OPTResource os
        \<and> (\<forall>r\<in>set post. \<exists>x. rr_Body r = OtherBody x) \<longrightarrow>
        (AddEdnsPadding cd rawMsg = Inr (rawMsg, True) \<longleftrightarrow> (\<exists>opt\<in>set os. op_Code opt = 12)))
    \<and> (\<forall>out same. AddEdnsPadding cd rawMsg = Inr (out, same) \<longrightarrow> AddEdnsPadding cd out = Inr (out, True))"
  using AddEdnsPadding_respects [of cd rawMsg] AddEdnsPadding_stays [OF assms, of rawMsg]
  by (auto simp: OptResourcePaddingCode_def)

text \<open>A stub resolver's query with one byte of padding and a client subnet behind it; and the padded query.\<close>

definition stub_query :: bytes where
  "stub_query = [18, 52, 0, 0, 0, 0, 0, 0, 0, 0, 0, 0, 41, 0, 12, 0, 1, 0, 0, 8, 0, 0]"

lemma stub_query_parse:
  "sample_Unpack stub_query = Inr (sample_opt_msg [\<lparr>op_Code = 12, op_Data = [0]\<rparr>, \<lparr>op_Code = 8, op_Data = []\<rparr>])"
proof -
  have w: "be16 stub_query = 0x1234" "unat (be16 [0, 1]) = 1" "unat (be16 [0, 0]) = 0" "be16 [0, 12] = (12 :: u16)" "be16 [0, 8] = (8 :: u16)"
    by code_simp+
  have "opts_parse 9 [0, 12, 0, 1, 0, 0, 8, 0, 0] = Some [\<lparr>op_Code = 12, op_Data = [0]\<rparr>, \<lparr>op_Code = 8, op_Data = []\<rparr>]"
    by (simp add: w Let_def eval_nat_numeral)
  moreover have "length stub_query = 22" "drop 12 stub_query = 41 # [0, 12, 0, 1, 0, 0, 8, 0, 0]" by (simp_all add: stub_query_def)
  ultimately show ?thesis by (simp add: sample_Unpack_def sample_opt_msg_def sample_msg_def w)
qed

theorem AddEdnsPadding_idempotent_witness:
  "AddEdnsPadding sample_codec stub_query = Inr (stub_query, True)
    \<and> AddEdnsPadding sample_codec sample_padded_query = Inr (sample_padded_query, True)"
proof -
  have "cd_Unpack sample_codec stub_query = Inr (sample_opt_msg [\<lparr>op_Code = 12, op_Data = [0]\<rparr>, \<lparr>op_Code = 8, op_Data = []\<rparr>])"
    using stub_query_parse by (simp add: sample_codec_def)
  then have "AddEdnsPadding sample_codec stub_query = Inr (stub_query, True)
      \<longleftrightarrow> (\<exists>opt\<in>set [\<lparr>op_Code = 12, op_Data = [0]\<rparr>, \<lparr>op_Code = 8, op_Data = []\<rparr>]. op_Code opt = 12)"
    using AddEdnsPadding_idempotent [OF sample_trip_law, of stub_query]
    by (elim conjE allE [of _ "sample_opt_msg _"] allE [of _ "[]"]) (auto simp: sample_opt_msg_def)
  then show ?thesis using AddEdnsPadding_idempotent [OF sample_trip_law, of sample_query] sample_padded by auto
qed

end
