(* ===== verification/Dial.thy ===== *)
theory Dial
  imports IPMap Retrier
begin

section \<open>Dialling a host's addresses (shared by proxy/doh and proxy/dot)\<close>

text \<open>
  The body that \<open>resolver.dial\<close> of \<open>proxy/doh/doh.go\<close> and \<open>resolver.dialPlainTCP\<close> of \<open>proxy/dot/dot.go\<close>
  have in common: the confirmed address first, then all known ones in random order. What the
  network answers to a dial is a function of the address; \<open>tries\<close> records the addresses dialled.
\<close>

subsection \<open>The loop\<close>

record net_env =
  ne_before :: gotime
  ne_dial :: "tcpaddr \<Rightarrow> goerr + tcp_conn"
  ne_after :: gotime
  ne_lookup :: "string \<Rightarrow> ip list \<times> goerr option"
  ne_draw :: "nat \<Rightarrow> nat"

definition split_dial :: "net_env \<Rightarrow> int \<Rightarrow> ip \<Rightarrow> goerr + retrier" where
  "split_dial ne port a =
     (let addr = \<lparr>ta_ip = a, ta_port = port\<rparr> in
      DialWithSplitRetry (ne_before ne) (ne_dial ne addr) (ne_after ne) addr None)"

type_synonym dial_result = "ip list \<times> retrier option \<times> goerr option"

fun try_all :: "net_env \<Rightarrow> int \<Rightarrow> ip \<Rightarrow> goerr option \<Rightarrow> ip list \<Rightarrow> dial_result" where
  "try_all ne port confirmed err [] = ([], None, err)"
| "try_all ne port confirmed err (a # as) =
     (if ip_Equal a confirmed then try_all ne port confirmed err as
      else case split_dial ne port a of
        Inr conn \<Rightarrow> ([a], Some conn, None)
      | Inl e \<Rightarrow> (case try_all ne port confirmed (Some e) as of (ts, r) \<Rightarrow> (a # ts, r)))"

definition dial_ips :: "net_env \<Rightarrow> string \<Rightarrow> int \<Rightarrow> ipMap \<Rightarrow> ipMap \<times> dial_result" where
  "dial_ips ne domain port m =
     (case Get (ne_lookup ne) domain m of
        (m1, ips) \<Rightarrow>
          let confirmed = Confirmed (at_set ips m1) in
          if confirmed \<noteq> [] then
            (case split_dial ne port confirmed of
               Inr conn \<Rightarrow> (m1, [confirmed], Some conn, None)
             | Inl err \<Rightarrow>
                 let m2 = upd_set ips (Disconfirm confirmed) m1 in
                 (case try_all ne port confirmed (Some err) (GetAll (ne_draw ne) (at_set ips m2)) of
                    (ts, r) \<Rightarrow> (m2, confirmed # ts, r)))
          else (m1, try_all ne port confirmed None (GetAll (ne_draw ne) (at_set ips m1))))"

text \<open>The loop of both \<open>NewResolver\<close> functions over the bootstrap addresses.\<close>

definition add_addrs :: "(string \<Rightarrow> ip list \<times> goerr option) \<Rightarrow> nat \<Rightarrow> string list \<Rightarrow> ipMap \<Rightarrow> ipMap" where
  "add_addrs lookup ips addrs m = fold (\<lambda>addr. upd_set ips (Add (lookup addr))) addrs m"

subsection \<open>What it promises\<close>

text \<open>The network treats the two forms of an IPv4 address alike.\<close>

definition norm_net :: "net_env \<Rightarrow> bool" where
  "norm_net ne \<longleftrightarrow> (\<forall>a b p. ip_norm a = ip_norm b \<longrightarrow>
     isl (ne_dial ne \<lparr>ta_ip = a, ta_port = p\<rparr>) = isl (ne_dial ne \<lparr>ta_ip = b, ta_port = p\<rparr>))"

definition answers :: "net_env \<Rightarrow> int \<Rightarrow> ip \<Rightarrow> bool" where
  "answers ne port a \<longleftrightarrow> \<not> isl (ne_dial ne \<lparr>ta_ip = a, ta_port = port\<rparr>)"

lemma split_dial_answers: "answers ne port a \<longleftrightarrow> (\<exists>r. split_dial ne port a = Inr r)"
  by (cases "ne_dial ne \<lparr>ta_ip = a, ta_port = port\<rparr>")
    (auto simp: answers_def split_dial_def DialWithSplitRetry_def)

lemma split_dial_addr: "split_dial ne port a = Inr r \<Longrightarrow> rt_addr r = \<lparr>ta_ip = a, ta_port = port\<rparr>"
  by (auto simp: split_dial_def DialWithSplitRetry_def Let_def split: sum.splits)

definition candidates :: "ip \<Rightarrow> ip list \<Rightarrow> ip list" where
  "candidates confirmed as = filter (\<lambda>a. \<not> ip_Equal a confirmed) as"

text \<open>The loop dials the candidates in order up to the first that answers.\<close>

lemma try_all_tries:
  "try_all ne port confirmed err as = (ts, c, e) \<Longrightarrow>
     (\<exists>us. candidates confirmed as = ts @ us)
     \<and> (c = None \<longrightarrow> ts = candidates confirmed as \<and> list_all (\<lambda>a. \<not> answers ne port a) ts
          \<and> (e = None \<longleftrightarrow> err = None \<and> candidates confirmed as = []))
     \<and> (\<forall>r. c = Some r \<longrightarrow> e = None \<and> ts \<noteq> [] \<and> answers ne port (last ts) \<and> split_dial ne port (last ts) = Inr r)"
proof (induction as arbitrary: err ts)
  case Nil
  then show ?case by (auto simp: candidates_def)
next
  case (Cons a as)
  show ?case
  proof (cases "ip_Equal a confirmed")
    case True
    with Cons.prems have tr: "try_all ne port confirmed err as = (ts, c, e)" by simp
    have eq: "candidates confirmed (a # as) = candidates confirmed as"
      using True by (simp add: candidates_def)
    show ?thesis unfolding eq by (rule Cons.IH [OF tr])
  next
    case False
    show ?thesis
    proof (cases "split_dial ne port a")
      case (Inl err1)
      then have "\<not> answers ne port a" by (simp add: split_dial_answers)
      moreover obtain ts1 where t: "try_all ne port confirmed (Some err1) as = (ts1, c, e)" "ts = a # ts1"
        using Cons.prems False Inl by (auto split: prod.splits)
      ultimately show ?thesis using Cons.IH [OF t(1)] False by (auto simp: candidates_def)
    next
      case (Inr r)
      then show ?thesis using Cons.prems False split_dial_answers by (auto simp: candidates_def)
    qed
  qed
qed

lemma answers_norm: "norm_net ne \<Longrightarrow> ip_norm a = ip_norm b \<Longrightarrow> answers ne port a = answers ne port b"
  unfolding norm_net_def answers_def by metis

lemma candidates_no_confirmed: "set_ok s \<Longrightarrow> candidates [] (GetAll draw s) = GetAll draw s"
  by (auto simp: candidates_def set_ok_def intro!: filter_True dest: valid_ip_nonempty)

lemma distinct_GetAll: "set_ok s \<Longrightarrow> distinct (map ip_norm (GetAll draw s))"
  using GetAll_permutation [of draw s]
  by (metis mset_map mset_eq_imp_distinct_iff set_ok_def)

lemma distinct_candidates:
  assumes "set_ok s" "c = [] \<or> valid_ip c"
  shows "distinct (ip_norm c # map ip_norm (candidates c (GetAll draw s)))"
  using distinct_GetAll [OF assms(1), of draw]
  by (auto simp: candidates_def ip_Equal_norm distinct_map inj_on_def)

lemma pool_of_iff: "(\<exists>a\<in>set (is_ips s). ip_norm a = x) \<longleftrightarrow> x \<in> pool_of s"
  by (auto simp: pool_of_def)

lemma try_all_success:
  assumes "norm_net ne" "try_all ne port confirmed err (GetAll draw s) = (ts, c, e)"
    and "confirmed = [] \<or> \<not> answers ne port confirmed" "set_ok s"
  shows "c \<noteq> None \<longleftrightarrow> (\<exists>a\<in>set (is_ips s). answers ne port a)"
proof
  note spec = try_all_tries [OF assms(2)]
  show "\<exists>a\<in>set (is_ips s). answers ne port a" if c: "c \<noteq> None"
  proof -
    have "last ts \<in> set (candidates confirmed (GetAll draw s))"
      using spec c by (metis Un_iff last_in_set option.exhaust set_append)
    then show ?thesis using spec c by (auto simp: candidates_def)
  qed
  show "c \<noteq> None" if known: "\<exists>a\<in>set (is_ips s). answers ne port a"
  proof
    assume "c = None"
    then have none: "list_all (\<lambda>a. \<not> answers ne port a) (candidates confirmed (GetAll draw s))"
      using spec by auto
    obtain a where a: "a \<in> set (is_ips s)" "answers ne port a" using known by blast
    then have "ip_Equal a confirmed" using none by (auto simp: candidates_def list_all_iff)
    then have norm: "ip_norm a = ip_norm confirmed" by (simp add: ip_Equal_norm)
    moreover have "confirmed \<noteq> []"
      using norm a assms(4) ip_norm_nonempty [of a] by (auto simp: set_ok_def)
    ultimately show False using assms(1,3) a answers_norm [of ne a confirmed port] by blast
  qed
qed

text \<open>
  The contract of one dial, over the set \<open>s\<close> that the map holds for the host when the dial begins.
\<close>

definition dial_contract :: "net_env \<Rightarrow> int \<Rightarrow> IPSet \<Rightarrow> dial_result \<Rightarrow> bool" where
  "dial_contract ne port s res = (case res of (ts, c, e) \<Rightarrow>
     (c \<noteq> None \<longleftrightarrow> (\<exists>a\<in>set (is_ips s). answers ne port a))
   \<and> (\<forall>r. c = Some r \<longrightarrow> e = None \<and> ts \<noteq> [] \<and> rt_addr r = \<lparr>ta_ip = last ts, ta_port = port\<rparr>)
   \<and> (c = None \<longrightarrow> (e = None \<longleftrightarrow> is_ips s = []))
   \<and> distinct (map ip_norm ts) \<and> ip_norm ` set ts \<subseteq> pool_of s
   \<and> (is_confirmed s \<noteq> [] \<longrightarrow> ts \<noteq> [] \<and> hd ts = is_confirmed s))"

lemma try_all_contract:
  assumes net: "norm_net ne" and s: "set_ok s" "is_confirmed s = []"
    and t: "try_all ne port [] None (GetAll draw s) = (ts, c, e)"
  shows "dial_contract ne port s (ts, c, e)"
proof -
  note spec = try_all_tries [OF t] and cand = candidates_no_confirmed [OF s(1), of draw]
  obtain us where us: "GetAll draw s = ts @ us" using spec cand by auto
  then have "distinct (map ip_norm ts)" using distinct_GetAll [OF s(1), of draw] by simp
  moreover have sub: "set ts \<subseteq> set (is_ips s)" using us set_GetAll [of draw s] by (metis Un_upper1 set_append)
  moreover have "c = None \<longrightarrow> (e = None \<longleftrightarrow> is_ips s = [])"
    using spec cand Empty_GetAll [of s draw] by (auto simp: Empty_def)
  moreover have "ip_norm ` set ts \<subseteq> pool_of s" using sub by (auto simp: pool_of_def)
  ultimately show ?thesis
    using spec try_all_success [OF net t _ s(1)] s(2) split_dial_addr
    by (auto simp: dial_contract_def)
qed

lemma Disconfirm_fields [simp]: "is_ips (Disconfirm a s) = is_ips s"
  by (simp add: Disconfirm_def)

lemma GetAll_Disconfirm [simp]: "GetAll draw (Disconfirm a s) = GetAll draw s"
  by (simp add: GetAll_def)

lemma confirmed_known:
  assumes "set_ok s" "is_confirmed s \<noteq> []"
  obtains a where "a \<in> set (is_ips s)" "ip_norm a = ip_norm (is_confirmed s)"
  using assms by (auto simp: set_ok_def pool_of_def image_iff)

lemma confirmed_first_contract:
  assumes net: "norm_net ne" and s: "set_ok s" and c0: "is_confirmed s = c0" "c0 \<noteq> []"
    and no: "\<not> answers ne port c0"
    and t: "try_all ne port c0 (Some err) (GetAll draw s) = (ts, c, e)"
  shows "dial_contract ne port s (c0 # ts, c, e)"
proof -
  note spec = try_all_tries [OF t]
  obtain us where us: "candidates c0 (GetAll draw s) = ts @ us" using spec by blast
  have sub: "set ts \<subseteq> set (is_ips s)" and diff: "ip_norm c0 \<notin> ip_norm ` set ts"
  proof -
    have "set ts \<subseteq> set (candidates c0 (GetAll draw s))" using us by (metis Un_upper1 set_append)
    then show "set ts \<subseteq> set (is_ips s)" "ip_norm c0 \<notin> ip_norm ` set ts"
      by (auto simp: candidates_def ip_Equal_norm)
  qed
  have "distinct (map ip_norm (candidates c0 (GetAll draw s)))"
    using distinct_GetAll [OF s, of draw] by (simp add: candidates_def distinct_map_filter)
  then have "distinct (map ip_norm ts)" using us by simp
  moreover obtain a where "a \<in> set (is_ips s)" "ip_norm a = ip_norm c0"
    using confirmed_known [OF s] c0 by metis
  then have "ip_norm c0 \<in> pool_of s" "is_ips s \<noteq> []" using pool_of_iff [of s "ip_norm c0"] by auto
  moreover have "ip_norm ` set ts \<subseteq> pool_of s" using sub by (auto simp: pool_of_def)
  moreover have "c = None \<longrightarrow> e \<noteq> None" using spec by auto
  ultimately show ?thesis
    using spec try_all_success [OF net t _ s] no c0 split_dial_addr diff
    by (auto simp: dial_contract_def)
qed

lemma confirmed_works_contract:
  assumes net: "norm_net ne" and s: "set_ok s" and c0: "is_confirmed s = c0" "c0 \<noteq> []"
    and r: "split_dial ne port c0 = Inr r"
  shows "dial_contract ne port s ([c0], Some r, None)"
proof -
  obtain a where a: "a \<in> set (is_ips s)" "ip_norm a = ip_norm c0"
    using confirmed_known [OF s] c0 by metis
  moreover have "answers ne port c0" using r by (simp add: split_dial_answers)
  then have "answers ne port a" using answers_norm [OF net a(2)] by simp
  moreover have "ip_norm c0 \<in> pool_of s" using a pool_of_iff [of s "ip_norm c0"] by blast
  ultimately show ?thesis
    using c0 split_dial_addr [OF r] by (auto simp: dial_contract_def)
qed

lemma at_set_upd: "a < length (im_heap m) \<Longrightarrow> at_set a (upd_set a f m) = f (at_set a m)"
  by (simp add: at_set_def upd_set_def)

lemma map_ok_at_set: "map_ok m \<Longrightarrow> a < length (im_heap m) \<Longrightarrow> set_ok (at_set a m)"
  by (simp add: map_ok_def list_all_length at_set_def)

text \<open>The map after a dial: the host's set exists, and a confirmed address that failed is disconfirmed.\<close>

lemma dial_ips_map:
  assumes "Get (ne_lookup ne) domain m = (m1, a)"
  shows "fst (dial_ips ne domain port m)
    = (if is_confirmed (at_set a m1) \<noteq> [] \<and> \<not> answers ne port (is_confirmed (at_set a m1))
       then upd_set a (Disconfirm (is_confirmed (at_set a m1))) m1 else m1)"
  using assms split_dial_answers [of ne port "is_confirmed (at_set a m1)"]
  by (auto simp: dial_ips_def Let_def Confirmed_def split: sum.splits prod.splits)

lemma dial_ips_contract:
  assumes net: "norm_net ne" and m: "map_ok m" "list_all valid_ip (fst (ne_lookup ne domain))"
    and g: "Get (ne_lookup ne) domain m = (m1, a)"
  shows "dial_contract ne port (at_set a m1) (snd (dial_ips ne domain port m))"
proof -
  let ?s = "at_set a m1"
  have a: "a < length (im_heap m1)" and ok: "set_ok ?s"
    using Get_map_ok [OF m(1) m(2) g] map_ok_at_set by auto
  show ?thesis
  proof (cases "is_confirmed ?s = []")
    case True
    obtain ts c e where t: "try_all ne port [] None (GetAll (ne_draw ne) ?s) = (ts, c, e)"
      by (metis prod_cases3)
    show ?thesis using try_all_contract [OF net ok True t] True t g
      by (simp add: dial_ips_def Let_def Confirmed_def)
  next
    case False
    show ?thesis
    proof (cases "split_dial ne port (is_confirmed ?s)")
      case (Inl err)
      obtain ts c e where t: "try_all ne port (is_confirmed ?s) (Some err) (GetAll (ne_draw ne) ?s) = (ts, c, e)"
        by (metis prod_cases3)
      have "\<not> answers ne port (is_confirmed ?s)" using Inl by (simp add: split_dial_answers)
      from confirmed_first_contract [OF net ok refl False this t] show ?thesis
        using False t g Inl a by (simp add: dial_ips_def Let_def Confirmed_def at_set_upd)
    next
      case (Inr r)
      from confirmed_works_contract [OF net ok refl False Inr] show ?thesis
        using False g Inr by (simp add: dial_ips_def Let_def Confirmed_def)
    qed
  qed
qed

lemma dial_ips_map_ok:
  assumes "map_ok m" "list_all valid_ip (fst (ne_lookup ne domain))"
  shows "map_ok (fst (dial_ips ne domain port m))"
proof -
  obtain m1 a where g: "Get (ne_lookup ne) domain m = (m1, a)" by (cases "Get (ne_lookup ne) domain m")
  have "map_ok m1 \<and> a < length (im_heap m1)" by (rule Get_map_ok [OF assms g])
  then show ?thesis
    unfolding dial_ips_map [OF g]
    using map_ok_at_set [of m1 a] by (auto simp: at_set_def intro!: map_ok_upd set_ok_Disconfirm)
qed

lemma add_addrs_eq:
  "a < length (im_heap m) \<Longrightarrow>
     add_addrs lookup a addrs m = upd_set a (fold (\<lambda>addr. Add (lookup addr)) addrs) m"
  by (induction addrs arbitrary: m) (auto simp: add_addrs_def upd_set_def)

lemma fold_Add:
  "set_ok s \<Longrightarrow> (\<And>h. list_all valid_ip (fst (lookup h))) \<Longrightarrow>
     set_ok (fold (\<lambda>addr. Add (lookup addr)) addrs s)
     \<and> pool_of (fold (\<lambda>addr. Add (lookup addr)) addrs s)
         = ip_norm ` (\<Union>h\<in>set addrs. set (fst (lookup h))) \<union> pool_of s"
  by (induction addrs arbitrary: s) (auto simp: set_ok_Add pool_of_Add)

lemma add_addrs_new:
  assumes "Get lookup host NewIPMap = (m1, a)" "\<And>h. list_all valid_ip (fst (lookup h))"
  shows "map_ok (add_addrs lookup a addrs m1)
    \<and> Get lookup host (add_addrs lookup a addrs m1) = (add_addrs lookup a addrs m1, a)
    \<and> pool_of (at_set a (add_addrs lookup a addrs m1))
        = ip_norm ` (\<Union>h\<in>insert host (set addrs). set (fst (lookup h)))"
proof -
  have m1: "map_ok m1 \<and> a < length (im_heap m1)"
    using Get_map_ok [OF _ assms(2) assms(1)] by (simp add: map_ok_def NewIPMap_def)
  have s: "at_set a m1 = Add (lookup host) empty_set" "im_m m1 host = Some a"
    using assms(1) by (auto simp: Get_def NewIPMap_def Let_def at_set_def)
  have "set_ok (at_set a m1)" using m1 map_ok_at_set by blast
  note f = fold_Add [OF this assms(2), where addrs = addrs]
  have "map_ok (upd_set a (fold (\<lambda>addr. Add (lookup addr)) addrs) m1)"
    using m1 f by (intro map_ok_upd) (auto simp: at_set_def)
  moreover have "Get lookup host (upd_set a g m1) = (upd_set a g m1, a)" for g
    using s(2) by (simp add: Get_def upd_set_def)
  ultimately show ?thesis
    using f m1 s(1) by (simp add: add_addrs_eq at_set_upd pool_of_Add image_Un Un_commute)
qed

text \<open>A network for examples: two addresses for every name, and every dial answered.\<close>

definition sample_host :: "net_env" where
  "sample_host = \<lparr>ne_before = 0, ne_dial = (\<lambda>a. Inr (tcp_new [])), ne_after = 10,
     ne_lookup = (\<lambda>h. ([[8, 8, 8, 8], [8, 8, 4, 4]], None)), ne_draw = (\<lambda>i. 0)\<rparr>"

lemma sample_host_ok: "norm_net sample_host" "\<forall>h. list_all valid_ip (fst (ne_lookup sample_host h))"
  by (simp_all add: norm_net_def sample_host_def valid_ip_def)

end
