(* ===== verification/Resolver.thy ===== *)
theory Resolver
  imports Go_IO DnsMsg
begin

section \<open>The resolver interface and its clients (proxy/doh/doh.go, app/session/probe.go)\<close>

text \<open>
  What \<open>Resolver\<close> of \<open>doh.go\<close> promises (the locale \<open>dns_resolver\<close>) and the code that only relies on
  the interface: \<open>forwardQuery\<close>, \<open>forwardQueryAndCheck\<close>, the DNS-over-TCP acceptor \<open>Accept\<close> and the
  probe. A resolver is a state with a \<open>Query\<close> function; \<open>None\<close> stands for a panic. The two resolvers
  are interpreted in the theories \<open>DohResolver\<close> and \<open>DotResolver\<close>.
\<close>

subsection \<open>DNS over TCP frames\<close>

definition frame :: "bytes \<Rightarrow> bytes" where
  "frame msg = enc16 (of_nat (length msg)) @ msg"

lemma length_frame [simp]: "length (frame msg) = length msg + 2"
  by (simp add: frame_def)

lemma frame_inj: "length a < 65536 \<Longrightarrow> length b < 65536 \<Longrightarrow> frame a @ r = frame b @ s \<Longrightarrow> a = b \<and> r = s"
proof -
  assume len: "length a < 65536" "length b < 65536" and eq: "frame a @ r = frame b @ s"
  then have "be16 (frame a @ r) = be16 (frame b @ s)" by simp
  then have "(of_nat (length a) :: u16) = of_nat (length b)" by (simp add: frame_def)
  then have "length a = length b" using len by (metis unat_of_nat16)
  with eq show ?thesis by (simp add: frame_def)
qed

subsection \<open>Events\<close>

text \<open>\<open>Summary\<close>, with the latency in nanoseconds, and the calls a resolver makes to its \<open>Listener\<close>.\<close>

record Summary =
  sm_Latency :: duration
  sm_Query :: bytes
  sm_Response :: "bytes option"
  sm_Server :: string
  sm_Status :: dstatus
  sm_HTTPStatus :: nat

datatype event = OnQuery string | OnResponse Summary

text \<open>The line of \<open>LogDNSResolverQuery\<close> (\<open>resolver_log.go\<close>).\<close>

datatype log_level = LDebug | LInfo | LWarn | LError

record dns_log =
  dl_level :: log_level
  dl_transport :: string
  dl_server :: string
  dl_latencyMs :: int
  dl_respLen :: nat
  dl_names :: "goerr \<times> nat + string list"
  dl_err :: "goerr option option"

text \<open>
  \<open>dl_err\<close>: no error attribute, or one whose value is \<open>"cancelled"\<close> (\<open>Some None\<close>) or the error.
  \<open>Milliseconds()\<close> truncates towards zero.
\<close>

definition LogDNSResolverQuery :: "'x codec \<Rightarrow> string \<Rightarrow> string \<Rightarrow> bytes \<Rightarrow> bytes option \<Rightarrow> gotime \<Rightarrow> gotime
    \<Rightarrow> goerr option \<Rightarrow> bool \<Rightarrow> dns_log" where
  "LogDNSResolverQuery cd transport server q response before after err cancelled =
     \<lparr>dl_level = (if err \<noteq> None \<and> cancelled then LDebug else if err \<noteq> None then LWarn else LInfo),
      dl_transport = transport, dl_server = server,
      dl_latencyMs = (if before \<le> after then (after - before) div 1000000 else - ((before - after) div 1000000)),
      dl_respLen = (case response of None \<Rightarrow> 0 | Some b \<Rightarrow> length b),
      dl_names = (case QueryQuestionNames cd q of Inl e \<Rightarrow> Inl (e, length q) | Inr names \<Rightarrow> Inr names),
      dl_err = (if err \<noteq> None \<and> cancelled then Some None else if err \<noteq> None then Some err else None)\<rparr>"

subsection \<open>Clients of a resolver\<close>

type_synonym 's query_fun = "'s \<Rightarrow> bytes \<Rightarrow> ('s \<times> bytes option \<times> goerr option) option"
type_synonym 'w write_fun = "'w \<Rightarrow> bytes \<Rightarrow> 'w \<times> nat \<times> goerr option"

definition the_bytes :: "bytes option \<Rightarrow> bytes" where
  "the_bytes r = (case r of None \<Rightarrow> [] | Some b \<Rightarrow> b)"

text \<open>What \<open>forwardQuery\<close> does with the result of \<open>Query\<close>, and the whole of it.\<close>

definition forward_reply :: "'w write_fun \<Rightarrow> 'w \<Rightarrow> bytes option \<Rightarrow> goerr option \<Rightarrow> 'w \<times> goerr option" where
  "forward_reply wr c resp qerr =
     (if resp = None \<and> qerr \<noteq> None then (c, qerr)
      else let rlen = length (the_bytes resp) in
        if 65535 < rlen then (c, Some (EMsg ''Oversize response''))
        else let rlbuf = frame (the_bytes resp) in
          (case wr c rlbuf of
             (c', n, err) \<Rightarrow>
               if err \<noteq> None then (c', err)
               else if n \<noteq> length rlbuf then (c', Some (EMsg ''Incomplete response write''))
               else (c', qerr)))"

definition forwardQuery :: "'s query_fun \<Rightarrow> 's \<Rightarrow> bytes \<Rightarrow> 'w write_fun \<Rightarrow> 'w
    \<Rightarrow> ('s \<times> 'w \<times> goerr option) option" where
  "forwardQuery qf r q wr c =
     (case qf r q of
        None \<Rightarrow> None
      | Some (r', resp, qerr) \<Rightarrow> Some (r', forward_reply wr c resp qerr))"

text \<open>The last component: the writer was closed.\<close>

definition forwardQueryAndCheck :: "'s query_fun \<Rightarrow> 's \<Rightarrow> bytes \<Rightarrow> 'w write_fun \<Rightarrow> 'w
    \<Rightarrow> ('s \<times> 'w \<times> bool) option" where
  "forwardQueryAndCheck qf r q wr c =
     map_option (\<lambda>(r', c', err). (r', c', err \<noteq> None)) (forwardQuery qf r q wr c)"

text \<open>
  \<open>Accept\<close>: the queries it starts a goroutine for, in order, and why it stopped; it closes the socket
  then. \<open>c.Read\<close> is one read and not \<open>io.ReadFull\<close>.
\<close>

datatype accept_end = CleanShutdown | LengthError goerr | ShortLength | QueryError goerr | ShortQuery nat nat

lemma src_read_size:
  "src_read cap s = (d, e, s') \<Longrightarrow> length (concat (map fst s')) + length d \<le> length (concat (map fst s))"
  by (auto simp: src_read_def split: list.splits if_splits)

function accept_loop :: "source \<Rightarrow> bytes list \<times> accept_end" where
  "accept_loop s =
     (case src_read 2 s of (qlbuf, err, s1) \<Rightarrow>
        if length qlbuf = 0 then ([], CleanShutdown)
        else case err of Some e \<Rightarrow> ([], LengthError e)
        | None \<Rightarrow>
          if length qlbuf < 2 then ([], ShortLength)
          else let qlen = unat (be16 qlbuf) in
            (case src_read qlen s1 of (q, err', s2) \<Rightarrow>
               case err' of Some e \<Rightarrow> ([], QueryError e)
               | None \<Rightarrow>
                 if length q \<noteq> qlen then ([], ShortQuery (length q) qlen)
                 else (case accept_loop s2 of (qs, why) \<Rightarrow> (q # qs, why))))"
  by pat_completeness auto

termination
proof (relation "measure (\<lambda>s. length (concat (map fst s)))", goal_cases)
  case 1
  show ?case by simp
next
  case 2
  then show ?case by (fastforce dest!: src_read_size [OF sym])
qed

declare accept_loop.simps [simp del]

definition probeResolver :: "'s query_fun \<Rightarrow> 's \<Rightarrow> bytes \<Rightarrow> ('s \<times> goerr option) option" where
  "probeResolver qf r query =
     (case qf r query of
        None \<Rightarrow> None
      | Some (r', resp, err) \<Rightarrow> Some (r',
          case err of Some e \<Rightarrow> Some (EWrap ''failed to send query'' e)
          | None \<Rightarrow> if length (the_bytes resp) = 0 then Some (EMsg ''invalid DNS response'') else None))"

subsection \<open>The contract\<close>

text \<open>
  \<open>Query\<close> returns, and keeps the resolver usable; without an error there is a response; and every
  response, a SERVFAIL that comes with an error included, has the query's ID.
\<close>

locale dns_resolver =
  fixes ok :: "'s \<Rightarrow> bool"
    and qf :: "'s query_fun"
  assumes query_returns: "ok s \<Longrightarrow> \<exists>s' r e. qf s q = Some (s', r, e) \<and> ok s'"
    and query_answer: "ok s \<Longrightarrow> qf s q = Some (s', r, None) \<Longrightarrow> \<exists>b. r = Some b"
    and query_id: "ok s \<Longrightarrow> qf s q = Some (s', Some b, e) \<Longrightarrow> 2 \<le> length b \<and> 2 \<le> length q \<and> be16 b = be16 q"
begin

lemma query_ok: "ok s \<Longrightarrow> qf s q = Some (s', r, e) \<Longrightarrow> ok s'"
  using query_returns [of s q] by auto

lemma probe_iff:
  assumes s: "ok s"
  shows "\<exists>s' e. probeResolver qf s q = Some (s', e) \<and> ok s'
    \<and> (e = None \<longleftrightarrow> (\<exists>b. qf s q = Some (s', Some b, None)))"
proof -
  obtain s' r err where q: "qf s q = Some (s', r, err)" "ok s'" using query_returns [OF s] by blast
  show ?thesis
  proof (cases err)
    case None
    then obtain b where b: "r = Some b" using query_answer [OF s] q by blast
    then have "2 \<le> length b" using query_id [OF s] q None by blast
    then have "b \<noteq> []" by auto
    then show ?thesis using q None b by (simp add: probeResolver_def the_bytes_def)
  next
    case (Some e)
    then show ?thesis using q by (simp add: probeResolver_def)
  qed
qed

end

text \<open>A resolver and the connection its answers go to.\<close>

locale dns_relay = dns_resolver ok qf + io_writer wr stream
  for ok :: "'s \<Rightarrow> bool" and qf :: "'s query_fun"
    and wr :: "'w \<Rightarrow> bytes \<Rightarrow> 'w \<times> nat \<times> goerr option" and stream :: "'w \<Rightarrow> bytes"
begin

lemma forward_returns: "ok s \<Longrightarrow> \<exists>s' c' e. forwardQuery qf s q wr c = Some (s', c', e) \<and> ok s'"
  using query_returns [of s q]
  by (auto simp: forwardQuery_def split: prod.splits)

text \<open>What reaches the DNS client: nothing, or one frame whose message answers the query.\<close>

lemma forward_stream:
  assumes s: "ok s" and f: "forwardQuery qf s q wr c = Some (s', c', e)"
  shows "e \<noteq> None \<and> stream c' = stream c
    \<or> (\<exists>b k. length b \<le> 65535 \<and> 2 \<le> length b \<and> be16 b = be16 q
         \<and> stream c' = stream c @ take k (frame b) \<and> (e = None \<longrightarrow> k = length (frame b)))"
proof -
  obtain s1 resp qerr where q: "qf s q = Some (s1, resp, qerr)" using query_returns [OF s] by blast
  show ?thesis
  proof (cases resp)
    case None
    then have "qerr \<noteq> None" using query_answer [OF s, of q s1 resp] q by auto
    then show ?thesis using f q None by (auto simp: forwardQuery_def forward_reply_def)
  next
    case (Some b)
    note id = query_id [OF s q [unfolded Some]]
    show ?thesis
    proof (cases "65535 < length b")
      case True
      then show ?thesis using f q Some by (auto simp: forwardQuery_def forward_reply_def the_bytes_def)
    next
      case False
      obtain c1 n err where w: "wr c (frame b) = (c1, n, err)" by (metis prod_cases3)
      have n: "e = None \<Longrightarrow> n = length (frame b)" and c1: "c' = c1"
        using f q Some False w by (auto simp: forwardQuery_def forward_reply_def the_bytes_def Let_def split: if_splits)
      have "stream c1 = stream c @ take n (frame b)" by (rule write_stream [OF w])
      then show ?thesis using id False n c1
        by (intro disjI2 exI [of _ b] exI [of _ n]) auto
    qed
  qed
qed

end

subsection \<open>Accept\<close>

lemma src_read_append:
  "length d = n \<Longrightarrow> src_read n ((d @ r, None) # s) = (d, None, if r = [] then s else (r, None) # s)"
  by (auto simp: src_read_def)

lemma accept_loop_frame:
  assumes "length q \<le> 65535" "q \<noteq> []"
  shows "accept_loop ((frame q @ r, None) # s)
    = (case accept_loop (if r = [] then s else (r, None) # s) of (qs, why) \<Rightarrow> (q # qs, why))"
proof -
  let ?h = "enc16 (of_nat (length q))"
  have 1: "src_read 2 ((frame q @ r, None) # s) = (?h, None, (q @ r, None) # s)"
    using src_read_append [of ?h 2 "q @ r" s] assms(2) by (simp add: frame_def)
  have 2: "unat (be16 ?h) = length q" using assms(1) by simp
  have 3: "src_read (length q) ((q @ r, None) # s) = (q, None, if r = [] then s else (r, None) # s)"
    by (rule src_read_append) simp
  have "length ?h = 2" by simp
  then show ?thesis
    by (subst accept_loop.simps) (simp only: 1 2 3 Let_def prod.case option.case if_False; simp)
qed

lemma accept_loop_chunk:
  "list_all (\<lambda>q. length q \<le> 65535 \<and> q \<noteq> []) qs \<Longrightarrow> qs \<noteq> [] \<Longrightarrow>
     accept_loop ((concat (map frame qs), None) # s) = (case accept_loop s of (ps, why) \<Rightarrow> (qs @ ps, why))"
proof (induction qs)
  case (Cons q qs)
  have "concat (map frame qs) = [] \<longleftrightarrow> qs = []"
    by (cases qs) (auto simp: frame_def enc16_def)
  then show ?case
    using Cons accept_loop_frame [of q "concat (map frame qs)" s] by (cases "qs = []") (auto split: prod.splits)
qed simp

lemma accept_loop_Nil [simp]: "accept_loop [] = ([], CleanShutdown)"
  by (subst accept_loop.simps) (simp add: src_read_def)

text \<open>
  C40. A client that hands each query over as a whole (the length and the message in one write, or
  several queries in one) gets every query forwarded, in order, until it closes its side.
\<close>

theorem Accept_whole_queries:
  assumes "list_all (\<lambda>qs. qs \<noteq> [] \<and> list_all (\<lambda>q. length q \<le> 65535 \<and> q \<noteq> []) qs) chunks"
  shows "accept_loop (map (\<lambda>qs. (concat (map frame qs), None)) chunks) = (concat chunks, CleanShutdown)"
  using assms
proof (induction chunks)
  case (Cons qs chunks)
  then show ?case using accept_loop_chunk [of qs] by simp
qed simp

theorem Accept_whole_queries_witness:
  "accept_loop (map (\<lambda>qs. (concat (map frame qs), None)) [[[1, 2, 3]], [[4, 5], [6]]])
     = (concat [[[1, 2, 3]], [[4, 5], [6]]], CleanShutdown)"
  by (rule Accept_whole_queries) simp

text \<open>
  A query whose bytes arrive in two reads is not forwarded: the second \<open>Read\<close> of \<open>Accept\<close> takes
  the first part for the whole message and the connection is given up, though the stream is a
  well-formed one.
\<close>

theorem Accept_segmented_query:
  assumes "length (a @ b) \<le> 65535" and "a \<noteq> []" and "b \<noteq> []"
  shows "accept_loop ((enc16 (of_nat (length (a @ b))) @ a, None) # (b, None) # s)
    = ([], ShortQuery (length a) (length (a @ b)))"
proof -
  let ?h = "enc16 (of_nat (length (a @ b))) :: bytes"
  have 1: "src_read 2 ((?h @ a, None) # (b, None) # s) = (?h, None, (a, None) # (b, None) # s)"
    using src_read_append [of ?h 2 a "(b, None) # s"] assms(2) by simp
  have 2: "unat (be16 ?h) = length (a @ b)" using assms(1) by (simp del: length_append)
  have 3: "src_read (length (a @ b)) ((a, None) # (b, None) # s) = (a, None, (b, None) # s)"
    by (simp add: src_read_def)
  have "length ?h = 2" by simp
  then show ?thesis
    using assms(3) by (subst accept_loop.simps) (simp only: 1 2 3 Let_def prod.case option.case if_False; simp)
qed

theorem Accept_segmented_query_witness:
  "accept_loop ((enc16 (of_nat (length ([1, 2] @ [3 :: byte]))) @ [1, 2], None) # ([3], None) # [])
    = ([], ShortQuery (length [1, 2 :: byte]) (length ([1, 2] @ [3 :: byte])))"
  by (rule Accept_segmented_query) simp_all

end
