(* ===== verification/Overlap.thy ===== *)
theory Overlap
  imports Resolver
begin

section \<open>Contracts of overlapping queries (proxy/doh/doh.go, proxy/dot/dot.go)\<close>

text \<open>
  Both resolvers are used by any number of goroutines at once. What their clients need of that, as interfaces: the
  results \<open>R r\<close> that a query of a usable resolver \<open>r\<close> can have (\<open>dns_answers\<close>; with \<open>answers_come\<close>, that it can have
  one), and what the hangover promises to queries that have not passed it (\<open>hangover_gate\<close>). The locales are
  interpreted on the relations of \<open>DohOverlap\<close> and \<open>DotOverlap\<close>; a resolver whose queries come one after the other
  (\<open>dns_resolver\<close>) gives \<open>dns_answers\<close> too.
\<close>

subsection \<open>Results\<close>

type_synonym answer_rel = "bytes \<Rightarrow> bytes option \<Rightarrow> goerr option \<Rightarrow> bool"

locale dns_answers =
  fixes usable :: "'r \<Rightarrow> bool" and R :: "'r \<Rightarrow> answer_rel"
  assumes answer_some: "usable r \<Longrightarrow> R r q resp None \<Longrightarrow> \<exists>b. resp = Some b"
    and answer_id: "usable r \<Longrightarrow> R r q (Some b) e \<Longrightarrow> 2 \<le> length b \<and> 2 \<le> length q \<and> be16 b = be16 q"
begin

text \<open>What \<open>forwardQuery\<close> writes, when it writes: a frame of an answer.\<close>

lemma reply_frame:
  assumes "usable r" and "R r q resp e" and "\<not> (resp = None \<and> e \<noteq> None)"
  shows "\<exists>b. resp = Some b \<and> be16 b = be16 q \<and> 2 \<le> length b"
proof (cases resp)
  case None
  then show ?thesis using assms answer_some [of r q None] by (cases e) auto
qed (use assms answer_id in auto)

end

locale answers_come = dns_answers +
  assumes answer_exists: "usable r \<Longrightarrow> \<exists>resp e. R r q resp e"

text \<open>A result that a resolver gave for a query, in some state of its life.\<close>

definition result_of :: "('s \<Rightarrow> bool) \<Rightarrow> 's query_fun \<Rightarrow> answer_rel" where
  "result_of ok qf q resp qerr \<longleftrightarrow> (\<exists>s s'. ok s \<and> qf s q = Some (s', resp, qerr))"

sublocale dns_resolver \<subseteq> given: dns_answers "\<lambda>_::unit. True" "\<lambda>_. result_of ok qf"
  by unfold_locales (use query_answer query_id in \<open>auto simp: result_of_def\<close>)

subsection \<open>The hangover\<close>

text \<open>
  \<open>away s i\<close>: query \<open>i\<close> has not been let through. Time and the hangover only move on, and as long as the hangover
  lasts no query gets through.
\<close>

locale hangover_gate =
  fixes stp :: "'s \<Rightarrow> 's \<Rightarrow> bool" and inv :: "'s \<Rightarrow> bool" and now hang :: "'s \<Rightarrow> gotime"
    and away :: "'s \<Rightarrow> nat \<Rightarrow> bool"
  assumes inv_step: "stp s s' \<Longrightarrow> inv s \<Longrightarrow> inv s'"
    and moves_on: "stp s s' \<Longrightarrow> inv s \<Longrightarrow> hang s \<le> hang s' \<and> now s \<le> now s'"
    and kept_away: "stp s s' \<Longrightarrow> inv s \<Longrightarrow> now s < hang s \<Longrightarrow> away s i \<Longrightarrow> away s' i"
begin

lemma run_inv: "stp\<^sup>*\<^sup>* s s' \<Longrightarrow> inv s \<Longrightarrow> inv s'"
  by (induction rule: rtranclp_induct) (auto intro: inv_step)

lemma run_moves_on: "stp\<^sup>*\<^sup>* s s' \<Longrightarrow> inv s \<Longrightarrow> hang s \<le> hang s' \<and> now s \<le> now s'"
proof (induction rule: rtranclp_induct)
  case (step t u)
  then show ?case using moves_on [OF step.hyps(2) run_inv [OF step.hyps(1)]] by force
qed simp

lemma held: "stp\<^sup>*\<^sup>* s s' \<Longrightarrow> inv s \<Longrightarrow> now s' < hang s \<Longrightarrow> away s i \<Longrightarrow> away s' i"
proof (induction rule: rtranclp_induct)
  case (step t u)
  note inv = run_inv [OF step.hyps(1) step.prems(1)]
  have "now t < hang s" using moves_on [OF step.hyps(2) inv] step.prems(2) by simp
  then show ?case
    using step.IH [OF step.prems(1) _ step.prems(3)] run_moves_on [OF step.hyps(1) step.prems(1)]
      kept_away [OF step.hyps(2) inv, of i] by simp
qed simp

end

end
