(* ===== verification/TcpServer.thy ===== *)
theory TcpServer
  imports Overlap "HOL-Library.Multiset"
begin

section \<open>DNS over TCP: Accept with its goroutines (proxy/doh/doh.go)\<close>

text \<open>
  \<open>Accept\<close> starts a goroutine per query and closes the connection at its end, and so does every goroutine
  whose forwarding fails; all of them share the resolver and the connection. Their steps are a relation: the
  next query accepted, a \<open>Query\<close>, the one write of its result, a \<open>Close\<close>. \<open>accept_loop\<close> says which queries there
  are; as_todo holds those not yet accepted. A step of \<open>Query\<close> is taken as a whole.
\<close>

subsection \<open>State and steps\<close>

datatype job = JQuery bytes | JWrite bytes "bytes option" "goerr option" | JClose

record 's asys =
  as_todo :: "bytes list"
  as_jobs :: "job list"
  as_res :: 's
  as_conn :: tcp_conn
  as_stopped :: bool

definition accept_start :: "source \<Rightarrow> 's \<Rightarrow> tcp_conn \<Rightarrow> 's asys" where
  "accept_start src r c = \<lparr>as_todo = fst (accept_loop src), as_jobs = [], as_res = r, as_conn = c, as_stopped = False\<rparr>"

text \<open>
  The rule \<open>a_stop\<close>: the loop ends after the last query, or when its read fails because a goroutine has closed
  the connection.
\<close>

inductive astep :: "'s query_fun \<Rightarrow> 's asys \<Rightarrow> 's asys \<Rightarrow> bool" for qf :: "'s query_fun" where
  a_accept: "\<not> as_stopped a \<Longrightarrow> as_todo a = q # qs \<Longrightarrow>
     astep qf a (a\<lparr>as_todo := qs, as_jobs := as_jobs a @ [JQuery q]\<rparr>)"
| a_stop: "\<not> as_stopped a \<Longrightarrow> as_todo a = [] \<or> c_closed (as_conn a) \<Longrightarrow>
     astep qf a (a\<lparr>as_stopped := True, as_conn := fst (tcp_Close (as_conn a))\<rparr>)"
| a_query: "as_jobs a = xs @ JQuery q # ys \<Longrightarrow> qf (as_res a) q = Some (r', resp, qerr) \<Longrightarrow>
     astep qf a (a\<lparr>as_res := r', as_jobs := xs @ JWrite q resp qerr # ys\<rparr>)"
| a_reply: "as_jobs a = xs @ JWrite q resp qerr # ys \<Longrightarrow> forward_reply tcp_write (as_conn a) resp qerr = (c', None) \<Longrightarrow>
     astep qf a (a\<lparr>as_conn := c', as_jobs := xs @ ys\<rparr>)"
| a_fail: "as_jobs a = xs @ JWrite q resp qerr # ys \<Longrightarrow> forward_reply tcp_write (as_conn a) resp qerr = (c', Some e) \<Longrightarrow>
     astep qf a (a\<lparr>as_conn := c', as_jobs := xs @ JClose # ys\<rparr>)"
| a_close: "as_jobs a = xs @ JClose # ys \<Longrightarrow>
     astep qf a (a\<lparr>as_conn := fst (tcp_Close (as_conn a)), as_jobs := xs @ ys\<rparr>)"

inductive areach :: "'s query_fun \<Rightarrow> source \<Rightarrow> 's \<Rightarrow> tcp_conn \<Rightarrow> 's asys \<Rightarrow> bool"
  for qf :: "'s query_fun" and src r c where
  ar_start: "areach qf src r c (accept_start src r c)"
| ar_step: "areach qf src r c a \<Longrightarrow> astep qf a a' \<Longrightarrow> areach qf src r c a'"

text \<open>A goroutine on its own is \<open>forwardQueryAndCheck\<close>.\<close>

lemma goroutine_refines:
  assumes "forwardQueryAndCheck qf (as_res a) q tcp_write (as_conn a) = Some (r', c', bad)"
    and "as_jobs a = xs @ JQuery q # ys"
  shows "(astep qf)\<^sup>*\<^sup>* a (a\<lparr>as_res := r', as_conn := if bad then fst (tcp_Close c') else c', as_jobs := xs @ ys\<rparr>)"
proof -
  obtain resp qerr e where q: "qf (as_res a) q = Some (r', resp, qerr)"
      and w: "forward_reply tcp_write (as_conn a) resp qerr = (c', e)" "bad = (e \<noteq> None)"
    using assms(1) by (auto simp: forwardQueryAndCheck_def forwardQuery_def split: option.splits prod.splits)
  let ?a1 = "a\<lparr>as_res := r', as_jobs := xs @ JWrite q resp qerr # ys\<rparr>"
  have 1: "astep qf a ?a1" using a_query [where qf = qf, OF assms(2) q] .
  show ?thesis
  proof (cases e)
    case None
    have "astep qf ?a1 (?a1\<lparr>as_conn := c', as_jobs := xs @ ys\<rparr>)"
      by (rule a_reply [where qerr = qerr]) (use w None in auto)
    then show ?thesis
      using converse_rtranclp_into_rtranclp [of "astep qf", OF 1 r_into_rtranclp] w None by simp
  next
    case (Some x)
    let ?a2 = "?a1\<lparr>as_conn := c', as_jobs := xs @ JClose # ys\<rparr>"
    have 2: "astep qf ?a1 ?a2" by (rule a_fail [where qerr = qerr]) (use w Some in auto)
    have 3: "astep qf ?a2 (?a2\<lparr>as_conn := fst (tcp_Close (as_conn ?a2)), as_jobs := xs @ ys\<rparr>)"
      by (rule a_close) simp
    from 3 have "(astep qf)\<^sup>*\<^sup>* a (?a2\<lparr>as_conn := fst (tcp_Close (as_conn ?a2)), as_jobs := xs @ ys\<rparr>)"
      by (intro converse_rtranclp_into_rtranclp [of "astep qf", OF 1]
          converse_rtranclp_into_rtranclp [of "astep qf", OF 2] r_into_rtranclp)
    then show ?thesis using w Some by simp
  qed
qed

subsection \<open>The end of the client's stream\<close>

lemma forward_reply_closed: "c_closed c \<Longrightarrow> forward_reply tcp_write c resp qerr = (c', e) \<Longrightarrow> c' = c \<and> e \<noteq> None"
  by (auto simp: forward_reply_def tcp_write_def Let_def split: if_splits)

lemma astep_closed: "astep qf a a' \<Longrightarrow> c_closed (as_conn a) \<Longrightarrow> as_conn a' = as_conn a"
  by (erule astep.cases) (auto simp: tcp_Close_def dest: forward_reply_closed)

text \<open>
  \<open>Accept\<close> closes the connection as soon as the client has sent its last query: of the queries that are then still
  with the resolver none is answered any more.
\<close>

theorem accept_end_loses_pending:
  assumes "astep qf a a1" and "\<not> as_stopped a" and "as_stopped a1" and "(astep qf)\<^sup>*\<^sup>* a1 a2"
  shows "tcp_stream (as_conn a2) = tcp_stream (as_conn a)"
proof -
  have a1: "as_conn a1 = fst (tcp_Close (as_conn a))" using assms(1-3) by (cases rule: astep.cases) auto
  from assms(4) have "as_conn a2 = as_conn a1"
  proof (induction rule: rtranclp_induct)
    case (step x y)
    then show ?case using astep_closed [OF step.hyps(2)] a1 by simp
  qed simp
  then show ?thesis using a1 by simp
qed

theorem accept_end_loses_pending_witness:
  "tcp_stream (as_conn ((accept_start [] () (tcp_new []))\<lparr>as_stopped := True, as_conn := fst (tcp_Close (tcp_new []))\<rparr>)) = []"
proof -
  let ?qf = "\<lambda>s q. Some (s, None, Some EEOF)" and ?a = "accept_start [] () (tcp_new [])"
  have "as_todo ?a = []" by (simp add: accept_start_def)
  from a_stop [of ?a ?qf] this
  have "astep ?qf ?a (?a\<lparr>as_stopped := True, as_conn := fst (tcp_Close (tcp_new []))\<rparr>)"
    by (simp add: accept_start_def)
  from accept_end_loses_pending [OF this _ _ rtranclp.rtrancl_refl] show ?thesis
    by (simp add: accept_start_def)
qed

subsection \<open>Invariant\<close>

text \<open>The queries a list of jobs still has to answer.\<close>

fun job_queries :: "job list \<Rightarrow> bytes list" where
  "job_queries [] = []"
| "job_queries (JQuery q # js) = q # job_queries js"
| "job_queries (JWrite q resp qerr # js) = q # job_queries js"
| "job_queries (JClose # js) = job_queries js"

lemma job_queries_append [simp]: "job_queries (xs @ ys) = job_queries xs @ job_queries ys"
  by (induction xs rule: job_queries.induct) auto

text \<open>A result that waits to be written is one that the resolver gave for the job's query.\<close>

definition job_ok :: "('s \<Rightarrow> bool) \<Rightarrow> 's query_fun \<Rightarrow> job \<Rightarrow> bool" where
  "job_ok ok qf j = (case j of JWrite q resp qerr \<Rightarrow> result_of ok qf q resp qerr | _ \<Rightarrow> True)"

text \<open>A query and the message that answers it.\<close>

definition answer_ok :: "('s \<Rightarrow> bool) \<Rightarrow> 's query_fun \<Rightarrow> bytes \<times> bytes \<Rightarrow> bool" where
  "answer_ok ok qf p = (case p of (q, b) \<Rightarrow> length b \<le> 65535 \<and> (\<exists>e. result_of ok qf q (Some b) e))"

text \<open>
  The answers \<open>ps\<close> on the connection, each in its frame; their queries, those of the running jobs and those to
  come are among the queries \<open>all\<close> of the client, and are all of them unless the connection is closed or about to be.
\<close>

definition pending :: "(bytes \<times> bytes) list \<Rightarrow> 's asys \<Rightarrow> bytes multiset" where
  "pending ps a = mset (map fst ps) + mset (job_queries (as_jobs a)) + mset (as_todo a)"

definition relay_inv :: "('s \<Rightarrow> bool) \<Rightarrow> 's query_fun \<Rightarrow> bytes list \<Rightarrow> bytes \<Rightarrow> (bytes \<times> bytes) list \<Rightarrow> 's asys \<Rightarrow> bool" where
  "relay_inv ok qf all pre ps a \<longleftrightarrow> ok (as_res a) \<and> c_faults (as_conn a) = []
     \<and> tcp_stream (as_conn a) = pre @ concat (map (frame \<circ> snd) ps)
     \<and> list_all (answer_ok ok qf) ps \<and> (\<forall>j\<in>set (as_jobs a). job_ok ok qf j)
     \<and> (as_stopped a \<longrightarrow> c_closed (as_conn a)) \<and> \<not> c_wclosed (as_conn a)
     \<and> pending ps a \<subseteq># mset all
     \<and> (c_closed (as_conn a) \<or> JClose \<in> set (as_jobs a) \<or> pending ps a = mset all)"

text \<open>A write on a connection without faults is all or, once it is closed, nothing.\<close>

lemma tcp_write_clean:
  assumes "c_faults c = []" "\<not> c_wclosed c"
  shows "tcp_write c b = (if c_closed c then (c, 0, Some EClosed) else (c\<lparr>c_segs := c_segs c @ [b]\<rparr>, length b, None))"
  using assms by (simp add: tcp_write_def)

lemma tcp_Close_fields [simp]:
  "c_faults (fst (tcp_Close c)) = c_faults c" "c_wclosed (fst (tcp_Close c)) = c_wclosed c"
  by (simp_all add: tcp_Close_def)

text \<open>The steps that are left: every step takes at least one off.\<close>

fun job_work :: "job \<Rightarrow> nat" where
  "job_work (JQuery q) = 3"
| "job_work (JWrite q resp qerr) = 2"
| "job_work JClose = 1"

definition accept_work :: "'s asys \<Rightarrow> nat" where
  "accept_work a = 4 * length (as_todo a) + sum_list (map job_work (as_jobs a)) + (if as_stopped a then 0 else 1)"

lemma astep_work: "astep qf a a' \<Longrightarrow> accept_work a' < accept_work a"
  by (erule astep.cases) (auto simp: accept_work_def)

context dns_resolver
begin

lemma forward_reply_clean:
  assumes "c_faults c = []" "\<not> c_wclosed c" "result_of ok qf q resp qerr"
    and "forward_reply tcp_write c resp qerr = (c', e)"
  shows "c' = c \<and> e \<noteq> None
    \<or> (\<exists>b. answer_ok ok qf (q, b) \<and> e = qerr \<and> c' = c\<lparr>c_segs := c_segs c @ [frame b]\<rparr>)"
proof (cases resp)
  case None
  obtain s s' where "ok s" "qf s q = Some (s', None, qerr)" using assms(3) None by (auto simp: result_of_def)
  then have "qerr \<noteq> None" using query_answer [of s q s' None] by auto
  then show ?thesis using assms(4) None by (simp add: forward_reply_def)
next
  case (Some b)
  show ?thesis
  proof (cases "65535 < length b")
    case True
    then show ?thesis using assms(4) Some by (auto simp: forward_reply_def the_bytes_def)
  next
    case False
    then have "answer_ok ok qf (q, b)" using assms(3) Some by (auto simp: answer_ok_def)
    then show ?thesis
      using assms(1,2,4) Some False
      by (auto simp: forward_reply_def tcp_write_clean the_bytes_def Let_def split: if_splits)
  qed
qed

lemma relay_inv_write:
  assumes inv: "relay_inv ok qf all pre ps a" and jobs: "as_jobs a = xs @ JWrite q resp qerr # ys"
    and w: "forward_reply tcp_write (as_conn a) resp qerr = (c', e)"
    and js: "js = (if e = None then [] else [JClose])"
  shows "\<exists>ps'. relay_inv ok qf all pre ps' (a\<lparr>as_conn := c', as_jobs := xs @ js @ ys\<rparr>)"
proof -
  have c: "c_faults (as_conn a) = []" "\<not> c_wclosed (as_conn a)" "result_of ok qf q resp qerr"
    using inv jobs by (auto simp: relay_inv_def job_ok_def)
  have jq: "job_queries js = []" using js by simp
  have le: "pending ps a \<subseteq># mset all" using inv by (simp add: relay_inv_def)
  from forward_reply_clean [OF c w] show ?thesis
  proof (elim disjE exE conjE)
    assume "c' = as_conn a" "e \<noteq> None"
    moreover have "pending ps (a\<lparr>as_conn := c', as_jobs := xs @ js @ ys\<rparr>) \<subseteq># mset all"
      by (rule subset_mset.order_trans [OF _ le]) (simp add: pending_def jobs jq)
    ultimately have "relay_inv ok qf all pre ps (a\<lparr>as_conn := c', as_jobs := xs @ js @ ys\<rparr>)"
      using inv js by (auto simp: relay_inv_def job_ok_def jobs)
    then show ?thesis ..
  next
    fix b
    assume b: "answer_ok ok qf (q, b)" "e = qerr" "c' = (as_conn a)\<lparr>c_segs := c_segs (as_conn a) @ [frame b]\<rparr>"
    let ?a = "a\<lparr>as_conn := c', as_jobs := xs @ js @ ys\<rparr>"
    have p: "pending (ps @ [(q, b)]) ?a = pending ps a" by (simp add: pending_def jobs jq ac_simps)
    have "relay_inv ok qf all pre (ps @ [(q, b)]) ?a"
      using inv js b unfolding relay_inv_def p by (auto simp: job_ok_def jobs tcp_stream_def)
    then show ?thesis ..
  qed
qed

lemma relay_inv_step:
  assumes "astep qf a a'" and "relay_inv ok qf all pre ps a"
  shows "\<exists>ps'. relay_inv ok qf all pre ps' a'"
  using assms
proof (cases rule: astep.cases)
  case (a_accept q qs)
  then have "relay_inv ok qf all pre ps a'" using assms(2) by (auto simp: relay_inv_def job_ok_def pending_def ac_simps)
  then show ?thesis ..
next
  case a_stop
  then have "relay_inv ok qf all pre ps a'" using assms(2) by (auto simp: relay_inv_def pending_def)
  then show ?thesis ..
next
  case (a_query xs q ys r' resp qerr)
  have ok: "ok (as_res a)" using assms(2) by (simp add: relay_inv_def)
  have "job_ok ok qf (JWrite q resp qerr)" using ok a_query(3) by (auto simp: job_ok_def result_of_def)
  then have "relay_inv ok qf all pre ps a'"
    using assms(2) a_query query_ok [OF ok a_query(3)] by (auto simp: relay_inv_def pending_def)
  then show ?thesis ..
next
  case (a_reply xs q resp qerr ys c')
  from relay_inv_write [OF assms(2) a_reply(2,3) refl] show ?thesis using a_reply(1) by simp
next
  case (a_fail xs q resp qerr ys c' e)
  from relay_inv_write [OF assms(2) a_fail(2,3) refl] show ?thesis using a_fail(1) by simp
next
  case (a_close xs ys)
  then have "relay_inv ok qf all pre ps a'" using assms(2) by (auto simp: relay_inv_def pending_def)
  then show ?thesis ..
qed

lemma areach_inv:
  assumes "areach qf src s c a" "ok s" "tcp_healthy c" "c_faults c = []"
  shows "\<exists>ps. relay_inv ok qf (fst (accept_loop src)) (tcp_stream c) ps a"
  using assms(1)
proof (induction rule: areach.induct)
  case ar_start
  have "relay_inv ok qf (fst (accept_loop src)) (tcp_stream c) [] (accept_start src s c)"
    using assms by (simp add: relay_inv_def accept_start_def tcp_healthy_def pending_def)
  then show ?case ..
next
  case (ar_step a a')
  then show ?case using relay_inv_step by blast
qed

text \<open>What the client of \<open>Accept\<close> gets.\<close>

lemma accept_stream:
  assumes "areach qf src s c a" "ok s" "tcp_healthy c" "c_faults c = []"
  shows "\<exists>ps. tcp_stream (as_conn a) = tcp_stream c @ concat (map (frame \<circ> snd) ps)
    \<and> (\<forall>(q, b)\<in>set ps. be16 b = be16 q \<and> length b \<le> 65535 \<and> (\<exists>s1 s2 e. ok s1 \<and> qf s1 q = Some (s2, Some b, e)))
    \<and> mset (map fst ps) \<subseteq># mset (fst (accept_loop src))
    \<and> (as_todo a = [] \<and> as_jobs a = [] \<and> \<not> c_closed (as_conn a) \<longrightarrow>
         mset (map fst ps) = mset (fst (accept_loop src)))"
proof -
  obtain ps where inv: "relay_inv ok qf (fst (accept_loop src)) (tcp_stream c) ps a" using areach_inv [OF assms] ..
  have "mset (map fst ps) \<subseteq># pending ps a" by (simp add: pending_def ac_simps)
  also have "\<dots> \<subseteq># mset (fst (accept_loop src))" using inv by (simp add: relay_inv_def)
  finally have sub: "mset (map fst ps) \<subseteq># mset (fst (accept_loop src))" .
  have "be16 b = be16 q \<and> length b \<le> 65535 \<and> (\<exists>s1 s2 e. ok s1 \<and> qf s1 q = Some (s2, Some b, e))"
    if "(q, b) \<in> set ps" for q b
    using inv that given.answer_id [of q b] by (fastforce simp: relay_inv_def list_all_iff answer_ok_def result_of_def)
  then show ?thesis
    using inv sub by (intro exI [of _ ps]) (auto simp: relay_inv_def pending_def)
qed

lemma accept_progress:
  assumes "ok (as_res a)" and "\<not> (as_stopped a \<and> as_jobs a = [])"
  shows "\<exists>a'. astep qf a a'"
proof (cases "as_jobs a")
  case Nil
  then have "\<not> as_stopped a" using assms(2) by simp
  then show ?thesis by (cases "as_todo a") (blast intro: a_accept a_stop)+
next
  case (Cons j js)
  show ?thesis
  proof (cases j)
    case (JQuery q)
    obtain r' resp qerr where "qf (as_res a) q = Some (r', resp, qerr)" using query_returns [OF assms(1)] by blast
    then show ?thesis using a_query [of a "[]" q js qf] Cons JQuery by fastforce
  next
    case (JWrite q resp qerr)
    obtain c' e where "forward_reply tcp_write (as_conn a) resp qerr = (c', e)" by fastforce
    then show ?thesis
      using a_reply [of a "[]" q resp qerr js c' qf] a_fail [of a "[]" q resp qerr js c' _ qf] Cons JWrite
      by (cases e) fastforce+
  next
    case JClose
    then show ?thesis using a_close [of a "[]" js qf] Cons by fastforce
  qed
qed

end

end
