(* ===== verification/DohResolver.thy ===== *)
theory DohResolver
  imports Resolver Dial
begin

section \<open>The DNS-over-HTTPS resolver (proxy/doh/doh.go)\<close>

text \<open>
  \<open>resolver\<close> of \<open>doh.go\<close>: construction, the dial function it gives to the HTTP client, a query with
  padding, ID removal, hangover and the bookkeeping of confirmed addresses, and what is reported to
  the listener. The HTTP client, TLS and the clock are the environment (\<open>http_env\<close>): a function from
  the request to what the client did with it.
\<close>

subsection \<open>State\<close>

record resolver =
  rv_url :: string
  rv_hostname :: string
  rv_port :: int
  rv_ips :: ipMap
  rv_listener :: bool
  rv_hangover :: gotime

definition hangoverDuration :: duration where "hangoverDuration = 10 * second"

definition dial :: "net_env \<Rightarrow> string \<Rightarrow> ipMap \<Rightarrow> ipMap \<times> dial_result" where
  "dial ne addr m =
     (case SplitHostPort addr of
        Inl err \<Rightarrow> (m, [], None, Some err)
      | Inr (domain, portStr) \<Rightarrow>
          (case Atoi portStr of
             Inl err \<Rightarrow> (m, [], None, Some err)
           | Inr port \<Rightarrow> dial_ips ne domain port m))"

subsection \<open>NewResolver\<close>

text \<open>
  \<open>net/url\<close>: what \<open>url.Parse\<close> finds in the string is an argument; \<open>Hostname()\<close> and \<open>Port()\<close> are
  those of the host part.
\<close>

record url_parts =
  ul_Scheme :: string
  ul_Host :: string

definition validOptionalPort :: "string \<Rightarrow> bool" where
  "validOptionalPort port \<longleftrightarrow> port = [] \<or> (hd port = CHR '':'' \<and> list_all (\<lambda>c. digit_val c \<noteq> None) (tl port))"

definition url_splitHostPort :: "string \<Rightarrow> string \<times> string" where
  "url_splitHostPort hostPort =
     (let (host, port) = (case last_index_of CHR '':'' hostPort of
            Some colon \<Rightarrow> if validOptionalPort (drop colon hostPort)
              then (take colon hostPort, drop (colon + 1) hostPort) else (hostPort, [])
          | None \<Rightarrow> (hostPort, []))
      in (if host \<noteq> [] \<and> hd host = CHR ''['' \<and> last host = CHR '']'' then butlast (tl host) else host, port))"

definition url_Hostname :: "url_parts \<Rightarrow> string" where "url_Hostname u = fst (url_splitHostPort (ul_Host u))"
definition url_Port :: "url_parts \<Rightarrow> string" where "url_Port u = snd (url_splitHostPort (ul_Host u))"

definition NewResolver :: "(string \<Rightarrow> goerr + url_parts) \<Rightarrow> (string \<Rightarrow> ip list \<times> goerr option)
    \<Rightarrow> string \<Rightarrow> string list \<Rightarrow> bool \<Rightarrow> goerr + resolver" where
  "NewResolver parse lookup rawurl addrs listener =
     (case parse rawurl of
        Inl err \<Rightarrow> Inl err
      | Inr parsedurl \<Rightarrow>
          if ul_Scheme parsedurl \<noteq> ''https'' then Inl (EMsg (''Bad scheme: '' @ ul_Scheme parsedurl))
          else let portStr = url_Port parsedurl in
            (case (if portStr \<noteq> [] then Atoi portStr else Inr 443) of
               Inl err \<Rightarrow> Inl err
             | Inr port \<Rightarrow>
                 let hostname = url_Hostname parsedurl;
                     (m1, ips) = Get lookup hostname NewIPMap;
                     m2 = add_addrs lookup ips addrs m1
                 in if Empty (at_set ips m2) then Inl (EMsg (''No IP addresses for '' @ hostname))
                    else Inr \<lparr>rv_url = rawurl, rv_hostname = hostname, rv_port = port, rv_ips = m2,
                       rv_listener = listener, rv_hangover = 0\<rparr>))"

definition GetURL :: "resolver \<Rightarrow> string" where "GetURL r = rv_url r"

subsection \<open>One request\<close>

record http_req =
  hq_url :: string
  hq_headers :: "(string \<times> string) list"
  hq_body :: bytes

record http_resp =
  hs_body :: source
  hs_status :: nat
  hs_host :: string

record conn_info =
  ci_id :: nat
  ci_remote :: tcpaddr

text \<open>
  What \<open>client.Do\<close> did: the addresses the transport dialled through the resolver's \<open>dial\<close>, the
  connections \<open>GotConn\<close> reported (a nil one is \<open>None\<close>), and its result.
\<close>

record do_result =
  do_dials :: "string list"
  do_conns :: "conn_info option list"
  do_res :: "goerr + http_resp"

record http_env =
  he_now1 :: gotime
  he_now2 :: gotime
  he_before :: gotime
  he_after :: gotime
  he_newreq :: "goerr option"
  he_do :: "http_req \<Rightarrow> do_result"
  he_net :: net_env

definition mimetype :: string where "mimetype = ''application/dns-message''"

definition with_headers :: "http_req \<Rightarrow> http_req" where
  "with_headers req = req\<lparr>hq_headers := hq_headers req @
     [(''Content-Type'', mimetype), (''Accept'', mimetype), (''User-Agent'', ''LocalDNS'')]\<rparr>"

text \<open>\<open>r.ips.Get(hostname).f()\<close>.\<close>

definition on_host :: "net_env \<Rightarrow> string \<Rightarrow> (IPSet \<Rightarrow> IPSet) \<Rightarrow> resolver \<Rightarrow> resolver" where
  "on_host ne hostname f r =
     (case Get (ne_lookup ne) hostname (rv_ips r) of (m, a) \<Rightarrow> r\<lparr>rv_ips := upd_set a f m\<rparr>)"

definition last_conn :: "conn_info option list \<Rightarrow> conn_info option" where
  "last_conn cs = fold (\<lambda>info conn. if info = None then conn else info) cs None"

type_synonym query_error = "(dstatus \<times> goerr) option"

text \<open>The deferred clean-up of \<open>sendRequest\<close>; the second result is the connection it closes.\<close>

definition send_cleanup :: "net_env \<Rightarrow> string \<Rightarrow> conn_info option \<Rightarrow> query_error \<Rightarrow> resolver
    \<Rightarrow> resolver \<times> nat option" where
  "send_cleanup ne hostname conn qerr r =
     (if qerr = None then (r, None)
      else (case conn of
          None \<Rightarrow> (r, None)
        | Some c \<Rightarrow> (on_host ne hostname (Disconfirm (ta_ip (ci_remote c))) r, Some (ci_id c))))"

record send_out =
  sd_response :: "bytes option"
  sd_hostname :: string
  sd_server :: "tcpaddr option"
  sd_qerr :: query_error
  sd_closed :: "nat option"

definition sendRequest :: "http_env \<Rightarrow> http_req \<Rightarrow> resolver \<Rightarrow> resolver \<times> send_out" where
  "sendRequest env req r =
     (let ne = he_net env;
          d = he_do env (with_headers req);
          r1 = r\<lparr>rv_ips := fold (\<lambda>addr m. fst (dial ne addr m)) (do_dials d) (rv_ips r)\<rparr>;
          conn = last_conn (do_conns d);
          server = map_option ci_remote conn;
          (response, hostname, qerr) =
            (case do_res d of
               Inl err \<Rightarrow> (None, rv_hostname r, Some (SendFailed, err))
             | Inr httpResponse \<Rightarrow>
                 (case ReadAll (hs_body httpResponse) of (body, err) \<Rightarrow>
                    (case err of
                       Some e \<Rightarrow> (Some body, rv_hostname r, Some (BadResponse, e))
                     | None \<Rightarrow>
                         (Some body, hs_host httpResponse,
                          if hs_status httpResponse \<noteq> 200
                          then Some (HTTPError, EHTTP (hs_status httpResponse)) else None))));
          (r2, closed) = send_cleanup ne hostname conn qerr r1
      in (r2, \<lparr>sd_response = response, sd_hostname = hostname, sd_server = server, sd_qerr = qerr,
                sd_closed = closed\<rparr>))"

subsection \<open>One query\<close>

text \<open>
  The result of \<open>doQuery\<close>, with what the theorems speak about: the request given to the client, the
  connection closed, and the caller's slice after the call (\<open>qo_q\<close>).
\<close>

record q_out =
  qo_response :: "bytes option"
  qo_server :: "tcpaddr option"
  qo_qerr :: query_error
  qo_sent :: "http_req option"
  qo_closed :: "nat option"
  qo_q :: bytes

definition q_fail :: "bytes option \<Rightarrow> dstatus \<Rightarrow> goerr \<Rightarrow> bytes \<Rightarrow> q_out" where
  "q_fail response st err q = \<lparr>qo_response = response, qo_server = None, qo_qerr = Some (st, err),
     qo_sent = None, qo_closed = None, qo_q = q\<rparr>"

text \<open>The check of the response's ID, which is put back in place.\<close>

definition check_id :: "u16 \<Rightarrow> bytes option \<Rightarrow> bytes option \<times> query_error" where
  "check_id qid response =
     (let b = the_bytes response in
      if 2 \<le> length b then
        (if be16 b = 0 then (Some (put16 0 qid b), None)
         else (response, Some (BadResponse, EMsg ''Nonzero response ID'')))
      else (response, Some (BadResponse, EMsg ''Response length'')))"

definition start_hangover :: "gotime \<Rightarrow> dstatus \<Rightarrow> resolver \<Rightarrow> resolver" where
  "start_hangover now st r = (if st \<noteq> SendFailed then r\<lparr>rv_hangover := now + hangoverDuration\<rparr> else r)"

text \<open>\<open>doQuery\<close> from the padded query \<open>q\<close> on; \<open>same\<close>: \<open>q\<close> is the caller's slice.\<close>

definition doQuery_padded :: "'x codec \<Rightarrow> http_env \<Rightarrow> bytes \<Rightarrow> bytes \<Rightarrow> bool \<Rightarrow> resolver
    \<Rightarrow> (resolver \<times> q_out) option" where
  "doQuery_padded cd env q0 q same r =
     (if length q < 2 then None
      else let qid = be16 q; q1 = put16 0 0 q in
        case he_newreq env of
          Some err \<Rightarrow> Some (r, q_fail None InternalError err (if same then q1 else q0))
        | None \<Rightarrow>
            let req = \<lparr>hq_url = rv_url r, hq_headers = [], hq_body = q1\<rparr>;
                (r1, sd) = sendRequest env req r;
                q2 = put16 0 qid q1;
                (response, qerr) = (case sd_qerr sd of
                    Some qe \<Rightarrow> (sd_response sd, Some qe)
                  | None \<Rightarrow> check_id qid (sd_response sd));
                out = \<lparr>qo_response = (if qerr = None then response else tryServfail cd q2),
                       qo_server = sd_server sd, qo_qerr = qerr, qo_sent = Some (with_headers req),
                       qo_closed = sd_closed sd, qo_q = (if same then q2 else q0)\<rparr>
            in Some (
                 case qerr of
                   Some (st, err) \<Rightarrow> (start_hangover (he_now2 env) st r1, out)
                 | None \<Rightarrow>
                     (case sd_server sd of
                        None \<Rightarrow> (r1, out)
                      | Some server \<Rightarrow>
                          (on_host (he_net env) (sd_hostname sd) (Confirm (ta_ip server)) r1, out))))"

definition doQuery :: "'x codec \<Rightarrow> http_env \<Rightarrow> bytes \<Rightarrow> resolver \<Rightarrow> (resolver \<times> q_out) option" where
  "doQuery cd env q r =
     (if length q < 2 then Some (r, q_fail None BadQuery (EMsg ''Query length'') q)
      else if he_now1 env < rv_hangover r then
        Some (r, q_fail (tryServfail cd q) HTTPError (EMsg ''Forwarder is in servfail hangover'') q)
      else case AddEdnsPadding cd q of
          Inl err \<Rightarrow> Some (r, q_fail None InternalError err q)
        | Inr (q', same) \<Rightarrow> doQuery_padded cd env q q' same r)"

subsection \<open>Query\<close>

definition qerr_error :: "query_error \<Rightarrow> goerr option" where
  "qerr_error qerr = map_option (\<lambda>(st, e). EQuery st e) qerr"

text \<open>The methods of \<open>queryError\<close>, over \<open>Error()\<close> of the error inside, and of \<open>httpError\<close>.\<close>

definition queryError_Error :: "(goerr \<Rightarrow> string) \<Rightarrow> dstatus \<times> goerr \<Rightarrow> string" where
  "queryError_Error err_text e = err_text (snd e)"

definition queryError_Unwrap :: "dstatus \<times> goerr \<Rightarrow> goerr" where
  "queryError_Unwrap e = snd e"

definition httpError_Error :: "nat \<Rightarrow> string" where
  "httpError_Error status = ''HTTP request failed: '' @ Itoa (int status)"

text \<open>As \<open>errors.Is\<close> and \<open>errors.As\<close> see it, the error that \<open>Query\<close> returns is the one inside.\<close>

lemma queryError_chain:
  "qerr_error (Some qe) = Some err \<Longrightarrow> errors_is err t \<longleftrightarrow> err = t \<or> errors_is (queryError_Unwrap qe) t"
  "qerr_error (Some qe) = Some err \<Longrightarrow> errors_as_http err = errors_as_http (queryError_Unwrap qe)"
  by (cases qe; auto simp: qerr_error_def queryError_Unwrap_def)+

definition errIsCancel :: "query_error \<Rightarrow> bool" where
  "errIsCancel qerr = (case qerr of None \<Rightarrow> False | Some (st, e) \<Rightarrow> errors_is (EQuery st e) ECanceled)"

definition http_status :: "query_error \<Rightarrow> nat" where
  "http_status qerr = (case qerr of None \<Rightarrow> 200
     | Some (st, e) \<Rightarrow> (case errors_as_http e of Some c \<Rightarrow> c | None \<Rightarrow> 0))"

definition summary_of :: "http_env \<Rightarrow> q_out \<Rightarrow> Summary" where
  "summary_of env out =
     \<lparr>sm_Latency = he_after env - he_before env, sm_Query = qo_q out, sm_Response = qo_response out,
      sm_Server = (case qo_server out of None \<Rightarrow> [] | Some s \<Rightarrow> ip_String (ta_ip s)),
      sm_Status = (case qo_qerr out of None \<Rightarrow> Complete | Some (st, e) \<Rightarrow> st),
      sm_HTTPStatus = http_status (qo_qerr out)\<rparr>"

record query_result =
  qr_response :: "bytes option"
  qr_err :: "goerr option"
  qr_events :: "event list"
  qr_log :: dns_log

definition Query :: "'x codec \<Rightarrow> http_env \<Rightarrow> bytes \<Rightarrow> resolver \<Rightarrow> (resolver \<times> query_result) option" where
  "Query cd env q r =
     (case doQuery cd env q r of
        None \<Rightarrow> None
      | Some (r', out) \<Rightarrow>
          let cancel = errIsCancel (qo_qerr out); err = qerr_error (qo_qerr out) in
          Some (r',
            \<lparr>qr_response = qo_response out, qr_err = err,
             qr_events = (if rv_listener r then OnQuery (rv_url r) #
                (if cancel then [] else [OnResponse (summary_of env out)]) else []),
             qr_log = LogDNSResolverQuery cd ''DoH'' (rv_url r) (qo_q out) (qo_response out)
                (he_before env) (he_after env) err cancel\<rparr>))"

subsection \<open>Lemmas\<close>

definition env_ok :: "http_env \<Rightarrow> bool" where
  "env_ok env \<longleftrightarrow> (\<forall>h. list_all valid_ip (fst (ne_lookup (he_net env) h)))
     \<and> (\<forall>req. \<forall>c\<in>set (do_conns (he_do env req)). \<forall>i. c = Some i \<longrightarrow> valid_ip (ta_ip (ci_remote i)))"

definition res_ok :: "resolver \<Rightarrow> bool" where
  "res_ok r \<longleftrightarrow> map_ok (rv_ips r)"

lemma restore_id [simp]: "2 \<le> length q \<Longrightarrow> put16 0 (be16 q) (put16 0 0 q) = q"
  by (simp add: put16_be16_id)

lemma on_host_fields [simp]:
  "rv_url (on_host ne h f r) = rv_url r" "rv_hostname (on_host ne h f r) = rv_hostname r"
  "rv_listener (on_host ne h f r) = rv_listener r" "rv_hangover (on_host ne h f r) = rv_hangover r"
  by (simp_all add: on_host_def split: prod.splits)

lemma start_hangover_fields [simp]:
  "rv_url (start_hangover t st r) = rv_url r" "rv_hostname (start_hangover t st r) = rv_hostname r"
  "rv_listener (start_hangover t st r) = rv_listener r" "rv_ips (start_hangover t st r) = rv_ips r"
  by (simp_all add: start_hangover_def)

lemma on_host_ok:
  assumes "res_ok r" "list_all valid_ip (fst (ne_lookup ne h))" "\<And>s. set_ok s \<Longrightarrow> set_ok (f s)"
  shows "res_ok (on_host ne h f r)"
proof -
  obtain m a where g: "Get (ne_lookup ne) h (rv_ips r) = (m, a)" by (cases "Get (ne_lookup ne) h (rv_ips r)")
  have m: "map_ok m \<and> a < length (im_heap m)" using Get_map_ok [OF _ assms(2) g] assms(1) by (simp add: res_ok_def)
  then show ?thesis
    using g assms(3) map_ok_at_set [of m a] by (simp add: res_ok_def on_host_def map_ok_upd at_set_def)
qed

lemma dial_map_ok:
  "map_ok m \<Longrightarrow> (\<And>h. list_all valid_ip (fst (ne_lookup ne h))) \<Longrightarrow> map_ok (fst (dial ne addr m))"
  by (auto simp: dial_def dial_ips_map_ok split: sum.splits)

lemma fold_dial_map_ok:
  "map_ok m \<Longrightarrow> (\<And>h. list_all valid_ip (fst (ne_lookup ne h))) \<Longrightarrow>
     map_ok (fold (\<lambda>addr m. fst (dial ne addr m)) addrs m)"
  by (induction addrs arbitrary: m) (auto intro: dial_map_ok)

lemma last_conn_in: "last_conn cs = Some c \<Longrightarrow> Some c \<in> set cs"
proof -
  have "fold (\<lambda>info conn. if info = None then conn else info) cs a = Some c \<Longrightarrow> Some c \<in> set cs \<or> a = Some c" for a
    by (induction cs arbitrary: a) (auto split: if_splits)
  then show "last_conn cs = Some c \<Longrightarrow> Some c \<in> set cs" by (auto simp: last_conn_def)
qed

text \<open>What \<open>sendRequest\<close> does, in one equation per component.\<close>

definition conn_of :: "http_env \<Rightarrow> http_req \<Rightarrow> conn_info option" where
  "conn_of env req = last_conn (do_conns (he_do env (with_headers req)))"

definition dialled :: "http_env \<Rightarrow> http_req \<Rightarrow> resolver \<Rightarrow> resolver" where
  "dialled env req r = r\<lparr>rv_ips := fold (\<lambda>addr m. fst (dial (he_net env) addr m))
     (do_dials (he_do env (with_headers req))) (rv_ips r)\<rparr>"

lemma sendRequest_eq:
  assumes "sendRequest env req r = (r1, sd)"
  shows "sd_server sd = map_option ci_remote (conn_of env req)"
    and "r1 = fst (send_cleanup (he_net env) (sd_hostname sd) (conn_of env req) (sd_qerr sd) (dialled env req r))"
    and "sd_closed sd = (if sd_qerr sd = None then None else map_option ci_id (conn_of env req))"
    and "sd_qerr sd = (case do_res (he_do env (with_headers req)) of
           Inl err \<Rightarrow> Some (SendFailed, err)
         | Inr resp \<Rightarrow> (case snd (ReadAll (hs_body resp)) of
               Some e \<Rightarrow> Some (BadResponse, e)
             | None \<Rightarrow> if hs_status resp \<noteq> 200 then Some (HTTPError, EHTTP (hs_status resp)) else None))"
    and "sd_qerr sd = None \<Longrightarrow> \<exists>resp. do_res (he_do env (with_headers req)) = Inr resp \<and> hs_status resp = 200
           \<and> ReadAll (hs_body resp) = (the_bytes (sd_response sd), None) \<and> sd_hostname sd = hs_host resp"
  using assms
  by (auto simp: sendRequest_def Let_def conn_of_def dialled_def send_cleanup_def the_bytes_def
      split: sum.splits prod.splits option.splits if_splits)

lemma sendRequest_fields:
  assumes "sendRequest env req r = (r1, sd)"
  shows "rv_url r1 = rv_url r" "rv_hostname r1 = rv_hostname r" "rv_listener r1 = rv_listener r"
    "rv_hangover r1 = rv_hangover r"
  unfolding sendRequest_eq(2) [OF assms]
  by (simp_all add: send_cleanup_def dialled_def split: option.splits)

lemma sendRequest_ok:
  assumes "sendRequest env req r = (r1, sd)" "res_ok r" "env_ok env"
  shows "res_ok r1"
proof -
  have "res_ok (dialled env req r)"
    using assms(2,3) by (auto simp: res_ok_def dialled_def env_ok_def intro!: fold_dial_map_ok)
  then show ?thesis
    unfolding sendRequest_eq(2) [OF assms(1)] using assms(3)
    by (auto simp: send_cleanup_def env_ok_def split: option.splits intro!: on_host_ok set_ok_Disconfirm)
qed

lemma doQuery_padded_sent:
  assumes "2 \<le> length q" "he_newreq env = None"
    and send: "sendRequest env \<lparr>hq_url = rv_url r, hq_headers = [], hq_body = put16 0 0 q\<rparr> r = (r1, sd)"
    and re: "(response, qerr) = (case sd_qerr sd of Some qe \<Rightarrow> (sd_response sd, Some qe)
          | None \<Rightarrow> check_id (be16 q) (sd_response sd))"
  shows "doQuery_padded cd env q0 q same r = Some (case qerr of
           Some (st, err) \<Rightarrow> start_hangover (he_now2 env) st r1
         | None \<Rightarrow> (case sd_server sd of None \<Rightarrow> r1
             | Some server \<Rightarrow> on_host (he_net env) (sd_hostname sd) (Confirm (ta_ip server)) r1),
         \<lparr>qo_response = (if qerr = None then response else tryServfail cd q),
         qo_server = sd_server sd, qo_qerr = qerr,
         qo_sent = Some (with_headers \<lparr>hq_url = rv_url r, hq_headers = [], hq_body = put16 0 0 q\<rparr>),
         qo_closed = sd_closed sd, qo_q = (if same then q else q0)\<rparr>)"
  using assms(1,2) by (simp add: doQuery_padded_def Let_def send re [symmetric] put16_be16_id split: option.split)

text \<open>The three ways out of \<open>doQuery\<close> before anything is sent, and the way through \<open>sendRequest\<close>.\<close>

lemma doQuery_cases:
  assumes law: "id_law cd" and run: "doQuery cd env q r = Some (r', out)"
  obtains (early) st err resp where "qo_response out = resp" "qo_server out = None"
      "qo_qerr out = Some (st, err)" "qo_sent out = None" "qo_closed out = None" "r' = r"
      "resp = None \<or> 2 \<le> length q \<and> st = HTTPError \<and> he_now1 env < rv_hangover r \<and> resp = tryServfail cd q"
      "qo_q out = q \<or> he_newreq env \<noteq> None"
  | (sent) q' same req r1 sd response qerr where
      "2 \<le> length q" "\<not> he_now1 env < rv_hangover r" "AddEdnsPadding cd q = Inr (q', same)"
      "12 \<le> length q'" "be16 q' = be16 q"
      "req = \<lparr>hq_url = rv_url r, hq_headers = [], hq_body = put16 0 0 q'\<rparr>"
      "sendRequest env req r = (r1, sd)"
      "(response, qerr) = (case sd_qerr sd of Some qe \<Rightarrow> (sd_response sd, Some qe)
          | None \<Rightarrow> check_id (be16 q) (sd_response sd))"
      "out = \<lparr>qo_response = (if qerr = None then response else tryServfail cd q'),
         qo_server = sd_server sd, qo_qerr = qerr, qo_sent = Some (with_headers req),
         qo_closed = sd_closed sd, qo_q = q\<rparr>"
      "r' = (case qerr of
           Some (st, err) \<Rightarrow> start_hangover (he_now2 env) st r1
         | None \<Rightarrow> (case sd_server sd of None \<Rightarrow> r1
             | Some server \<Rightarrow> on_host (he_net env) (sd_hostname sd) (Confirm (ta_ip server)) r1))"
proof (cases "2 \<le> length q \<and> \<not> he_now1 env < rv_hangover r")
  case False
  then show ?thesis using run early by (auto simp: doQuery_def q_fail_def split: if_splits)
next
  case True
  show ?thesis
  proof (cases "AddEdnsPadding cd q")
    case (Inl err)
    then show ?thesis using run early True by (auto simp: doQuery_def q_fail_def)
  next
    case (Inr p)
    obtain q' same where p: "p = (q', same)" by (cases p)
    note pad = Inr [unfolded p]
    have len: "12 \<le> length q'" "be16 q' = be16 q" using AddEdnsPadding_id [OF law pad] by auto
    have eq: "same \<Longrightarrow> q' = q" using AddEdnsPadding_same [of cd q q'] pad by auto
    show ?thesis
    proof (cases "he_newreq env")
      case (Some err)
      then show ?thesis using run early True pad len by (auto simp: doQuery_def doQuery_padded_def q_fail_def Let_def)
    next
      case None
      let ?req = "\<lparr>hq_url = rv_url r, hq_headers = [], hq_body = put16 0 0 q'\<rparr>"
      obtain r1 sd where send: "sendRequest env ?req r = (r1, sd)" by (cases "sendRequest env ?req r")
      obtain response qerr where re: "(response, qerr) = (case sd_qerr sd of Some qe \<Rightarrow> (sd_response sd, Some qe)
          | None \<Rightarrow> check_id (be16 q) (sd_response sd))" by (metis surj_pair)
      have step: "doQuery cd env q r = doQuery_padded cd env q q' same r"
        using True pad by (simp add: doQuery_def)
      have same: "(if same then q' else q) = q" using eq by simp
      have fin: "(r', out) = (case qerr of
           Some (st, err) \<Rightarrow> start_hangover (he_now2 env) st r1
         | None \<Rightarrow> (case sd_server sd of None \<Rightarrow> r1
             | Some server \<Rightarrow> on_host (he_net env) (sd_hostname sd) (Confirm (ta_ip server)) r1),
         \<lparr>qo_response = (if qerr = None then response else tryServfail cd q'),
         qo_server = sd_server sd, qo_qerr = qerr, qo_sent = Some (with_headers ?req),
         qo_closed = sd_closed sd, qo_q = q\<rparr>)"
        using doQuery_padded_sent [OF _ None send re [folded len(2)], of cd q same] len(1) run step
        unfolding same by (simp only: option.inject)
      show ?thesis
        by (rule sent [OF _ _ pad len refl send re]) (use True fin in simp_all)
    qed
  qed
qed

lemma check_id_None:
  "check_id qid resp = (r, None) \<Longrightarrow> \<exists>b. resp = Some b \<and> 2 \<le> length b \<and> be16 b = 0 \<and> r = Some (put16 0 qid b)"
  by (cases resp) (auto simp: check_id_def the_bytes_def Let_def split: if_splits)

text \<open>A query that succeeds, from the request to the bookkeeping.\<close>

lemma doQuery_success:
  assumes law: "id_law cd" and run: "doQuery cd env q r = Some (r', out)" and ok: "qo_qerr out = None"
  obtains q' same req resp b where "AddEdnsPadding cd q = Inr (q', same)"
    "req = \<lparr>hq_url = rv_url r, hq_headers = [], hq_body = put16 0 0 q'\<rparr>"
    "qo_sent out = Some (with_headers req)" "do_res (he_do env (with_headers req)) = Inr resp"
    "hs_status resp = 200" "ReadAll (hs_body resp) = (b, None)" "2 \<le> length b" "be16 b = 0"
    "qo_response out = Some (put16 0 (be16 q) b)"
    "qo_server out = map_option ci_remote (conn_of env req)" "qo_closed out = None"
    "r' = (case conn_of env req of None \<Rightarrow> dialled env req r
        | Some c \<Rightarrow> on_host (he_net env) (hs_host resp) (Confirm (ta_ip (ci_remote c))) (dialled env req r))"
  using law run
proof (cases rule: doQuery_cases)
  case (early st err resp)
  then show ?thesis using ok by simp
next
  case (sent q' same req r1 sd response qerr)
  have q: "qerr = None" using sent(9) ok by simp
  then have sd: "sd_qerr sd = None" "check_id (be16 q) (sd_response sd) = (response, None)"
    using sent(8) by (auto split: option.splits)
  note eqs = sendRequest_eq [OF sent(7)]
  obtain resp where resp: "do_res (he_do env (with_headers req)) = Inr resp" "hs_status resp = 200"
      "ReadAll (hs_body resp) = (the_bytes (sd_response sd), None)" "sd_hostname sd = hs_host resp"
    using eqs(5) [OF sd(1)] by blast
  obtain b where b: "sd_response sd = Some b" "2 \<le> length b" "be16 b = 0" "response = Some (put16 0 (be16 q) b)"
    using check_id_None [OF sd(2)] by blast
  show ?thesis
    using that [OF sent(3,6) _ resp(1,2) _ b(2,3)] sent(9,10) q b resp eqs(1,2,3) sd(1)
    by (simp add: the_bytes_def send_cleanup_def split: option.splits)
qed

subsection \<open>The contract\<close>

text \<open>
  The resolver with its codec and the environments of its queries to come, as a state of the locale
  \<open>dns_resolver\<close>.
\<close>

type_synonym 'x doh = "'x codec \<times> (nat \<Rightarrow> http_env) \<times> resolver"

definition doh_Query :: "'x doh query_fun" where
  "doh_Query s q = (case s of (cd, es, r) \<Rightarrow>
     map_option (\<lambda>(r', qr). ((cd, \<lambda>n. es (Suc n), r'), qr_response qr, qr_err qr)) (Query cd (es 0) q r))"

fun doh_ok :: "'x doh \<Rightarrow> bool" where
  "doh_ok (cd, es, r) \<longleftrightarrow> id_law cd \<and> res_ok r \<and> (\<forall>n. env_ok (es n))"

lemma doQuery_returns:
  assumes "id_law cd"
  shows "\<exists>r' out. doQuery cd env q r = Some (r', out)"
proof -
  have "2 \<le> length q'" if "AddEdnsPadding cd q = Inr (q', same)" for q' same
    using AddEdnsPadding_id [OF assms that] by simp
  then show ?thesis
    by (auto simp: doQuery_def doQuery_padded_def Let_def split: sum.splits option.splits prod.splits)
      (metis not_less)+
qed

lemma doQuery_ok:
  assumes law: "id_law cd" and run: "doQuery cd env q r = Some (r', out)" and r: "res_ok r" "env_ok env"
  shows "res_ok r'"
  using law run
proof (cases rule: doQuery_cases)
  case early
  then show ?thesis using r by simp
next
  case (sent q' same req r1 sd response qerr)
  have r1: "res_ok r1" by (rule sendRequest_ok [OF sent(7) r])
  have "valid_ip (ta_ip server)" if "sd_server sd = Some server" for server
    using that r(2) sendRequest_eq(1) [OF sent(7)]
    by (auto simp: conn_of_def env_ok_def dest!: last_conn_in)
  then show ?thesis
    using sent(10) r1 r(2)
    by (auto simp: res_ok_def [of "start_hangover _ _ _"] res_ok_def [symmetric] env_ok_def
        intro!: on_host_ok ipset.ok_confirm split: option.splits)
qed

lemma doQuery_response_id:
  assumes law: "id_law cd" and run: "doQuery cd env q r = Some (r', out)" and b: "qo_response out = Some b"
  shows "2 \<le> length b \<and> 2 \<le> length q \<and> be16 b = be16 q"
  using law run
proof (cases rule: doQuery_cases)
  case (early st err resp)
  then have "resp = Some b" using b by simp
  then show ?thesis using early(7) tryServfail_id [OF law, of q b] by auto
next
  case (sent q' same req r1 sd response qerr)
  show ?thesis
  proof (cases qerr)
    case None
    then have "check_id (be16 q) (sd_response sd) = (response, None)" "response = Some b"
      using sent(8,9) b by (auto split: option.splits)
    then obtain b0 where "2 \<le> length b0" "b = put16 0 (be16 q) b0" using check_id_None by blast
    then show ?thesis using sent(1) by simp
  next
    case (Some e)
    then have "tryServfail cd q' = Some b" using sent(9) b by simp
    then show ?thesis using tryServfail_id [OF law, of q' b] sent(1,5) by simp
  qed
qed

lemma doh_Query_eq:
  assumes "doh_ok s" "doh_Query s q = Some (s', resp, e)"
  obtains cd es r r' out where "s = (cd, es, r)" "doQuery cd (es 0) q r = Some (r', out)"
    "s' = (cd, \<lambda>n. es (Suc n), r')" "resp = qo_response out" "e = qerr_error (qo_qerr out)"
  using assms by (cases s) (auto simp: doh_Query_def Query_def Let_def split: option.splits)

interpretation doh: dns_resolver doh_ok doh_Query
proof unfold_locales
  fix s :: "'x doh" and q s' r e b
  assume s: "doh_ok s"
  show "\<exists>s' r e. doh_Query s q = Some (s', r, e) \<and> doh_ok s'"
  proof -
    obtain cd es rv where c: "s = (cd, es, rv)" by (cases s)
    obtain r' out where run: "doQuery cd (es 0) q rv = Some (r', out)"
      using doQuery_returns s c by (metis doh_ok.simps)
    have "res_ok r'" using doQuery_ok [OF _ run] s c by simp
    then show ?thesis using run s c by (simp add: doh_Query_def Query_def Let_def)
  qed
  show "doh_Query s q = Some (s', r, None) \<Longrightarrow> \<exists>b. r = Some b"
    using s by (elim doh_Query_eq [OF s]) (auto simp: qerr_error_def elim!: doQuery_success)
  show "doh_Query s q = Some (s', Some b, e) \<Longrightarrow> 2 \<le> length b \<and> 2 \<le> length q \<and> be16 b = be16 q"
    using s by (elim doh_Query_eq [OF s]) (auto dest!: sym [of "Some b"] doQuery_response_id)
qed

interpretation doh_tcp: dns_relay doh_ok doh_Query tcp_write tcp_stream
  by unfold_locales

subsection \<open>A resolver for examples\<close>

definition sample_conn :: conn_info where
  "sample_conn = \<lparr>ci_id = 7, ci_remote = \<lparr>ta_ip = [8, 8, 4, 4], ta_port = 443\<rparr>\<rparr>"

definition sample_res :: resolver where
  "sample_res = \<lparr>rv_url = ''https://dns.google/dns-query'', rv_hostname = ''dns.google'', rv_port = 443,
     rv_ips = fst (Get (ne_lookup sample_host) ''dns.google'' NewIPMap), rv_listener = True, rv_hangover = 0\<rparr>"

text \<open>A server that answers every request with the status and the body given.\<close>

definition sample_env :: "nat \<Rightarrow> bytes \<Rightarrow> http_env" where
  "sample_env status body = \<lparr>he_now1 = 100, he_now2 = 200, he_before = 50, he_after = 3000050, he_newreq = None,
     he_do = (\<lambda>req. \<lparr>do_dials = [''dns.google:443''], do_conns = [None, Some sample_conn],
       do_res = Inr \<lparr>hs_body = [(body, None)], hs_status = status, hs_host = ''dns.google''\<rparr>\<rparr>),
     he_net = sample_host\<rparr>"

definition sample_answer :: bytes where
  "sample_answer = [0, 0, 129, 128, 0, 1, 0, 0, 0, 0, 0, 0]"

lemma sample_env_ok: "env_ok (sample_env status body)"
  by (simp add: env_ok_def sample_env_def sample_host_def sample_conn_def valid_ip_def)

lemma sample_res_ok: "res_ok sample_res"
proof -
  obtain m a where g: "Get (ne_lookup sample_host) ''dns.google'' NewIPMap = (m, a)"
    by (cases "Get (ne_lookup sample_host) ''dns.google'' NewIPMap")
  have "map_ok NewIPMap" by (simp add: map_ok_def NewIPMap_def)
  then have "map_ok m" using Get_map_ok [OF _ _ g] by (simp add: sample_host_def valid_ip_def)
  then show ?thesis by (simp add: res_ok_def sample_res_def g)
qed

lemma sample_res_fields [simp]:
  "rv_hangover sample_res = 0" "rv_url sample_res = ''https://dns.google/dns-query''"
  "rv_hostname sample_res = ''dns.google''" "rv_listener sample_res"
  by (simp_all add: sample_res_def)

lemma sample_env_fields [simp]:
  "he_now1 (sample_env st b) = 100" "he_now2 (sample_env st b) = 200" "he_newreq (sample_env st b) = None"
  "he_net (sample_env st b) = sample_host"
  "he_do (sample_env st b) req = \<lparr>do_dials = [''dns.google:443''], do_conns = [None, Some sample_conn],
       do_res = Inr \<lparr>hs_body = [(b, None)], hs_status = st, hs_host = ''dns.google''\<rparr>\<rparr>"
  by (simp_all add: sample_env_def)

definition sample_req :: http_req where
  "sample_req = \<lparr>hq_url = ''https://dns.google/dns-query'', hq_headers = [],
     hq_body = put16 0 0 sample_padded_query\<rparr>"

text \<open>A query to the sample resolver, for any answer.\<close>

lemma sample_doQuery:
  "\<exists>r' out. doQuery sample_codec (sample_env st b) sample_query sample_res = Some (r', out)
     \<and> qo_sent out = Some (with_headers sample_req) \<and> qo_server out = Some (ci_remote sample_conn)
     \<and> qo_qerr out = (if st \<noteq> 200 then Some (HTTPError, EHTTP st) else snd (check_id (be16 sample_query) (Some b)))
     \<and> qo_q out = sample_query"
proof -
  obtain r' out where run: "doQuery sample_codec (sample_env st b) sample_query sample_res = Some (r', out)"
    using doQuery_returns [OF sample_id_law] by blast
  have len: "2 \<le> length sample_query" by (simp add: sample_query_def)
  have pad: "doQuery sample_codec (sample_env st b) sample_query sample_res
      = doQuery_padded sample_codec (sample_env st b) sample_query sample_padded_query False sample_res"
    using len sample_padded by (simp add: doQuery_def)
  have id: "be16 sample_padded_query = be16 sample_query"
    using AddEdnsPadding_id [OF sample_id_law sample_padded] by simp
  obtain r1 sd where send: "sendRequest (sample_env st b) sample_req sample_res = (r1, sd)"
    by (cases "sendRequest (sample_env st b) sample_req sample_res")
  note eqs = sendRequest_eq [OF send]
  have sd: "sd_server sd = Some (ci_remote sample_conn)"
    "sd_qerr sd = (if st \<noteq> 200 then Some (HTTPError, EHTTP st) else None)"
    using eqs(1,4) by (simp_all add: conn_of_def last_conn_def)
  have resp: "sd_response sd = Some b"
    using send by (auto simp: sendRequest_def Let_def split: prod.splits if_splits)
  obtain response qerr where re: "(response, qerr) = (case sd_qerr sd of Some qe \<Rightarrow> (sd_response sd, Some qe)
      | None \<Rightarrow> check_id (be16 sample_padded_query) (sd_response sd))" by (metis surj_pair)
  have len': "2 \<le> length sample_padded_query" by (simp add: length_sample_padded_query)
  have q: "qerr = (if st \<noteq> 200 then Some (HTTPError, EHTTP st) else snd (check_id (be16 sample_query) (Some b)))"
    using re sd resp id by (auto split: if_splits) (metis snd_conv)
  have send': "sendRequest (sample_env st b)
      \<lparr>hq_url = rv_url sample_res, hq_headers = [], hq_body = put16 0 0 sample_padded_query\<rparr> sample_res = (r1, sd)"
    using send by (simp add: sample_req_def)
  show ?thesis
    using run doQuery_padded_sent [OF len' _ send' re, of sample_codec sample_query False] pad sd(1) q
    by (auto simp: sample_req_def)
qed

subsection \<open>Properties of a query\<close>

text \<open>
  C10. \<open>Query\<close> always returns (no slice is indexed out of range), keeps the address sets well-formed,
  and keeps the promise of the \<open>Resolver\<close> interface: a response when there is no error, and every
  response, also a SERVFAIL that comes with an error, has the ID of the query.
\<close>

theorem doh_Query_contract:
  assumes "id_law cd" and "res_ok r" and "env_ok env"
  shows "\<exists>r' qr. Query cd env q r = Some (r', qr) \<and> res_ok r'
    \<and> (qr_err qr = None \<longrightarrow> qr_response qr \<noteq> None)
    \<and> (\<forall>b. qr_response qr = Some b \<longrightarrow> 2 \<le> length b \<and> 2 \<le> length q \<and> be16 b = be16 q)"
proof -
  let ?s = "(cd, \<lambda>n::nat. env, r)"
  have ok: "doh_ok ?s" using assms by simp
  obtain s' resp e where run: "doh_Query ?s q = Some (s', resp, e)" "doh_ok s'"
    using doh.query_returns [OF ok] by blast
  then obtain r' qr where q: "Query cd env q r = Some (r', qr)" "resp = qr_response qr" "e = qr_err qr"
      "s' = (cd, \<lambda>n. env, r')"
    by (auto simp: doh_Query_def)
  have "res_ok r'" using run(2) q by simp
  moreover have "qr_err qr = None \<longrightarrow> qr_response qr \<noteq> None"
    using doh.query_answer [OF ok, of q s' resp] run q by auto
  moreover have "\<forall>b. qr_response qr = Some b \<longrightarrow> 2 \<le> length b \<and> 2 \<le> length q \<and> be16 b = be16 q"
    using doh.query_id [OF ok, of q s' _ e] run q by auto
  ultimately show ?thesis using q(1) by (intro exI [of _ r'] exI [of _ qr] conjI)
qed

theorem doh_Query_contract_witness:
  "\<exists>r' qr. Query sample_codec (sample_env 404 []) sample_query sample_res = Some (r', qr) \<and> res_ok r'
    \<and> (qr_err qr = None \<longrightarrow> qr_response qr \<noteq> None)
    \<and> (\<forall>b. qr_response qr = Some b \<longrightarrow> 2 \<le> length b \<and> 2 \<le> length sample_query \<and> be16 b = be16 sample_query)"
  by (rule doh_Query_contract [OF sample_id_law sample_res_ok sample_env_ok])

text \<open>
  A query that succeeds was answered by the server: the request was a POST of the padded query
  with its ID cut out, the answer came with status 200 and an ID of zero, and the response is that
  answer with the ID of the query put in and nothing else changed.
\<close>

theorem doh_success_is_answer:
  assumes "id_law cd" and "doQuery cd env q r = Some (r', out)" and "qo_qerr out = None"
  shows "\<exists>q' same req resp b. AddEdnsPadding cd q = Inr (q', same) \<and> qo_sent out = Some req
    \<and> hq_url req = rv_url r \<and> hq_body req = enc16 0 @ drop 2 q'
    \<and> do_res (he_do env req) = Inr resp \<and> hs_status resp = 200 \<and> ReadAll (hs_body resp) = (enc16 0 @ b, None)
    \<and> qo_response out = Some (enc16 (be16 q) @ b)"
proof -
  obtain q' same req resp b where *: "AddEdnsPadding cd q = Inr (q', same)"
    "req = \<lparr>hq_url = rv_url r, hq_headers = [], hq_body = put16 0 0 q'\<rparr>"
    "qo_sent out = Some (with_headers req)" "do_res (he_do env (with_headers req)) = Inr resp"
    "hs_status resp = 200" "ReadAll (hs_body resp) = (b, None)" "2 \<le> length b" "be16 b = 0"
    "qo_response out = Some (put16 0 (be16 q) b)"
    using assms by (rule doQuery_success)
  have "12 \<le> length q'" using AddEdnsPadding_id [OF assms(1) *(1)] by simp
  then have "hq_body (with_headers req) = enc16 0 @ drop 2 q'"
    using *(2) by (simp add: with_headers_def put16_zero)
  moreover have "b = enc16 0 @ drop 2 b" using *(7,8) enc16_be16 [of b] by (metis append_take_drop_id)
  moreover have "put16 0 (be16 q) b = enc16 (be16 q) @ drop 2 b" using *(7) by (simp add: put16_zero)
  ultimately show ?thesis
    using * by (intro exI [of _ q'] exI [of _ same] exI [of _ "with_headers req"] exI [of _ resp] exI [of _ "drop 2 b"])
      (simp add: with_headers_def)
qed

definition sample_run :: "nat \<Rightarrow> bytes \<Rightarrow> resolver \<times> q_out" where
  "sample_run st b = the (doQuery sample_codec (sample_env st b) sample_query sample_res)"

lemma sample_run:
  "doQuery sample_codec (sample_env st b) sample_query sample_res = Some (fst (sample_run st b), snd (sample_run st b))"
  "qo_sent (snd (sample_run st b)) = Some (with_headers sample_req)"
  "qo_server (snd (sample_run st b)) = Some (ci_remote sample_conn)"
  "qo_qerr (snd (sample_run st b))
     = (if st \<noteq> 200 then Some (HTTPError, EHTTP st) else snd (check_id (be16 sample_query) (Some b)))"
  using sample_doQuery [of st b] by (auto simp: sample_run_def)

lemma sample_run_ok: "qo_qerr (snd (sample_run 200 sample_answer)) = None"
  unfolding sample_run(4) by (simp add: check_id_def the_bytes_def sample_answer_def be16_def)

theorem doh_success_is_answer_witness:
  "\<exists>q' same req resp b. AddEdnsPadding sample_codec sample_query = Inr (q', same)
    \<and> qo_sent (snd (sample_run 200 sample_answer)) = Some req
    \<and> hq_url req = rv_url sample_res \<and> hq_body req = enc16 0 @ drop 2 q'
    \<and> do_res (he_do (sample_env 200 sample_answer) req) = Inr resp \<and> hs_status resp = 200
    \<and> ReadAll (hs_body resp) = (enc16 0 @ b, None)
    \<and> qo_response (snd (sample_run 200 sample_answer)) = Some (enc16 (be16 sample_query) @ b)"
  by (rule doh_success_is_answer [OF sample_id_law sample_run(1) sample_run_ok])

text \<open>
  The server never sees a query ID, whatever becomes of the query, and the caller's slice is
  the same after the call as before (the ID is cut out of it in place and put back), provided
  \<open>http.NewRequestWithContext\<close> takes the URL.
\<close>

theorem doh_query_id_private:
  assumes "id_law cd" and "doQuery cd env q r = Some (r', out)"
  shows "(case qo_sent out of None \<Rightarrow> True
           | Some req \<Rightarrow> be16 (hq_body req) = 0 \<and> hq_url req = rv_url r \<and> 12 \<le> length (hq_body req))
    \<and> (he_newreq env = None \<longrightarrow> qo_q out = q)"
  using assms
proof (cases rule: doQuery_cases)
  case early
  then show ?thesis by auto
next
  case (sent q' same req r1 sd response qerr)
  then show ?thesis by (simp add: with_headers_def)
qed

theorem doh_query_id_private_witness:
  "(case qo_sent (snd (sample_run 404 [])) of None \<Rightarrow> True
     | Some req \<Rightarrow> be16 (hq_body req) = 0 \<and> hq_url req = rv_url sample_res \<and> 12 \<le> length (hq_body req))
    \<and> qo_q (snd (sample_run 404 [])) = sample_query"
  using doh_query_id_private [OF sample_id_law sample_run(1)] by simp

text \<open>
  The servfail hangover: after a query that reached the server and failed in any other way than
  by not being sent, every query of the next ten seconds is answered with a SERVFAIL of the
  resolver's own and an \<open>HTTPError\<close>; nothing is sent, and the resolver's state stays as it is.
\<close>

theorem doh_hangover:
  assumes "id_law cd" and "doQuery cd env q r = Some (r1, out1)" and "qo_sent out1 \<noteq> None"
    and "qo_qerr out1 = Some (st, err)" and "st \<noteq> SendFailed"
    and "he_now1 env' < he_now2 env + 10 * second" and "2 \<le> length p"
  shows "\<exists>out. doQuery cd env' p r1 = Some (r1, out) \<and> qo_sent out = None \<and> qo_response out = tryServfail cd p
    \<and> (\<exists>e. qo_qerr out = Some (HTTPError, e))"
  using assms(1,2)
proof (cases rule: doQuery_cases)
  case early
  then show ?thesis using assms(3) by simp
next
  case (sent q' same req rs sd response qerr)
  then have "rv_hangover r1 = he_now2 env + hangoverDuration"
    using assms(4,5) by (simp add: start_hangover_def)
  then have "he_now1 env' < rv_hangover r1" using assms(6) by (simp add: hangoverDuration_def)
  then show ?thesis using assms(7) by (simp add: doQuery_def q_fail_def)
qed

theorem doh_hangover_witness:
  "\<exists>out. doQuery sample_codec (sample_env 200 sample_answer) sample_query (fst (sample_run 404 []))
      = Some (fst (sample_run 404 []), out)
    \<and> qo_sent out = None \<and> qo_response out = tryServfail sample_codec sample_query
    \<and> (\<exists>e. qo_qerr out = Some (HTTPError, e))"
  by (rule doh_hangover [OF sample_id_law sample_run(1), where st = HTTPError and err = "EHTTP 404"])
    (simp_all add: sample_run second_def sample_query_def)

text \<open>
  The listener hears of every query once, first; it gets one response report after that, except
  when the query failed by cancellation (the report would deadlock a disconnecting caller). Without
  a listener nothing is reported. The reported status is \<open>Complete\<close> exactly when the caller gets no error.
\<close>

theorem doh_listener_reports:
  assumes "Query cd env q r = Some (r', qr)"
  shows "\<exists>out. doQuery cd env q r = Some (r', out) \<and> qr_response qr = qo_response out
    \<and> qr_events qr = (if \<not> rv_listener r then []
        else if errIsCancel (qo_qerr out) then [OnQuery (rv_url r)]
        else [OnQuery (rv_url r), OnResponse (summary_of env out)])
    \<and> (qo_qerr out = None \<longleftrightarrow> qr_err qr = None)
    \<and> (qr_err qr = None \<longrightarrow> sm_Status (summary_of env out) = Complete
         \<and> sm_HTTPStatus (summary_of env out) = 200)"
  using assms
  by (auto simp: Query_def Let_def qerr_error_def summary_of_def http_status_def errIsCancel_def split: option.splits)

theorem doh_listener_reports_witness:
  "\<exists>r' qr out. Query sample_codec (sample_env 200 sample_answer) sample_query sample_res = Some (r', qr)
    \<and> doQuery sample_codec (sample_env 200 sample_answer) sample_query sample_res = Some (r', out)
    \<and> qr_events qr = [OnQuery (rv_url sample_res), OnResponse (summary_of (sample_env 200 sample_answer) out)]"
proof -
  have "Query sample_codec (sample_env 200 sample_answer) sample_query sample_res \<noteq> None"
    unfolding Query_def sample_run(1) by (cases "sample_run 200 sample_answer") (simp add: Let_def)
  then obtain r' qr where q: "Query sample_codec (sample_env 200 sample_answer) sample_query sample_res = Some (r', qr)"
    by (metis not_None_eq surj_pair)
  from doh_listener_reports [OF this] q sample_run(1) [of 200 sample_answer] sample_run_ok
  show ?thesis by (auto simp: errIsCancel_def)
qed

subsection \<open>The server's address\<close>

text \<open>The address that the set of a host has confirmed, as the next \<open>dial\<close> will see it.\<close>

definition confirmed_for :: "string \<Rightarrow> resolver \<Rightarrow> ip option" where
  "confirmed_for h r = (case im_m (rv_ips r) h of None \<Rightarrow> None | Some a \<Rightarrow> working_of (at_set a (rv_ips r)))"

lemma confirmed_on_host:
  assumes "res_ok r" "list_all valid_ip (fst (ne_lookup ne h))"
  shows "\<exists>s. set_ok s \<and> confirmed_for h (on_host ne h f r) = working_of (f s)"
proof -
  obtain m a where g: "Get (ne_lookup ne) h (rv_ips r) = (m, a)" by (cases "Get (ne_lookup ne) h (rv_ips r)")
  have m: "map_ok m \<and> a < length (im_heap m)" using Get_map_ok [OF _ assms(2) g] assms(1) by (simp add: res_ok_def)
  have "im_m m h = Some a" using g by (auto simp: Get_def Let_def split: option.splits)
  then have "confirmed_for h (on_host ne h f r) = working_of (f (at_set a m))"
    using g m by (simp add: confirmed_for_def on_host_def upd_set_def at_set_def)
  moreover have "set_ok (at_set a m)" using m map_ok_at_set by blast
  ultimately show ?thesis by blast
qed

lemma dialled_ok: "res_ok r \<Longrightarrow> env_ok env \<Longrightarrow> res_ok (dialled env req r)"
  by (auto simp: res_ok_def dialled_def env_ok_def intro!: fold_dial_map_ok)

lemma conn_of_valid: "env_ok env \<Longrightarrow> conn_of env req = Some c \<Longrightarrow> valid_ip (ta_ip (ci_remote c))"
  by (auto simp: conn_of_def env_ok_def dest!: last_conn_in)

text \<open>
  After a query that succeeded over a known connection, the server's address is the confirmed
  address of the host that answered, so that the next dial tries it first; the connection is left open.
\<close>

theorem doh_success_confirms:
  assumes "id_law cd" and "res_ok r" and "env_ok env" and "doQuery cd env q r = Some (r', out)"
    and "qo_qerr out = None" and "qo_server out = Some server"
  shows "\<exists>req resp. qo_sent out = Some req \<and> do_res (he_do env req) = Inr resp
    \<and> confirmed_for (hs_host resp) r' = Some (ip_norm (ta_ip server)) \<and> qo_closed out = None"
proof -
  obtain q' same req resp b where *: "AddEdnsPadding cd q = Inr (q', same)"
    "req = \<lparr>hq_url = rv_url r, hq_headers = [], hq_body = put16 0 0 q'\<rparr>"
    "qo_sent out = Some (with_headers req)" "do_res (he_do env (with_headers req)) = Inr resp"
    "hs_status resp = 200" "ReadAll (hs_body resp) = (b, None)" "2 \<le> length b" "be16 b = 0"
    "qo_response out = Some (put16 0 (be16 q) b)"
    "qo_server out = map_option ci_remote (conn_of env req)" "qo_closed out = None"
    "r' = (case conn_of env req of None \<Rightarrow> dialled env req r
        | Some c \<Rightarrow> on_host (he_net env) (hs_host resp) (Confirm (ta_ip (ci_remote c))) (dialled env req r))"
    using assms(1,4,5) by (rule doQuery_success)
  obtain c where c: "conn_of env req = Some c" "ci_remote c = server" using *(10) assms(6) by (cases "conn_of env req") auto
  have valid: "valid_ip (ta_ip server)" using conn_of_valid [OF assms(3) c(1)] c(2) by simp
  have "list_all valid_ip (fst (ne_lookup (he_net env) (hs_host resp)))" using assms(3) by (simp add: env_ok_def)
  then obtain s where s: "set_ok s"
      "confirmed_for (hs_host resp) (on_host (he_net env) (hs_host resp) (Confirm (ta_ip server)) (dialled env req r))
         = working_of (Confirm (ta_ip server) s)"
    using confirmed_on_host [OF dialled_ok [OF assms(2,3)]] by blast
  then have "confirmed_for (hs_host resp) r' = Some (ip_norm (ta_ip server))"
    using *(12) c ipset.working_confirm [OF s(1) valid] by simp
  then show ?thesis using *(3,4,11) by blast
qed

theorem doh_success_confirms_witness:
  "\<exists>req resp. qo_sent (snd (sample_run 200 sample_answer)) = Some req
    \<and> do_res (he_do (sample_env 200 sample_answer) req) = Inr resp
    \<and> confirmed_for (hs_host resp) (fst (sample_run 200 sample_answer)) = Some (ip_norm (ta_ip (ci_remote sample_conn)))
    \<and> qo_closed (snd (sample_run 200 sample_answer)) = None"
  by (rule doh_success_confirms [OF sample_id_law sample_res_ok sample_env_ok sample_run(1) sample_run_ok sample_run(3)])

text \<open>
  C28. When the request itself fails on a connection (it cannot be sent, the body breaks off, the
  status is not 200), that connection is closed and its address is no longer the confirmed one of
  the host: the next dial starts with the others. (A broken connection never reached the redirect's host;
  for an HTTP status it is the host that answered.)
\<close>

theorem doh_failure_disconfirms:
  assumes "id_law cd" and "res_ok r" and "env_ok env" and "doQuery cd env q r = Some (r', out)"
    and "qo_sent out = Some req" and "last_conn (do_conns (he_do env req)) = Some c"
    and "(case do_res (he_do env req) of Inl e \<Rightarrow> host = rv_hostname r
           | Inr resp \<Rightarrow> (if snd (ReadAll (hs_body resp)) \<noteq> None then host = rv_hostname r
               else hs_status resp \<noteq> 200 \<and> host = hs_host resp))"
  shows "qo_closed out = Some (ci_id c) \<and> qo_qerr out \<noteq> None
    \<and> confirmed_for host r' \<noteq> Some (ip_norm (ta_ip (ci_remote c)))"
  using assms(1,4)
proof (cases rule: doQuery_cases)
  case early
  then show ?thesis using assms(5) by simp
next
  case (sent q' same req0 r1 sd response qerr)
  have req: "req = with_headers req0" using sent(9) assms(5) by simp
  note eqs = sendRequest_eq [OF sent(7)]
  have c: "conn_of env req0 = Some c" using assms(6) by (simp add: conn_of_def req)
  have err: "sd_qerr sd \<noteq> None" and host: "sd_hostname sd = host"
    using eqs(4) assms(7) sent(7)
    by (auto simp: req sendRequest_def Let_def split: sum.splits prod.splits option.splits if_splits)
  have valid: "valid_ip (ta_ip (ci_remote c))" by (rule conn_of_valid [OF assms(3) c])
  have "list_all valid_ip (fst (ne_lookup (he_net env) host))" using assms(3) by (simp add: env_ok_def)
  then obtain s where s: "set_ok s"
      "confirmed_for host (on_host (he_net env) host (Disconfirm (ta_ip (ci_remote c))) (dialled env req0 r))
         = working_of (Disconfirm (ta_ip (ci_remote c)) s)"
    using confirmed_on_host [OF dialled_ok [OF assms(2,3)]] by blast
  have "confirmed_for host r1 \<noteq> Some (ip_norm (ta_ip (ci_remote c)))"
    using s(2) ipset.working_disconfirm [OF s(1) valid] eqs(2) err host c by (auto simp: send_cleanup_def)
  moreover have "qerr \<noteq> None" "qerr = sd_qerr sd" using sent(8) err by auto
  ultimately show ?thesis
    using sent(9,10) eqs(3) err c by (auto simp: confirmed_for_def split: option.splits)
qed

theorem doh_failure_disconfirms_witness:
  "qo_closed (snd (sample_run 404 [])) = Some (ci_id sample_conn) \<and> qo_qerr (snd (sample_run 404 [])) \<noteq> None
    \<and> confirmed_for ''dns.google'' (fst (sample_run 404 [])) \<noteq> Some (ip_norm (ta_ip (ci_remote sample_conn)))"
  by (rule doh_failure_disconfirms [OF sample_id_law sample_res_ok sample_env_ok sample_run(1,2)])
    (simp_all add: last_conn_def)

text \<open>
  Dialling a server: a connection is found exactly when one of the host's known addresses
  answers; the confirmed address is tried first, every address at most once, and only addresses of
  the host's set; the connection is to the last address tried. Without a connection there is an error,
  unless the host has no address at all: then \<open>dial\<close> returns neither, \<open>(nil, nil)\<close>.
\<close>

theorem doh_dial_contract:
  assumes "norm_net ne" and "map_ok m" and "list_all valid_ip (fst (ne_lookup ne domain))"
    and "SplitHostPort addr = Inr (domain, portStr)" and "Atoi portStr = Inr port"
    and "Get (ne_lookup ne) domain m = (m1, a)"
  shows "dial_contract ne port (at_set a m1) (snd (dial ne addr m)) \<and> map_ok (fst (dial ne addr m))"
  using dial_ips_contract [OF assms(1,2,3,6)] dial_ips_map_ok [of m ne domain port] assms(2-5) by (simp add: dial_def)

theorem doh_dial_contract_witness:
  "dial_contract sample_host 443 (at_set 0 (rv_ips sample_res)) (snd (dial sample_host ''dns.google:443'' (rv_ips sample_res)))
   \<and> map_ok (fst (dial sample_host ''dns.google:443'' (rv_ips sample_res)))"
proof (rule doh_dial_contract)
  show "norm_net sample_host" by (simp add: norm_net_def sample_host_def)
  show "map_ok (rv_ips sample_res)" using sample_res_ok by (simp add: res_ok_def)
  show "list_all valid_ip (fst (ne_lookup sample_host ''dns.google''))" by (simp add: sample_host_def valid_ip_def)
  show "SplitHostPort ''dns.google:443'' = Inr (''dns.google'', ''443'')"
    using SplitHostPort_JoinHostPort [of "''dns.google''" "''443''"] by (simp add: JoinHostPort_def)
  show "Atoi ''443'' = Inr 443" by code_simp
  show "Get (ne_lookup sample_host) ''dns.google'' (rv_ips sample_res) = (rv_ips sample_res, 0)"
    by (simp add: sample_res_def Get_def NewIPMap_def Let_def)
qed

subsection \<open>A new resolver\<close>

lemma NewResolver_success:
  assumes "NewResolver parse lookup rawurl addrs listener = Inr r" and "\<forall>h. list_all valid_ip (fst (lookup h))"
  obtains u a where "parse rawurl = Inr u" "ul_Scheme u = ''https''" "rv_url r = rawurl" "rv_hostname r = url_Hostname u"
    "Get lookup (rv_hostname r) (rv_ips r) = (rv_ips r, a)"
    "pool_of (at_set a (rv_ips r)) = ip_norm ` (\<Union>h\<in>insert (rv_hostname r) (set addrs). set (fst (lookup h)))"
    "pool_of (at_set a (rv_ips r)) \<noteq> {}" "res_ok r"
proof -
  obtain u where u: "parse rawurl = Inr u" "ul_Scheme u = ''https''"
    using assms(1) by (auto simp: NewResolver_def split: sum.splits if_splits)
  obtain m1 a where g: "Get lookup (url_Hostname u) NewIPMap = (m1, a)" by (cases "Get lookup (url_Hostname u) NewIPMap")
  have r: "rv_url r = rawurl" "rv_hostname r = url_Hostname u" "rv_ips r = add_addrs lookup a addrs m1"
      "\<not> Empty (at_set a (add_addrs lookup a addrs m1))"
    using assms(1) u g by (auto simp: NewResolver_def Let_def split: sum.splits if_splits)
  note new = add_addrs_new [OF g assms(2) [rule_format], of addrs]
  show thesis
    by (rule that [of u a]) (use new u r in \<open>auto simp: res_ok_def Empty_pool\<close>)
qed

text \<open>
  A resolver that \<open>NewResolver\<close> returns is for an https URL, is ready for use, and knows the
  addresses that the host name and the bootstrap addresses resolve to: all of them, at least one, none
  besides, in the set that \<open>dial\<close> will find for the host.
\<close>

theorem doh_NewResolver_ready:
  assumes "NewResolver parse lookup rawurl addrs listener = Inr r" and "\<forall>h. list_all valid_ip (fst (lookup h))"
  shows "res_ok r \<and> GetURL r = rawurl
    \<and> (\<exists>u a. parse rawurl = Inr u \<and> ul_Scheme u = ''https'' \<and> rv_hostname r = url_Hostname u
         \<and> Get lookup (rv_hostname r) (rv_ips r) = (rv_ips r, a)
         \<and> pool_of (at_set a (rv_ips r)) = ip_norm ` (\<Union>h\<in>insert (rv_hostname r) (set addrs). set (fst (lookup h)))
         \<and> pool_of (at_set a (rv_ips r)) \<noteq> {})"
  using assms by (cases rule: NewResolver_success) (simp add: GetURL_def)

definition sample_url :: url_parts where
  "sample_url = \<lparr>ul_Scheme = ''https'', ul_Host = ''dns.google''\<rparr>"

lemma sample_url_host: "url_Hostname sample_url = ''dns.google''" "url_Port sample_url = []"
  by (simp_all add: url_Hostname_def url_Port_def url_splitHostPort_def sample_url_def last_index_of_def)

definition sample_new :: resolver where
  "sample_new = (case NewResolver (\<lambda>_. Inr sample_url) (ne_lookup sample_host) ''https://dns.google/'' [''8.8.8.8''] True of
     Inr r \<Rightarrow> r | Inl e \<Rightarrow> sample_res)"

lemma sample_new:
  "NewResolver (\<lambda>_. Inr sample_url) (ne_lookup sample_host) ''https://dns.google/'' [''8.8.8.8''] True = Inr sample_new"
proof -
  obtain m1 a where g: "Get (ne_lookup sample_host) ''dns.google'' NewIPMap = (m1, a)"
    by (cases "Get (ne_lookup sample_host) ''dns.google'' NewIPMap")
  have "pool_of (at_set a (add_addrs (ne_lookup sample_host) a [''8.8.8.8''] m1)) \<noteq> {}"
    using add_addrs_new [OF g, of "[''8.8.8.8'']"] by (auto simp: sample_host_def valid_ip_def)
  then have "\<not> Empty (at_set a (add_addrs (ne_lookup sample_host) a [''8.8.8.8''] m1))" by (simp add: Empty_pool)
  then show ?thesis
    using g by (simp add: sample_new_def NewResolver_def sample_url_host Let_def) (simp add: sample_url_def)
qed

theorem doh_NewResolver_ready_witness:
  "res_ok sample_new \<and> GetURL sample_new = ''https://dns.google/''
    \<and> (\<exists>u a. (Inr sample_url :: goerr + url_parts) = Inr u \<and> ul_Scheme u = ''https'' \<and> rv_hostname sample_new = url_Hostname u
         \<and> Get (ne_lookup sample_host) (rv_hostname sample_new) (rv_ips sample_new) = (rv_ips sample_new, a)
         \<and> pool_of (at_set a (rv_ips sample_new))
             = ip_norm ` (\<Union>h\<in>insert (rv_hostname sample_new) (set [''8.8.8.8'']). set (fst (ne_lookup sample_host h)))
         \<and> pool_of (at_set a (rv_ips sample_new)) \<noteq> {})"
  by (rule doh_NewResolver_ready [OF sample_new]) (simp add: sample_host_def valid_ip_def)

end
