(* ===== verification/DohOverlap.thy ===== *)
theory DohOverlap
  imports DohResolver Overlap
begin

section \<open>Overlapping queries on one DoH resolver (proxy/doh/doh.go)\<close>

text \<open>
  Every query of every client runs in a goroutine of its own on the same resolver. What they share is the hangover,
  under its lock, and the address sets, under theirs; the relation \<open>ovstep\<close> has a step for each section, so that any
  number of queries may be under way and overlap in any order. \<open>DohResolver\<close> has a query as one function; it is shown to
  be a run of these steps.
\<close>

subsection \<open>Phases of a query\<close>

text \<open>
  Not called yet; called with a slice; in \<open>client.Do\<close> with the padded query (\<open>same\<close>: it is the caller's slice); the body
  of the response read, or the request failed; past the clean-up of \<open>sendRequest\<close>; returned, with what the client did if
  a request was made; a slice indexed out of its range.
\<close>

datatype qpc = QNone | QCalled bytes | QDoing bytes bytes bool | QReplied bytes bytes bool do_result
  | QCleaned bytes bytes bool do_result | QReturned bytes "do_result option" q_out | QPanic

record overlap =
  ov_res :: resolver
  ov_now :: gotime
  ov_q :: "nat \<Rightarrow> qpc"

text \<open>\<open>doQuery\<close> up to \<open>client.Do\<close>; \<open>newreq\<close> is the error of \<open>NewRequestWithContext\<close>.\<close>

definition start_query :: "'x codec \<Rightarrow> goerr option \<Rightarrow> gotime \<Rightarrow> resolver \<Rightarrow> bytes \<Rightarrow> qpc" where
  "start_query cd newreq now r q =
     (if length q < 2 then QReturned q None (q_fail None BadQuery (EMsg ''Query length'') q)
      else if now < rv_hangover r then
        QReturned q None (q_fail (tryServfail cd q) HTTPError (EMsg ''Forwarder is in servfail hangover'') q)
      else case AddEdnsPadding cd q of
          Inl err \<Rightarrow> QReturned q None (q_fail None InternalError err q)
        | Inr (q', same) \<Rightarrow>
            if length q' < 2 then QPanic
            else case newreq of
              Some err \<Rightarrow> QReturned q None (q_fail None InternalError err (if same then put16 0 0 q' else q))
            | None \<Rightarrow> QDoing q q' same)"

text \<open>The request that is in \<open>client.Do\<close>.\<close>

definition query_req :: "resolver \<Rightarrow> bytes \<Rightarrow> http_req" where
  "query_req r q' = with_headers \<lparr>hq_url = rv_url r, hq_headers = [], hq_body = put16 0 0 q'\<rparr>"

text \<open>What \<open>sendRequest\<close> makes of the client's result: the response, the host and the error.\<close>

definition do_outcome :: "string \<Rightarrow> do_result \<Rightarrow> bytes option \<times> string \<times> query_error" where
  "do_outcome hostname d =
     (case do_res d of
        Inl err \<Rightarrow> (None, hostname, Some (SendFailed, err))
      | Inr httpResponse \<Rightarrow>
          (case ReadAll (hs_body httpResponse) of (body, err) \<Rightarrow>
             (case err of
                Some e \<Rightarrow> (Some body, hostname, Some (BadResponse, e))
              | None \<Rightarrow>
                  (Some body, hs_host httpResponse,
                   if hs_status httpResponse \<noteq> 200
                   then Some (HTTPError, EHTTP (hs_status httpResponse)) else None))))"

definition cleanup :: "net_env \<Rightarrow> do_result \<Rightarrow> resolver \<Rightarrow> resolver" where
  "cleanup ne d r =
     (case do_outcome (rv_hostname r) d of (response, hostname, qerr) \<Rightarrow>
        fst (send_cleanup ne hostname (last_conn (do_conns d)) qerr r))"

text \<open>The rest of \<open>doQuery\<close>: the check of the ID, and the hangover or the confirmation.\<close>

definition finish_query :: "'x codec \<Rightarrow> net_env \<Rightarrow> gotime \<Rightarrow> resolver \<Rightarrow> bytes \<Rightarrow> bytes \<Rightarrow> bool \<Rightarrow> do_result
    \<Rightarrow> resolver \<times> q_out" where
  "finish_query cd ne now r q q' same d =
     (case do_outcome (rv_hostname r) d of (resp, hostname, qe) \<Rightarrow>
        let conn = last_conn (do_conns d);
            server = map_option ci_remote conn;
            q2 = put16 0 (be16 q') (put16 0 0 q');
            (response, qerr) = (case qe of Some e \<Rightarrow> (resp, Some e) | None \<Rightarrow> check_id (be16 q') resp);
            out = \<lparr>qo_response = (if qerr = None then response else tryServfail cd q2),
                   qo_server = server, qo_qerr = qerr, qo_sent = Some (query_req r q'),
                   qo_closed = (if qe = None then None else map_option ci_id conn), qo_q = (if same then q2 else q)\<rparr>
        in (case qerr of
              Some (st, err) \<Rightarrow> start_hangover now st r
            | None \<Rightarrow> (case server of None \<Rightarrow> r | Some sv \<Rightarrow> on_host ne hostname (Confirm (ta_ip sv)) r), out))"

subsection \<open>Steps\<close>

definition lookups_ok :: "net_env \<Rightarrow> bool" where
  "lookups_ok ne \<longleftrightarrow> (\<forall>h. list_all valid_ip (fst (ne_lookup ne h)))"

definition conns_valid :: "do_result \<Rightarrow> bool" where
  "conns_valid d \<longleftrightarrow> (\<forall>c\<in>set (do_conns d). \<forall>i. c = Some i \<longrightarrow> valid_ip (ta_ip (ci_remote i)))"

text \<open>
  \<open>ov_get\<close> and \<open>ov_disconfirm\<close> are what the transport's own calls of \<open>dial\<close> do to the address sets, at any time.
\<close>

inductive ovstep :: "'x codec \<Rightarrow> overlap \<Rightarrow> overlap \<Rightarrow> bool" for cd :: "'x codec" where
  ov_call: "ov_q s i = QNone \<Longrightarrow> ovstep cd s (s\<lparr>ov_q := (ov_q s)(i := QCalled q)\<rparr>)"
| ov_check: "ov_q s i = QCalled q \<Longrightarrow>
     ovstep cd s (s\<lparr>ov_q := (ov_q s)(i := start_query cd newreq (ov_now s) (ov_res s) q)\<rparr>)"
| ov_done: "ov_q s i = QDoing q q' same \<Longrightarrow> conns_valid d \<Longrightarrow>
     ovstep cd s (s\<lparr>ov_q := (ov_q s)(i := QReplied q q' same d)\<rparr>)"
| ov_cleanup: "ov_q s i = QReplied q q' same d \<Longrightarrow> lookups_ok ne \<Longrightarrow>
     ovstep cd s (s\<lparr>ov_res := cleanup ne d (ov_res s), ov_q := (ov_q s)(i := QCleaned q q' same d)\<rparr>)"
| ov_finish: "ov_q s i = QCleaned q q' same d \<Longrightarrow> lookups_ok ne \<Longrightarrow>
     finish_query cd ne (ov_now s) (ov_res s) q q' same d = (r', out) \<Longrightarrow>
     ovstep cd s (s\<lparr>ov_res := r', ov_q := (ov_q s)(i := QReturned q (Some d) out)\<rparr>)"
| ov_get: "lookups_ok ne \<Longrightarrow>
     ovstep cd s (s\<lparr>ov_res := (ov_res s)\<lparr>rv_ips := fst (Get (ne_lookup ne) h (rv_ips (ov_res s)))\<rparr>\<rparr>)"
| ov_disconfirm: "a < length (im_heap (rv_ips (ov_res s))) \<Longrightarrow>
     ovstep cd s (s\<lparr>ov_res := (ov_res s)\<lparr>rv_ips := upd_set a (Disconfirm ip) (rv_ips (ov_res s))\<rparr>\<rparr>)"
| ov_tick: "ov_now s \<le> t \<Longrightarrow> ovstep cd s (s\<lparr>ov_now := t\<rparr>)"

inductive_cases ovstepE: "ovstep cd s s'"

text \<open>A resolver with no query yet, at a time not long before its hangover ends, and what it can come to.\<close>

definition ov_start :: "resolver \<Rightarrow> gotime \<Rightarrow> overlap" where
  "ov_start r now = \<lparr>ov_res = r, ov_now = now, ov_q = (\<lambda>i. QNone)\<rparr>"

definition ovreach :: "'x codec \<Rightarrow> resolver \<Rightarrow> overlap \<Rightarrow> bool" where
  "ovreach cd r s \<longleftrightarrow> (\<exists>now. rv_hangover r \<le> now + hangoverDuration \<and> (ovstep cd)\<^sup>*\<^sup>* (ov_start r now) s)"

subsection \<open>Invariant\<close>

text \<open>A result: an ID that is the query's, and for a success the body of a good answer to the padded query.\<close>

definition answer_of :: "'x codec \<Rightarrow> bytes \<Rightarrow> do_result option \<Rightarrow> q_out \<Rightarrow> bool" where
  "answer_of cd q d out \<longleftrightarrow>
     (\<forall>b. qo_response out = Some b \<longrightarrow> 2 \<le> length b \<and> 2 \<le> length q \<and> be16 b = be16 q)
     \<and> (case qo_sent out of None \<Rightarrow> True
        | Some req \<Rightarrow> \<exists>q' same. AddEdnsPadding cd q = Inr (q', same) \<and> hq_body req = put16 0 0 q')
     \<and> (qo_qerr out = None \<longrightarrow> (\<exists>x resp b. d = Some x \<and> do_res x = Inr resp \<and> hs_status resp = 200
          \<and> ReadAll (hs_body resp) = (b, None) \<and> 2 \<le> length b \<and> be16 b = 0 \<and> qo_sent out \<noteq> None
          \<and> qo_response out = Some (put16 0 (be16 q) b)))"

fun qpc_ok :: "'x codec \<Rightarrow> qpc \<Rightarrow> bool" where
  "qpc_ok cd QNone = True"
| "qpc_ok cd (QCalled q) = True"
| "qpc_ok cd (QDoing q q' same) = (2 \<le> length q \<and> AddEdnsPadding cd q = Inr (q', same))"
| "qpc_ok cd (QReplied q q' same d) = (2 \<le> length q \<and> AddEdnsPadding cd q = Inr (q', same) \<and> conns_valid d)"
| "qpc_ok cd (QCleaned q q' same d) = (2 \<le> length q \<and> AddEdnsPadding cd q = Inr (q', same) \<and> conns_valid d)"
| "qpc_ok cd (QReturned q d out) = answer_of cd q d out"
| "qpc_ok cd QPanic = False"

definition ov_inv :: "'x codec \<Rightarrow> overlap \<Rightarrow> bool" where
  "ov_inv cd s \<longleftrightarrow> res_ok (ov_res s) \<and> rv_hangover (ov_res s) \<le> ov_now s + hangoverDuration
     \<and> (\<forall>i. qpc_ok cd (ov_q s i))"

lemma start_query_ok:
  assumes "id_law cd"
  shows "qpc_ok cd (start_query cd newreq now r q)"
proof (cases "AddEdnsPadding cd q")
  case (Inr p)
  obtain q' same where p: "p = (q', same)" by (cases p)
  have "12 \<le> length q'" using AddEdnsPadding_id [OF assms] Inr p by blast
  then show ?thesis
    using Inr p tryServfail_id [OF assms, of q]
    by (auto simp: start_query_def answer_of_def q_fail_def split: option.split)
qed (use tryServfail_id [OF assms, of q] in \<open>auto simp: start_query_def answer_of_def q_fail_def\<close>)

lemma do_outcome_ok:
  "do_outcome h d = (resp, host, None) \<Longrightarrow>
     \<exists>x b. do_res d = Inr x \<and> hs_status x = 200 \<and> ReadAll (hs_body x) = (b, None) \<and> resp = Some b"
  by (auto simp: do_outcome_def split: sum.splits prod.splits option.splits if_splits)

lemma last_conn_valid: "conns_valid d \<Longrightarrow> last_conn (do_conns d) = Some c \<Longrightarrow> valid_ip (ta_ip (ci_remote c))"
  using last_conn_in by (fastforce simp: conns_valid_def)

lemma cleanup_ok:
  assumes "res_ok r" "conns_valid d" "lookups_ok ne"
  shows "res_ok (cleanup ne d r)" "rv_hangover (cleanup ne d r) = rv_hangover r"
  using assms
  by (auto simp: cleanup_def send_cleanup_def lookups_ok_def split: prod.splits option.splits
      intro!: on_host_ok set_ok_Disconfirm)

lemma finish_query_ok:
  assumes law: "id_law cd" and q: "2 \<le> length q" "AddEdnsPadding cd q = Inr (q', same)"
    and d: "conns_valid d" "lookups_ok ne" and r: "res_ok r" "rv_hangover r \<le> now + hangoverDuration"
    and fin: "finish_query cd ne now r q q' same d = (r', out)"
  shows "answer_of cd q (Some d) out" "res_ok r'" "rv_hangover r' \<le> now + hangoverDuration"
    "rv_hangover r \<le> rv_hangover r'"
proof -
  obtain resp host qe where o: "do_outcome (rv_hostname r) d = (resp, host, qe)" by (metis prod_cases3)
  obtain response qerr where re: "(case qe of Some e \<Rightarrow> (resp, Some e) | None \<Rightarrow> check_id (be16 q') resp) = (response, qerr)"
    by (metis surj_pair)
  let ?conn = "last_conn (do_conns d)"
  have pad: "12 \<le> length q'" "be16 q' = be16 q" using AddEdnsPadding_id [OF law q(2)] by simp_all
  have id: "put16 0 (be16 q) q' = q'" using put16_be16_id [of q'] pad by simp
  have out: "out = \<lparr>qo_response = (if qerr = None then response else tryServfail cd q'),
      qo_server = map_option ci_remote ?conn, qo_qerr = qerr, qo_sent = Some (query_req r q'),
      qo_closed = (if qe = None then None else map_option ci_id ?conn), qo_q = (if same then q' else q)\<rparr>"
    and r': "r' = (case qerr of
        Some (st, err) \<Rightarrow> start_hangover now st r
      | None \<Rightarrow> (case map_option ci_remote ?conn of None \<Rightarrow> r | Some sv \<Rightarrow> on_host ne host (Confirm (ta_ip sv)) r))"
    using fin o re pad id by (auto simp: finish_query_def Let_def)
  have good: "\<exists>x b. do_res d = Inr x \<and> hs_status x = 200 \<and> ReadAll (hs_body x) = (b, None) \<and> 2 \<le> length b \<and> be16 b = 0
      \<and> response = Some (put16 0 (be16 q) b)" if "qerr = None"
  proof -
    have "qe = None" "check_id (be16 q) resp = (response, None)" using re that pad(2) by (auto split: option.splits)
    then show ?thesis using do_outcome_ok [of "rv_hostname r" d resp host] check_id_None o by fastforce
  qed
  have "\<exists>k. be16 k = be16 q \<and> 2 \<le> length k \<and> qo_response out = Some k" if "qo_response out = Some b" for b
  proof (cases "qerr = None")
    case True
    then show ?thesis using good out by auto
  next
    case False
    then show ?thesis using that tryServfail_id [OF law, of q'] pad out by auto
  qed
  then show "answer_of cd q (Some d) out"
    using good q out by (auto simp: answer_of_def query_req_def with_headers_def)
  show "res_ok r'"
    unfolding r' using r(1) d last_conn_valid [OF d(1)]
    by (auto simp: res_ok_def lookups_ok_def split: option.split prod.split
        intro!: on_host_ok [unfolded res_ok_def] set_ok_confirm_locked simp: Confirm_def)
  show "rv_hangover r' \<le> now + hangoverDuration" "rv_hangover r \<le> rv_hangover r'"
    unfolding r' using r(2) by (auto simp: start_hangover_def split: option.split prod.split)
qed

lemma ov_step_res:
  assumes "id_law cd" and "ovstep cd s s'" and "ov_inv cd s"
  shows "res_ok (ov_res s') \<and> rv_hangover (ov_res s') \<le> ov_now s' + hangoverDuration
    \<and> rv_hangover (ov_res s) \<le> rv_hangover (ov_res s') \<and> ov_now s \<le> ov_now s'"
  using assms(2)
proof (cases rule: ovstep.cases)
  case (ov_cleanup i q q' same d ne)
  have "conns_valid d" using assms(3) ov_cleanup(2) unfolding ov_inv_def by (metis qpc_ok.simps(4))
  then show ?thesis using assms(3) ov_cleanup cleanup_ok by (simp add: ov_inv_def)
next
  case (ov_finish i q q' same d ne r' out)
  have "qpc_ok cd (QCleaned q q' same d)" using assms(3) ov_finish(2) unfolding ov_inv_def by metis
  then show ?thesis
    using finish_query_ok [OF assms(1) _ _ _ ov_finish(3) _ _ ov_finish(4)] assms(3) ov_finish(1) by (auto simp: ov_inv_def)
next
  case (ov_get ne h)
  obtain m a where g: "Get (ne_lookup ne) h (rv_ips (ov_res s)) = (m, a)" by (metis surj_pair)
  have "map_ok m" using Get_map_ok [OF _ _ g] assms(3) ov_get(2) by (simp add: ov_inv_def res_ok_def lookups_ok_def)
  then show ?thesis using assms(3) ov_get g by (simp add: ov_inv_def res_ok_def)
next
  case (ov_disconfirm a ip)
  have "map_ok (upd_set a (Disconfirm ip) (rv_ips (ov_res s)))"
    using assms(3) ov_disconfirm(2)
    by (intro map_ok_upd set_ok_Disconfirm) (auto simp: ov_inv_def res_ok_def map_ok_def list_all_length)
  then show ?thesis using assms(3) ov_disconfirm by (simp add: ov_inv_def res_ok_def)
qed (use assms(3) in \<open>auto simp: ov_inv_def\<close>)

lemma ov_step_queries:
  assumes "id_law cd" and "ovstep cd s s'" and "ov_inv cd s"
  shows "qpc_ok cd (ov_q s' i)"
proof -
  have all: "qpc_ok cd (ov_q s j)" for j using assms(3) by (simp add: ov_inv_def)
  show ?thesis
    using assms(2)
  proof (cases rule: ovstep.cases)
    case (ov_check j q newreq)
    then show ?thesis using all start_query_ok [OF assms(1)] by simp
  next
    case (ov_done j q q' same d)
    then show ?thesis using all [of i] all [of j] by auto
  next
    case (ov_cleanup j q q' same d ne)
    then show ?thesis using all [of i] all [of j] by auto
  next
    case (ov_finish j q q' same d ne r' out)
    have "qpc_ok cd (QCleaned q q' same d)" using all [of j] ov_finish(2) by simp
    then have "answer_of cd q (Some d) out"
      using finish_query_ok(1) [OF assms(1) _ _ _ ov_finish(3) _ _ ov_finish(4)] assms(3) by (auto simp: ov_inv_def)
    then show ?thesis using ov_finish(1) all by simp
  qed (use all in auto)
qed

lemma ov_inv_step: "id_law cd \<Longrightarrow> ovstep cd s s' \<Longrightarrow> ov_inv cd s \<Longrightarrow> ov_inv cd s'"
  using ov_step_res ov_step_queries by (auto simp: ov_inv_def [of cd s'])

lemma ov_run_inv: "(ovstep cd)\<^sup>*\<^sup>* s s' \<Longrightarrow> id_law cd \<Longrightarrow> ov_inv cd s \<Longrightarrow> ov_inv cd s'"
  by (induction rule: rtranclp_induct) (auto intro: ov_inv_step)

lemma ovreach_inv: "id_law cd \<Longrightarrow> res_ok r \<Longrightarrow> ovreach cd r s \<Longrightarrow> ov_inv cd s"
  using ov_run_inv unfolding ovreach_def by (fastforce simp: ov_inv_def ov_start_def)

subsection \<open>The sequential query is a run\<close>

lemma do_outcome_eq:
  "sendRequest env req r = (r1, sd) \<Longrightarrow>
     do_outcome (rv_hostname r) (he_do env (with_headers req)) = (sd_response sd, sd_hostname sd, sd_qerr sd)"
  by (auto simp: sendRequest_def do_outcome_def Let_def split: sum.splits prod.splits option.splits)

abbreviation "set_ips s m \<equiv> s\<lparr>ov_res := (ov_res s)\<lparr>rv_ips := m\<rparr>\<rparr>"

lemma run_step: "(ovstep cd)\<^sup>*\<^sup>* s t \<Longrightarrow> ovstep cd t u \<Longrightarrow> (ovstep cd)\<^sup>*\<^sup>* s u"
  by (rule rtranclp.rtrancl_into_rtrancl)

lemma dial_run:
  assumes "lookups_ok ne" and "map_ok (rv_ips (ov_res s))"
  shows "(ovstep cd)\<^sup>*\<^sup>* s (set_ips s (fst (dial ne addr (rv_ips (ov_res s)))))"
proof (cases "SplitHostPort addr")
  case (Inr p)
  obtain domain portStr where p: "p = (domain, portStr)" by (cases p)
  show ?thesis
  proof (cases "Atoi portStr")
    case (Inr port)
    let ?m = "rv_ips (ov_res s)"
    obtain m1 a where g: "Get (ne_lookup ne) domain ?m = (m1, a)" by (metis surj_pair)
    have a: "a < length (im_heap m1)" using Get_map_ok [OF assms(2) _ g] assms(1) by (simp add: lookups_ok_def)
    have 1: "ovstep cd s (set_ips s m1)" using ov_get [OF assms(1), of cd s domain] g by simp
    have 2: "ovstep cd (set_ips s m1) (set_ips s (upd_set a (Disconfirm ip) m1))" for ip
      using ov_disconfirm [of a "set_ips s m1" cd ip] a by simp
    have "dial ne addr ?m = dial_ips ne domain port ?m" using \<open>SplitHostPort addr = Inr p\<close> p Inr by (simp add: dial_def)
    then show ?thesis
      unfolding dial_ips_map [OF g] using run_step [OF r_into_rtranclp [of "ovstep cd", OF 1] 2] 1
      by (auto simp: dial_ips_map [OF g])
  qed (use \<open>SplitHostPort addr = Inr p\<close> p in \<open>simp add: dial_def\<close>)
qed (simp add: dial_def)

lemma dials_run:
  assumes "lookups_ok ne" and "map_ok (rv_ips (ov_res s))"
  shows "(ovstep cd)\<^sup>*\<^sup>* s (set_ips s (fold (\<lambda>addr m. fst (dial ne addr m)) addrs (rv_ips (ov_res s))))"
  using assms(2)
proof (induction addrs arbitrary: s)
  case (Cons addr addrs)
  let ?s = "set_ips s (fst (dial ne addr (rv_ips (ov_res s))))"
  have "map_ok (rv_ips (ov_res ?s))"
    using Cons.prems assms(1) dial_map_ok [of "rv_ips (ov_res s)" ne addr] by (simp add: lookups_ok_def)
  from rtranclp_trans [OF dial_run [OF assms(1) Cons.prems] Cons.IH [OF this]] show ?case by simp
qed simp

text \<open>The end of a query with the connections and the reply of \<open>sendRequest\<close> is the end of \<open>doQuery\<close>.\<close>

lemma finish_query_sent:
  assumes "id_law cd" and "doQuery cd env q r = Some (r', out)" and q: "2 \<le> length q" "\<not> he_now1 env < rv_hangover r"
      "AddEdnsPadding cd q = Inr (q', same)" "he_newreq env = None"
    and send: "sendRequest env \<lparr>hq_url = rv_url r, hq_headers = [], hq_body = put16 0 0 q'\<rparr> r = (r1, sd)"
  shows "finish_query cd (he_net env) (he_now2 env) r1 q q' same
    (he_do env (with_headers \<lparr>hq_url = rv_url r, hq_headers = [], hq_body = put16 0 0 q'\<rparr>)) = (r', out)"
    (is "finish_query _ _ _ _ _ _ _ (he_do env (with_headers ?req)) = _")
proof -
  let ?d = "he_do env (with_headers ?req)"
  have pad: "12 \<le> length q'" "be16 q' = be16 q" using AddEdnsPadding_id [OF assms(1) q(3)] by simp_all
  note outcome = do_outcome_eq [OF send]
  obtain response qerr where re: "(response, qerr) = (case sd_qerr sd of Some qe \<Rightarrow> (sd_response sd, Some qe)
      | None \<Rightarrow> check_id (be16 q') (sd_response sd))" by (metis surj_pair)
  have step: "doQuery cd env q r = doQuery_padded cd env q q' same r" using q by (simp add: doQuery_def)
  have srv: "map_option ci_remote (last_conn (do_conns ?d)) = sd_server sd"
    and cl: "(if sd_qerr sd = None then None else map_option ci_id (last_conn (do_conns ?d))) = sd_closed sd"
    using sendRequest_eq(1,3) [OF send] by (simp_all add: conn_of_def)
  have id: "put16 0 (be16 q') (put16 0 0 q') = q'" using put16_be16_id [of q'] pad(1) by simp
  have host: "rv_hostname r1 = rv_hostname r" "rv_url r1 = rv_url r" using sendRequest_fields [OF send] by simp_all
  have "finish_query cd (he_net env) (he_now2 env) r1 q q' same ?d =
      (case qerr of Some (st, err) \<Rightarrow> start_hangover (he_now2 env) st r1
         | None \<Rightarrow> (case sd_server sd of None \<Rightarrow> r1
             | Some server \<Rightarrow> on_host (he_net env) (sd_hostname sd) (Confirm (ta_ip server)) r1),
       \<lparr>qo_response = (if qerr = None then response else tryServfail cd q'), qo_server = sd_server sd, qo_qerr = qerr,
         qo_sent = Some (with_headers ?req), qo_closed = sd_closed sd, qo_q = (if same then q' else q)\<rparr>)"
    unfolding finish_query_def host outcome Let_def prod.case srv cl id re [symmetric] query_req_def by simp
  also have "\<dots> = (r', out)"
    using assms(2) doQuery_padded_sent [OF _ q(4) send re, of cd q same] step pad(1) by simp
  finally show ?thesis .
qed

text \<open>
  \<open>doQuery\<close>, from the time of its hangover check to the time of its end, on a resolver that no other query uses
  meanwhile, is a run of these steps with the same result and the same effect.
\<close>

lemma doQuery_run:
  assumes "id_law cd" and "env_ok env" and "res_ok r" and "he_now1 env \<le> he_now2 env"
    and "doQuery cd env q r = Some (r', out)"
    and s: "ov_res s = r" "ov_now s = he_now1 env" "ov_q s i = QCalled q"
  shows "\<exists>t d. ov_now s \<le> t \<and> t \<le> he_now2 env
    \<and> (ovstep cd)\<^sup>*\<^sup>* s (s\<lparr>ov_now := t, ov_res := r', ov_q := (ov_q s)(i := QReturned q d out)\<rparr>)"
proof (cases "\<exists>q' same. 2 \<le> length q \<and> \<not> he_now1 env < rv_hangover r \<and> AddEdnsPadding cd q = Inr (q', same)
    \<and> he_newreq env = None")
  case False
  have pad: "2 \<le> length q'" if "AddEdnsPadding cd q = Inr (q', same)" for q' same
    using AddEdnsPadding_id [OF assms(1) that] by simp
  have "r' = r \<and> start_query cd (he_newreq env) (he_now1 env) r q = QReturned q None out"
    using False assms(5) pad
    by (auto simp: doQuery_def doQuery_padded_def start_query_def Let_def split: sum.splits option.splits if_splits prod.splits)
  moreover have "ovstep cd s (s\<lparr>ov_q := (ov_q s)(i := start_query cd (he_newreq env) (he_now1 env) r q)\<rparr>)"
    using ov_check [OF s(3), of cd "he_newreq env"] s by simp
  moreover have "s\<lparr>ov_now := ov_now s, ov_res := r, ov_q := f\<rparr> = s\<lparr>ov_q := f\<rparr>" for f using s(1) by simp
  ultimately show ?thesis using assms(4) s(2) by (intro exI [of _ "ov_now s"] exI [of _ None]) auto
next
  case True
  then obtain q' same where q: "2 \<le> length q" "\<not> he_now1 env < rv_hangover r" "AddEdnsPadding cd q = Inr (q', same)"
      "he_newreq env = None" by blast
  have pad: "12 \<le> length q'" "be16 q' = be16 q" using AddEdnsPadding_id [OF assms(1) q(3)] by simp_all
  let ?req = "\<lparr>hq_url = rv_url r, hq_headers = [], hq_body = put16 0 0 q'\<rparr>"
  let ?d = "he_do env (with_headers ?req)"
  have ne: "lookups_ok (he_net env)" "conns_valid ?d" using assms(2) by (auto simp: env_ok_def lookups_ok_def conns_valid_def)
  obtain r1 sd where send: "sendRequest env ?req r = (r1, sd)" by (metis surj_pair)
  note outcome = do_outcome_eq [OF send]
  let ?s1 = "s\<lparr>ov_q := (ov_q s)(i := QDoing q q' same)\<rparr>"
  let ?r2 = "dialled env ?req r"
  let ?s2 = "?s1\<lparr>ov_res := ?r2\<rparr>"
  let ?s3 = "?s2\<lparr>ov_q := (ov_q s)(i := QReplied q q' same ?d)\<rparr>"
  let ?s4 = "?s3\<lparr>ov_res := r1, ov_q := (ov_q s)(i := QCleaned q q' same ?d)\<rparr>"
  let ?s5 = "?s4\<lparr>ov_now := he_now2 env\<rparr>"
  have "start_query cd None (ov_now s) r q = QDoing q q' same" using q s pad by (simp add: start_query_def)
  then have 1: "ovstep cd s ?s1" using ov_check [OF s(3), of cd None] s(1) by simp
  have "map_ok (rv_ips (ov_res ?s1))" using assms(3) s by (simp add: res_ok_def)
  from dials_run [OF ne(1) this, of cd "do_dials ?d"] have 2: "(ovstep cd)\<^sup>*\<^sup>* ?s1 ?s2"
    by (simp add: dialled_def s(1))
  have 3: "ovstep cd ?s2 ?s3" using ov_done [of ?s2 i q q' same ?d cd] ne(2) by simp
  have "rv_hostname ?r2 = rv_hostname r" by (simp add: dialled_def)
  then have "cleanup (he_net env) ?d ?r2 = r1"
    using outcome sendRequest_eq(2) [OF send] by (simp add: cleanup_def conn_of_def)
  then have 4: "ovstep cd ?s3 ?s4" using ov_cleanup [of ?s3 i q q' same ?d "he_net env" cd] ne(1) by simp
  have 5: "ovstep cd ?s4 ?s5" using ov_tick [of ?s4 "he_now2 env" cd] assms(4) s(2) by simp
  note fin = finish_query_sent [OF assms(1,5) q send]
  have 6: "ovstep cd ?s5 (?s5\<lparr>ov_res := r', ov_q := (ov_q ?s5)(i := QReturned q (Some ?d) out)\<rparr>)"
    by (rule ov_finish [of ?s5 i q q' same ?d "he_net env"]) (use fin ne in simp_all)
  have "(ovstep cd)\<^sup>*\<^sup>* s (?s5\<lparr>ov_res := r', ov_q := (ov_q ?s5)(i := QReturned q (Some ?d) out)\<rparr>)"
    by (rule run_step [OF run_step [OF run_step [OF run_step [OF converse_rtranclp_into_rtranclp [of "ovstep cd", OF 1 2] 3] 4] 5] 6])
  then show ?thesis
    using assms(4) s(2) by (intro exI [of _ "he_now2 env"] exI [of _ "Some ?d"]) simp
qed

subsection \<open>Properties\<close>

text \<open>
  C25. However the queries of a resolver overlap, none fails a bounds check, and each one that returns has a result of its
  own: a response carries the ID of its query, the request that was made has that query's padded form with the ID
  cut out, and a success is the body of a good answer to that request, with the ID put back.
\<close>

theorem overlap_results:
  assumes "id_law cd" and "res_ok r" and "ovreach cd r s"
  shows "ov_q s i \<noteq> QPanic
    \<and> (\<forall>q d out. ov_q s i = QReturned q d out \<longrightarrow>
        (\<forall>b. qo_response out = Some b \<longrightarrow> 2 \<le> length b \<and> be16 b = be16 q)
        \<and> (\<forall>req. qo_sent out = Some req \<longrightarrow>
             (\<exists>q' same. AddEdnsPadding cd q = Inr (q', same) \<and> hq_body req = put16 0 0 q'))
        \<and> (qo_qerr out = None \<longrightarrow> (\<exists>x resp b. d = Some x \<and> do_res x = Inr resp \<and> hs_status resp = 200
             \<and> ReadAll (hs_body resp) = (b, None) \<and> be16 b = 0 \<and> qo_response out = Some (put16 0 (be16 q) b))))"
proof -
  have ok: "qpc_ok cd (ov_q s i)" using ovreach_inv [OF assms] by (simp add: ov_inv_def)
  then have "ov_q s i \<noteq> QPanic" by auto
  moreover have "answer_of cd q d out" if "ov_q s i = QReturned q d out" for q d out using ok that by simp
  ultimately show ?thesis unfolding answer_of_def by fastforce
qed

text \<open>Queries that the hangover catches: they have not been called, have not looked, or were turned away.\<close>

definition turned_away :: "qpc \<Rightarrow> bool" where
  "turned_away p \<longleftrightarrow> (case p of QNone \<Rightarrow> True | QCalled q \<Rightarrow> True | QReturned q d out \<Rightarrow> d = None \<and> qo_sent out = None | _ \<Rightarrow> False)"

lemma turned_away_step:
  assumes "id_law cd" and "ovstep cd s s'" and "ov_now s < rv_hangover (ov_res s)" and "turned_away (ov_q s i)"
  shows "turned_away (ov_q s' i)"
  using assms(2)
proof (cases rule: ovstep.cases)
  case (ov_check j q newreq)
  then show ?thesis using assms(3,4) by (auto simp: turned_away_def start_query_def q_fail_def)
qed (use assms(4) in \<open>auto simp: turned_away_def\<close>)

interpretation doh_gate: hangover_gate "ovstep cd" "\<lambda>s. id_law cd \<and> ov_inv cd s" ov_now "\<lambda>s. rv_hangover (ov_res s)"
  "\<lambda>s i. turned_away (ov_q s i)" for cd :: "'x codec"
  by unfold_locales (use ov_inv_step ov_step_res turned_away_step in blast)+

text \<open>
  C26. The hangover holds against every interleaving: once it is set until some time, no query that had not been
  let through before gets to send a request before that time, and the end of the hangover never moves back, though
  queries that were already under way go on, fail or succeed.
\<close>

theorem overlap_hangover:
  assumes "id_law cd" and "res_ok r" and "ovreach cd r s" and "(ovstep cd)\<^sup>*\<^sup>* s s'" and "ov_now s' < rv_hangover (ov_res s)"
    and "ov_q s i = QNone \<or> ov_q s i = QCalled q"
  shows "(ov_q s' i = QNone \<or> (\<exists>p. ov_q s' i = QCalled p) \<or> (\<exists>p out. ov_q s' i = QReturned p None out \<and> qo_sent out = None))
    \<and> rv_hangover (ov_res s) \<le> rv_hangover (ov_res s')"
proof -
  have "turned_away (ov_q s i)" using assms(6) by (auto simp: turned_away_def)
  moreover have "id_law cd \<and> ov_inv cd s" using assms(1) ovreach_inv [OF assms(1-3)] by simp
  ultimately have "turned_away (ov_q s' i)" "rv_hangover (ov_res s) \<le> rv_hangover (ov_res s')"
    using doh_gate.held [OF assms(4) _ assms(5)] doh_gate.run_moves_on [OF assms(4)] by blast+
  then show ?thesis by (auto simp: turned_away_def split: qpc.splits)
qed

subsection \<open>The results of its queries\<close>

text \<open>What \<open>Query\<close> can return for \<open>q\<close>, in any history of overlapping queries of the resolver.\<close>

definition doh_answers :: "'x codec \<times> resolver \<Rightarrow> answer_rel" where
  "doh_answers p q resp e \<longleftrightarrow> (case p of (cd, r) \<Rightarrow> \<exists>s i d out. ovreach cd r s \<and> ov_q s i = QReturned q d out
     \<and> resp = qo_response out \<and> e = qerr_error (qo_qerr out))"

definition doh_usable :: "'x codec \<times> resolver \<Rightarrow> bool" where
  "doh_usable p \<longleftrightarrow> (case p of (cd, r) \<Rightarrow> id_law cd \<and> res_ok r)"

lemma doh_answersE:
  assumes "doh_usable p" and "doh_answers p q resp e"
  obtains d out where "answer_of (fst p) q d out" "resp = qo_response out" "e = qerr_error (qo_qerr out)"
proof -
  obtain cd r where p: "p = (cd, r)" by (cases p)
  obtain s i d out where s: "ovreach cd r s" "ov_q s i = QReturned q d out" "resp = qo_response out" "e = qerr_error (qo_qerr out)"
    using assms(2) p by (auto simp: doh_answers_def)
  have "qpc_ok cd (ov_q s i)" using ovreach_inv [OF _ _ s(1)] assms(1) p by (simp add: doh_usable_def ov_inv_def)
  then show ?thesis using that s p by simp
qed

text \<open>The result of a sequential query is the result of one in a reachable state.\<close>

lemma doh_sequential_answer:
  assumes "doh_usable (cd, r)" and "env_ok env" and "he_now1 env \<le> he_now2 env"
    and "rv_hangover r \<le> he_now1 env + hangoverDuration" and "doQuery cd env q r = Some (r', out)"
  shows "doh_answers (cd, r) q (qo_response out) (qerr_error (qo_qerr out))"
proof -
  let ?s0 = "ov_start r (he_now1 env)"
  let ?s1 = "?s0\<lparr>ov_q := (ov_q ?s0)(0 := QCalled q)\<rparr>"
  have ok: "id_law cd" "res_ok r" using assms(1) by (simp_all add: doh_usable_def)
  have 1: "ovstep cd ?s0 ?s1" by (rule ov_call) (simp add: ov_start_def)
  obtain t d where 2: "(ovstep cd)\<^sup>*\<^sup>* ?s1 (?s1\<lparr>ov_now := t, ov_res := r', ov_q := (ov_q ?s1)(0 := QReturned q d out)\<rparr>)"
    using doQuery_run [OF ok(1) assms(2) ok(2) assms(3,5), of ?s1 0] by (auto simp: ov_start_def)
  have "ovreach cd r (?s1\<lparr>ov_now := t, ov_res := r', ov_q := (ov_q ?s1)(0 := QReturned q d out)\<rparr>)"
    unfolding ovreach_def using converse_rtranclp_into_rtranclp [of "ovstep cd", OF 1 2] assms(4) by blast
  then show ?thesis unfolding doh_answers_def prod.case by (intro exI conjI) auto
qed

interpretation doh_pending: answers_come doh_usable doh_answers
proof unfold_locales
  fix p :: "'x codec \<times> resolver" and q resp e b
  assume p: "doh_usable p"
  show "\<exists>b. resp = Some b" if "doh_answers p q resp None"
    using doh_answersE [OF p that] by (fastforce simp: answer_of_def qerr_error_def)
  show "2 \<le> length b \<and> 2 \<le> length q \<and> be16 b = be16 q" if "doh_answers p q (Some b) e"
    using doh_answersE [OF p that] by (fastforce simp: answer_of_def)
  obtain cd r where cr: "p = (cd, r)" by (cases p)
  let ?env = "(sample_env 200 [])\<lparr>he_now1 := rv_hangover r, he_now2 := rv_hangover r\<rparr>"
  have env: "env_ok ?env" using sample_env_ok by (simp add: env_ok_def)
  obtain r' out where "doQuery cd ?env q r = Some (r', out)"
    using doQuery_returns p cr by (fastforce simp: doh_usable_def)
  from doh_sequential_answer [OF p [unfolded cr] env _ _ this] show "\<exists>resp e. doh_answers p q resp e"
    unfolding cr by (auto simp: hangoverDuration_def second_def)
qed

subsection \<open>Witnesses\<close>

text \<open>A query that came to its end alone, on the sample resolver, with the server's status and body given.\<close>

lemma sample_overlap:
  "\<exists>s d. ovreach sample_codec sample_res s \<and> ov_q s 0 = QReturned sample_query d (snd (sample_run st b)) \<and> ov_q s 1 = QNone
    \<and> ov_res s = fst (sample_run st b) \<and> ov_now s \<le> 200"
proof -
  let ?s0 = "ov_start sample_res 100" and ?env = "sample_env st b"
  let ?s1 = "?s0\<lparr>ov_q := (ov_q ?s0)(0 := QCalled sample_query)\<rparr>"
  have 1: "ovstep sample_codec ?s0 ?s1" by (rule ov_call) (simp add: ov_start_def)
  have now: "he_now1 ?env = 100" "he_now2 ?env = 200" by (simp_all add: sample_env_def)
  obtain t d where 2: "t \<le> 200" "(ovstep sample_codec)\<^sup>*\<^sup>* ?s1 (?s1\<lparr>ov_now := t, ov_res := fst (sample_run st b),
      ov_q := (ov_q ?s1)(0 := QReturned sample_query d (snd (sample_run st b)))\<rparr>)"
    using doQuery_run [OF sample_id_law sample_env_ok sample_res_ok _ sample_run(1), of st b ?s1 0] now
    by (auto simp: ov_start_def)
  have "rv_hangover sample_res \<le> 100 + hangoverDuration" by (simp add: sample_res_def hangoverDuration_def second_def)
  then have "ovreach sample_codec sample_res (?s1\<lparr>ov_now := t, ov_res := fst (sample_run st b),
      ov_q := (ov_q ?s1)(0 := QReturned sample_query d (snd (sample_run st b)))\<rparr>)"
    unfolding ovreach_def using converse_rtranclp_into_rtranclp [of "ovstep sample_codec", OF 1 2(2)] by blast
  then show ?thesis using 2(1) by (intro exI conjI) (auto simp: ov_start_def)
qed

theorem overlap_results_witness:
  "\<exists>s d b. ovreach sample_codec sample_res s \<and> ov_q s 0 = QReturned sample_query d (snd (sample_run 200 sample_answer))
    \<and> be16 b = 0 \<and> qo_response (snd (sample_run 200 sample_answer)) = Some (put16 0 (be16 sample_query) b)"
proof -
  obtain s d where s: "ovreach sample_codec sample_res s" "ov_q s 0 = QReturned sample_query d (snd (sample_run 200 sample_answer))"
    using sample_overlap by blast
  from overlap_results [OF sample_id_law sample_res_ok s(1), of 0] s sample_run_ok show ?thesis by blast
qed

theorem overlap_hangover_witness:
  "\<exists>s (s' :: overlap) p out. ovreach sample_codec sample_res s \<and> ov_q s 1 = QNone \<and> ov_q s' 1 = QReturned p None out \<and> qo_sent out = None"
proof -
  obtain s d where s: "ovreach sample_codec sample_res s" "ov_q s 0 = QReturned sample_query d (snd (sample_run 404 []))"
      "ov_q s 1 = QNone" "ov_res s = fst (sample_run 404 [])" "ov_now s \<le> 200"
    using sample_overlap by blast
  let ?s1 = "s\<lparr>ov_q := (ov_q s)(1 := QCalled sample_query)\<rparr>"
  let ?s2 = "?s1\<lparr>ov_q := (ov_q ?s1)(1 := start_query sample_codec None (ov_now ?s1) (ov_res ?s1) sample_query)\<rparr>"
  have 1: "ovstep sample_codec s ?s1" by (rule ov_call [OF s(3)])
  have 2: "ovstep sample_codec ?s1 ?s2" by (rule ov_check) simp
  have run: "(ovstep sample_codec)\<^sup>*\<^sup>* s ?s2" by (rule run_step [OF r_into_rtranclp [of "ovstep sample_codec", OF 1] 2])
  have "rv_hangover (fst (sample_run 404 [])) = 200 + hangoverDuration"
    using sample_run(1) [of 404 "[]"] sample_run(4) [of 404 "[]"] sample_run(2) [of 404 "[]"]
    by (cases rule: doQuery_cases [OF sample_id_law sample_run(1), of 404 "[]"])
      (auto simp: start_hangover_def sample_env_def)
  then have late: "ov_now ?s2 < rv_hangover (ov_res s)"
    using s(4,5) by (simp add: hangoverDuration_def second_def)
  have r: "ov_q ?s2 1 = QReturned sample_query None (q_fail (tryServfail sample_codec sample_query) HTTPError
      (EMsg ''Forwarder is in servfail hangover'') sample_query)"
    using late by (simp add: start_query_def sample_query_def)
  define u where "u = ?s2"
  from overlap_hangover [OF sample_id_law sample_res_ok s(1) run late disjI1 [OF s(3)], folded u_def] r [folded u_def]
  obtain p out where "ov_q u 1 = QReturned p None out" "qo_sent out = None" by auto
  with s(1,3) show ?thesis by blast
qed

end
