(* ===== verification/DotResolver.thy ===== *)
theory DotResolver
  imports Resolver Dial
begin

section \<open>The DNS-over-TLS resolver (proxy/dot/dot.go)\<close>

text \<open>
  \<open>resolver\<close> of \<open>dot.go\<close>: one TLS connection per query, the two-byte length framing, and the same
  padding, ID removal, hangover and address bookkeeping as the DoH resolver. TLS and the clock are the
  environment (\<open>tls_env\<close>): what each call on the TLS connection returns.
\<close>

subsection \<open>Framing\<close>

text \<open>\<open>dnsOverTCPWrite(w, msg)\<close> and \<open>dnsOverTCPRead(r)\<close>.\<close>

definition dnsOverTCPWrite :: "'w write_fun \<Rightarrow> 'w \<Rightarrow> bytes \<Rightarrow> 'w \<times> goerr option" where
  "dnsOverTCPWrite wr w msg =
     (let qlen = length msg in
      if 65535 < qlen then (w, Some EOversizeDNS)
      else let buf = enc16 (of_nat qlen) @ msg in
        (case wr w buf of (w', n, err) \<Rightarrow> (w', err)))"

definition dnsOverTCPRead :: "source \<Rightarrow> goerr + bytes" where
  "dnsOverTCPRead s =
     (case ReadFull 2 s of
        (rlenBuf, Some err, s1) \<Rightarrow> Inl err
      | (rlenBuf, None, s1) \<Rightarrow>
          let rlen = unat (be16 rlenBuf) in
          if rlen < 2 \<or> 65535 < rlen then Inl (EMsg ''invalid DNS response length'')
          else (case ReadFull rlen s1 of
              (out, Some err, s2) \<Rightarrow> Inl err
            | (out, None, s2) \<Rightarrow> Inr out))"

lemma read_full_from_data:
  "read_full_from n got s = (b, None, s') \<Longrightarrow> \<forall>p\<in>set s. snd p = None \<Longrightarrow>
     got @ src_data s = b @ src_data s'"
  by (induction n got s arbitrary: b s' rule: read_full_from.induct) (auto split: if_splits)

lemma ReadFull_data:
  assumes "ReadFull n s = (b, None, s')" "\<forall>p\<in>set s. snd p = None"
  shows "src_data s = b @ src_data s'" "length b = n" "\<forall>p\<in>set s'. snd p = None"
proof -
  have r: "read_full_from n [] s = (b, None, s')" using assms(1) by (simp add: ReadFull_def)
  show "src_data s = b @ src_data s'" using read_full_from_data [OF r assms(2)] by simp
  show "length b = n" by (rule ReadFull_length [OF assms(1)])
  show "\<forall>p\<in>set s'. snd p = None" by (rule conjunct2 [OF read_full_from_rest [OF r assms(2)]])
qed

lemma ReadFull_append:
  assumes "src_data s = b @ r" "\<forall>p\<in>set s. snd p = None"
  obtains s' where "ReadFull (length b) s = (b, None, s')" "src_data s' = r" "\<forall>p\<in>set s'. snd p = None"
proof -
  obtain s' where s': "ReadFull (length b) s = (b, None, s')"
    using ReadFull_ok [of "length b" s] assms(1) by auto
  with ReadFull_data [OF s' assms(2)] assms(1) that show ?thesis by auto
qed

lemma dnsOverTCPRead_frame:
  assumes "\<forall>p\<in>set s. snd p = None"
    and m: "2 \<le> length m" "length m \<le> 65535" "\<exists>rest. src_data s = frame m @ rest"
  shows "dnsOverTCPRead s = Inr m"
proof -
  let ?h = "enc16 (of_nat (length m)) :: bytes"
  obtain rest where "src_data s = ?h @ (m @ rest)" using m by (auto simp: frame_def)
  from ReadFull_append [OF this assms(1)] obtain s1 where
    s1: "ReadFull (length ?h) s = (?h, None, s1)" "src_data s1 = m @ rest" "\<forall>p\<in>set s1. snd p = None" by blast
  from ReadFull_append [OF s1(2,3)] obtain s2 where s2: "ReadFull (length m) s1 = (m, None, s2)" by blast
  have "unat (of_nat (length m) :: u16) = length m" using m by simp
  then show ?thesis using s1(1) s2 m by (simp add: dnsOverTCPRead_def)
qed

text \<open>
  C38. Reading a frame is exact: from a stream that delivers its bytes in any segmentation,
  \<open>dnsOverTCPRead\<close> returns \<open>m\<close> if and only if the stream starts with the frame of \<open>m\<close>, of 2 to 65535
  bytes.
\<close>

theorem dnsOverTCPRead_exact:
  assumes "\<forall>p\<in>set s. snd p = None"
  shows "dnsOverTCPRead s = Inr m
    \<longleftrightarrow> 2 \<le> length m \<and> length m \<le> 65535 \<and> (\<exists>rest. src_data s = frame m @ rest)"
proof
  assume r: "dnsOverTCPRead s = Inr m"
  obtain h s1 where h: "ReadFull 2 s = (h, None, s1)"
    using r by (auto simp: dnsOverTCPRead_def split: prod.splits option.splits)
  have len: "2 \<le> unat (be16 h)" "unat (be16 h) \<le> 65535"
    using r h by (auto simp: dnsOverTCPRead_def Let_def split: if_splits)
  then obtain s2 where m: "ReadFull (unat (be16 h)) s1 = (m, None, s2)"
    using r h by (auto simp: dnsOverTCPRead_def Let_def split: prod.splits option.splits)
  note 1 = ReadFull_data [OF h assms] and 2 = ReadFull_data [OF m ReadFull_data(3) [OF h assms]]
  have "enc16 (of_nat (length m)) = h" using 1(2) 2(2) enc16_be16 [of h] by simp
  then have "src_data s = frame m @ src_data s2" using 1(1) 2(1) by (simp add: frame_def)
  then show "2 \<le> length m \<and> length m \<le> 65535 \<and> (\<exists>rest. src_data s = frame m @ rest)" using len 2(2) by auto
next
  assume "2 \<le> length m \<and> length m \<le> 65535 \<and> (\<exists>rest. src_data s = frame m @ rest)"
  with assms show "dnsOverTCPRead s = Inr m" by (blast intro: dnsOverTCPRead_frame)
qed

theorem dnsOverTCPRead_exact_witness:
  "dnsOverTCPRead [([0], None), ([3, 7], None), ([8, 9, 1], None)] = Inr [7, 8, 9]
    \<longleftrightarrow> 2 \<le> length [7, 8, 9 :: byte] \<and> length [7, 8, 9 :: byte] \<le> 65535
      \<and> (\<exists>rest. src_data [([0], None), ([3, 7], None), ([8, 9, 1], None)] = frame [7, 8, 9] @ rest)"
  by (rule dnsOverTCPRead_exact) simp

subsection \<open>State\<close>

record dot_resolver =
  dr_url :: string
  dr_hostname :: string
  dr_port :: int
  dr_ips :: ipMap
  dr_listener :: bool
  dr_ServerName :: string
  dr_hangover :: gotime

definition dot_hangoverDuration :: duration where "dot_hangoverDuration = 10 * second"
definition tlsHandshakeTimeout :: duration where "tlsHandshakeTimeout = 10 * second"
definition readTimeout :: duration where "readTimeout = 20 * second"
definition defaultDoTPort :: int where "defaultDoTPort = 853"

text \<open>
  \<open>NewResolver\<close>: the host and port of the URL (\<open>net/url\<close> splits them) are arguments, after the scheme.
\<close>

record dot_url =
  du_Scheme :: string
  du_Hostname :: string
  du_Port :: string

definition dot_NewResolver :: "(string \<Rightarrow> goerr + dot_url) \<Rightarrow> (string \<Rightarrow> ip list \<times> goerr option)
    \<Rightarrow> string \<Rightarrow> string list \<Rightarrow> bool \<Rightarrow> goerr + dot_resolver" where
  "dot_NewResolver parse lookup rawurl addrs listener =
     (case parse rawurl of
        Inl err \<Rightarrow> Inl err
      | Inr parsed \<Rightarrow>
          let scheme = du_Scheme parsed; host = du_Hostname parsed in
          if scheme \<noteq> ''dot'' \<and> scheme \<noteq> ''tls'' then Inl (EMsg (''dot: bad scheme: '' @ scheme))
          else if host = [] then Inl (EMsg ''dot: empty host'')
          else (case (if du_Port parsed \<noteq> [] then Atoi (du_Port parsed) else Inr defaultDoTPort) of
              Inl err \<Rightarrow> Inl (EWrap ''dot: bad port'' err)
            | Inr port \<Rightarrow>
                let canonical = ''dot://'' @ JoinHostPort host (Itoa port);
                    (m1, ips) = Get lookup host NewIPMap;
                    m2 = add_addrs lookup ips addrs m1
                in if Empty (at_set ips m2) then Inl (EMsg (''dot: no IP addresses for '' @ host))
                   else Inr \<lparr>dr_url = canonical, dr_hostname = host, dr_port = port, dr_ips = m2,
                     dr_listener = listener, dr_ServerName = host, dr_hangover = 0\<rparr>))"

definition dot_GetURL :: "dot_resolver \<Rightarrow> string" where "dot_GetURL r = dr_url r"

definition dialPlainTCP :: "net_env \<Rightarrow> string \<Rightarrow> int \<Rightarrow> ipMap \<Rightarrow> ipMap \<times> dial_result" where
  "dialPlainTCP ne domain port m = dial_ips ne domain port m"

subsection \<open>One query\<close>

text \<open>
  The TLS connection: the results of the calls on it in order. \<open>te_write\<close> is its \<open>Write\<close> over the bytes
  sent, \<open>te_answer\<close> what the server sends back for them.
\<close>

record tls_env =
  te_now1 :: gotime
  te_now_dial :: gotime
  te_now2 :: gotime
  te_before :: gotime
  te_after :: gotime
  te_net :: net_env
  te_ctx_deadline :: "gotime option"
  te_SetDeadline :: "goerr option"
  te_Handshake :: "goerr option"
  te_SetWriteDeadline :: "goerr option"
  te_SetReadDeadline :: "goerr option"
  te_write :: "bytes write_fun"
  te_answer :: "bytes \<Rightarrow> source"

text \<open>
  What one connection gave: the server once the handshake is done, the deadline of the handshake, the
  bytes sent, whether it was opened and closed, and the response or the status of the failure.
\<close>

record exchange =
  xc_server :: "tcpaddr option"
  xc_deadline :: "gotime option"
  xc_sent :: bytes
  xc_opened :: bool
  xc_closed :: bool
  xc_res :: "dstatus \<times> goerr + bytes"

definition handshake_deadline :: "tls_env \<Rightarrow> gotime" where
  "handshake_deadline env =
     (let deadline = te_now_dial env + tlsHandshakeTimeout in
      case te_ctx_deadline env of
        None \<Rightarrow> deadline
      | Some d \<Rightarrow> if d < deadline then d else deadline)"

text \<open>\<open>_ = tlsConn.Close()\<close> on every way out.\<close>

definition close_with :: "dstatus \<times> goerr + bytes \<Rightarrow> exchange \<Rightarrow> exchange" where
  "close_with res x = x\<lparr>xc_closed := True, xc_res := res\<rparr>"

definition no_exchange :: exchange where
  "no_exchange = \<lparr>xc_server = None, xc_deadline = None, xc_sent = [], xc_opened = False, xc_closed = False,
     xc_res = Inl (SendFailed, EClosed)\<rparr>"

text \<open>The TLS connection over \<open>plain\<close>, from \<open>tls.Client\<close> to the last \<open>tlsConn.Close()\<close>.\<close>

definition tls_exchange :: "tls_env \<Rightarrow> bytes \<Rightarrow> retrier \<Rightarrow> exchange" where
  "tls_exchange env q plain =
     (let x1 = no_exchange\<lparr>xc_deadline := Some (handshake_deadline env), xc_opened := True\<rparr>;
          x2 = x1\<lparr>xc_server := Some (retrier_RemoteAddr plain)\<rparr>
      in case te_SetDeadline env of Some e \<Rightarrow> close_with (Inl (SendFailed, e)) x1
         | None \<Rightarrow>
         (case te_Handshake env of Some e \<Rightarrow> close_with (Inl (SendFailed, e)) x1
         | None \<Rightarrow>
         (case te_SetWriteDeadline env of Some e \<Rightarrow> close_with (Inl (SendFailed, e)) x2
         | None \<Rightarrow>
         (case dnsOverTCPWrite (te_write env) [] q of (sent, werr) \<Rightarrow>
            let x3 = x2\<lparr>xc_sent := sent\<rparr> in
            (case werr of
               Some e \<Rightarrow> close_with
                 (Inl (if errors_is e EOversizeDNS then BadQuery else SendFailed, e)) x3
             | None \<Rightarrow>
             (case te_SetReadDeadline env of Some e \<Rightarrow> close_with (Inl (SendFailed, e)) x3
             | None \<Rightarrow>
               (case dnsOverTCPRead (te_answer env sent) of
                  Inl e \<Rightarrow> close_with (Inl (BadResponse, e)) x3
                | Inr resp \<Rightarrow> close_with (Inr resp) x3)))))))"

text \<open>From \<open>dialPlainTCP\<close> to the end of the connection; \<open>None\<close>: a method of a nil connection is called.\<close>

definition exchange_dot :: "tls_env \<Rightarrow> bytes \<Rightarrow> dot_resolver \<Rightarrow> (dot_resolver \<times> exchange) option" where
  "exchange_dot env q r =
     (case dialPlainTCP (te_net env) (dr_hostname r) (dr_port r) (dr_ips r) of
        (m, ts, conn, err) \<Rightarrow>
          let r1 = r\<lparr>dr_ips := m\<rparr>
          in case err of
            Some e \<Rightarrow> Some (r1, no_exchange\<lparr>xc_res := Inl (SendFailed, e)\<rparr>)
          | None \<Rightarrow>
            (case conn of
               None \<Rightarrow> None
             | Some plain \<Rightarrow> Some (r1, tls_exchange env q plain)))"

record dot_out =
  to_response :: "bytes option"
  to_server :: "tcpaddr option"
  to_qerr :: "(dstatus \<times> goerr) option"
  to_exchange :: "exchange option"
  to_q :: bytes

definition dohTryServfail :: "'x codec \<Rightarrow> bytes \<Rightarrow> bytes option" where
  "dohTryServfail cd q = (case Servfail cd q of Inl err \<Rightarrow> None | Inr response \<Rightarrow> Some response)"

lemma dohTryServfail_eq [simp]: "dohTryServfail = tryServfail"
  by (intro ext) (simp add: dohTryServfail_def tryServfail_def)

definition dot_fail :: "bytes option \<Rightarrow> dstatus \<Rightarrow> goerr \<Rightarrow> bytes \<Rightarrow> dot_out" where
  "dot_fail response st err q = \<lparr>to_response = response, to_server = None, to_qerr = Some (st, err),
     to_exchange = None, to_q = q\<rparr>"

text \<open>The response's ID; unlike the code of the DoH resolver, the length was checked before.\<close>

definition dot_check_id :: "u16 \<Rightarrow> bytes \<Rightarrow> bytes \<times> (dstatus \<times> goerr) option" where
  "dot_check_id qid response =
     (if 2 \<le> length response then
        (if be16 response = 0 then (put16 0 qid response, None)
         else (response, Some (BadResponse, EMsg ''nonzero response ID'')))
      else (response, Some (BadResponse, EMsg ''response length'')))"

definition dot_Confirm :: "net_env \<Rightarrow> tcpaddr \<Rightarrow> dot_resolver \<Rightarrow> dot_resolver" where
  "dot_Confirm ne server r =
     (case Get (ne_lookup ne) (dr_hostname r) (dr_ips r) of
        (m, a) \<Rightarrow> r\<lparr>dr_ips := upd_set a (Confirm (ta_ip server)) m\<rparr>)"

text \<open>The end of \<open>doQuery\<close>, with \<open>q\<close> the query whose ID is back in place.\<close>

definition dot_finish :: "'x codec \<Rightarrow> tls_env \<Rightarrow> bytes \<Rightarrow> bytes \<Rightarrow> dot_resolver \<times> exchange
    \<Rightarrow> dot_resolver \<times> dot_out" where
  "dot_finish cd env q caller p =
     (case p of (r1, x) \<Rightarrow>
        let out = \<lparr>to_response = None, to_server = xc_server x, to_qerr = None,
                   to_exchange = Some x, to_q = caller\<rparr> in
        (case xc_res x of
           Inl e \<Rightarrow> (r1, out\<lparr>to_qerr := Some e\<rparr>)
         | Inr resp \<Rightarrow>
             (case dot_check_id (be16 q) resp of
                (response, None) \<Rightarrow>
                  ((case xc_server x of None \<Rightarrow> r1 | Some server \<Rightarrow> dot_Confirm (te_net env) server r1),
                   out\<lparr>to_response := Some response\<rparr>)
              | (response, Some (st, e)) \<Rightarrow>
                  ((if st \<noteq> SendFailed then r1\<lparr>dr_hangover := te_now2 env + dot_hangoverDuration\<rparr> else r1),
                   out\<lparr>to_response := dohTryServfail cd q, to_qerr := Some (st, e)\<rparr>))))"

definition dot_doQuery_padded :: "'x codec \<Rightarrow> tls_env \<Rightarrow> bytes \<Rightarrow> bytes \<Rightarrow> bool \<Rightarrow> dot_resolver
    \<Rightarrow> (dot_resolver \<times> dot_out) option" where
  "dot_doQuery_padded cd env q0 q same r =
     (if length q < 2 then None
      else let qid = be16 q; q1 = put16 0 0 q; q2 = put16 0 qid q1 in
        map_option (dot_finish cd env q2 (if same then q2 else q0)) (exchange_dot env q1 r))"

definition dot_doQuery :: "'x codec \<Rightarrow> tls_env \<Rightarrow> bytes \<Rightarrow> dot_resolver \<Rightarrow> (dot_resolver \<times> dot_out) option" where
  "dot_doQuery cd env q r =
     (if length q < 2 then Some (r, dot_fail None BadQuery (EMsg ''query length'') q)
      else if te_now1 env < dr_hangover r then
        Some (r, dot_fail (dohTryServfail cd q) HTTPError (EMsg ''forwarder is in servfail hangover'') q)
      else case AddEdnsPadding cd q of
          Inl err \<Rightarrow> Some (r, dot_fail None InternalError err q)
        | Inr (q', same) \<Rightarrow> dot_doQuery_padded cd env q q' same r)"

subsection \<open>Query\<close>

text \<open>The methods of this package's own \<open>queryError\<close>.\<close>

definition dot_queryError_Error :: "(goerr \<Rightarrow> string) \<Rightarrow> dstatus \<times> goerr \<Rightarrow> string" where
  "dot_queryError_Error err_text e = err_text (snd e)"

definition dot_queryError_Unwrap :: "dstatus \<times> goerr \<Rightarrow> goerr" where
  "dot_queryError_Unwrap e = snd e"

definition dot_errIsCancel :: "(dstatus \<times> goerr) option \<Rightarrow> bool" where
  "dot_errIsCancel qerr = (case qerr of None \<Rightarrow> False | Some (st, e) \<Rightarrow> errors_is (EQuery st e) ECanceled)"

definition dot_summary :: "tls_env \<Rightarrow> dot_out \<Rightarrow> Summary" where
  "dot_summary env out =
     \<lparr>sm_Latency = te_after env - te_before env, sm_Query = to_q out, sm_Response = to_response out,
      sm_Server = (case to_server out of None \<Rightarrow> [] | Some s \<Rightarrow> ip_String (ta_ip s)),
      sm_Status = (case to_qerr out of None \<Rightarrow> Complete | Some (st, e) \<Rightarrow> st),
      sm_HTTPStatus = 0\<rparr>"

record dot_result =
  dq_response :: "bytes option"
  dq_err :: "goerr option"
  dq_events :: "event list"
  dq_log :: dns_log

definition dot_Query :: "'x codec \<Rightarrow> tls_env \<Rightarrow> bytes \<Rightarrow> dot_resolver \<Rightarrow> (dot_resolver \<times> dot_result) option" where
  "dot_Query cd env q r =
     (case dot_doQuery cd env q r of
        None \<Rightarrow> None
      | Some (r', out) \<Rightarrow>
          let cancel = dot_errIsCancel (to_qerr out);
              err = map_option (\<lambda>(st, e). EQuery st e) (to_qerr out) in
          Some (r',
            \<lparr>dq_response = to_response out, dq_err = err,
             dq_events = (if dr_listener r then OnQuery (dr_url r) #
                (if cancel then [] else [OnResponse (dot_summary env out)]) else []),
             dq_log = LogDNSResolverQuery cd ''DoT'' (dr_url r) (to_q out) (to_response out)
                (te_before env) (te_after env) err cancel\<rparr>))"

subsection \<open>Lemmas\<close>

definition tls_env_ok :: "tls_env \<Rightarrow> bool" where
  "tls_env_ok env \<longleftrightarrow> norm_net (te_net env) \<and> (\<forall>h. list_all valid_ip (fst (ne_lookup (te_net env) h)))
     \<and> io_writer (te_write env) (\<lambda>w. w)"

text \<open>The resolver knows an address for its host.\<close>

definition dot_ok :: "dot_resolver \<Rightarrow> bool" where
  "dot_ok r \<longleftrightarrow> map_ok (dr_ips r)
     \<and> (\<exists>a. im_m (dr_ips r) (dr_hostname r) = Some a \<and> is_ips (at_set a (dr_ips r)) \<noteq> [])"

lemma Get_known: "im_m m h = Some a \<Longrightarrow> Get lookup h m = (m, a)"
  by (simp add: Get_def)

lemma Get_Some: "Get lookup h m0 = (m, a) \<Longrightarrow> im_m m h = Some a"
  by (auto simp: Get_def Let_def split: option.splits)

lemma upd_set_m [simp]: "im_m (upd_set a f m) = im_m m"
  by (simp add: upd_set_def)

lemma dot_ok_upd:
  assumes "map_ok m" "im_m m h = Some a" "is_ips (at_set a m) \<noteq> []"
    and "\<And>s. set_ok s \<Longrightarrow> set_ok (f s)" "\<And>s. set_ok s \<Longrightarrow> pool_of s \<subseteq> pool_of (f s)"
  shows "map_ok (upd_set a f m) \<and> is_ips (at_set a (upd_set a f m)) \<noteq> []"
proof -
  have a: "a < length (im_heap m)" using assms(1,2) by (auto simp: map_ok_def)
  have s: "set_ok (at_set a m)" using map_ok_at_set [OF assms(1) a] .
  have "pool_of (f (at_set a m)) \<noteq> {}" using assms(3) assms(5) [OF s] by (auto simp: pool_of_def)
  then have "is_ips (at_set a (upd_set a f m)) \<noteq> []" using a by (auto simp: at_set_upd pool_of_def)
  moreover have "map_ok (upd_set a f m)"
    using assms(1,4) a s by (intro map_ok_upd) (simp_all add: at_set_def)
  ultimately show ?thesis by simp
qed

lemma valid_ip_norm: "ip_norm a = ip_norm b \<Longrightarrow> valid_ip b \<Longrightarrow> valid_ip a"
  by (auto simp: valid_ip_def ip_norm_def v4InV6Prefix_def split: if_splits)

text \<open>Dialling from a resolver that is ok: never \<open>(nil, nil)\<close>, and the resolver stays ok.\<close>

lemma dialPlainTCP_ok:
  assumes r: "dot_ok r" and env: "tls_env_ok env"
    and d: "dialPlainTCP (te_net env) (dr_hostname r) (dr_port r) (dr_ips r) = (m, ts, conn, err)"
  shows "dot_ok (r\<lparr>dr_ips := m\<rparr>)" "err = None \<Longrightarrow> \<exists>c. conn = Some c \<and> ts \<noteq> [] \<and>
    rt_addr c = \<lparr>ta_ip = last ts, ta_port = dr_port r\<rparr> \<and> valid_ip (last ts)"
proof -
  let ?ne = "te_net env" and ?m = "dr_ips r"
  obtain a where a: "im_m ?m (dr_hostname r) = Some a" "is_ips (at_set a ?m) \<noteq> []" "map_ok ?m"
    using r by (auto simp: dot_ok_def)
  note g = Get_known [OF a(1), of "ne_lookup ?ne"]
  have net: "norm_net ?ne" "list_all valid_ip (fst (ne_lookup ?ne (dr_hostname r)))"
    using env by (auto simp: tls_env_ok_def)
  have c: "dial_contract ?ne (dr_port r) (at_set a ?m) (ts, conn, err)"
    using dial_ips_contract [OF net(1) a(3) net(2) g, of "dr_port r"] d by (simp add: dialPlainTCP_def)
  have "set_ok (at_set a ?m)" using a(1,3) map_ok_at_set by (auto simp: map_ok_def)
  then have "x \<in> set ts \<Longrightarrow> valid_ip x" for x
    using c pool_of_iff [of "at_set a ?m" "ip_norm x"]
    by (auto simp: dial_contract_def set_ok_def intro: valid_ip_norm [OF sym])
  then show "err = None \<Longrightarrow> \<exists>c. conn = Some c \<and> ts \<noteq> [] \<and> rt_addr c = \<lparr>ta_ip = last ts, ta_port = dr_port r\<rparr>
      \<and> valid_ip (last ts)"
    using a(2) c by (cases conn) (auto simp: dial_contract_def)
  have "m = fst (dial_ips ?ne (dr_hostname r) (dr_port r) ?m)" using d by (simp add: dialPlainTCP_def)
  then have "m = ?m \<or> (\<exists>x. m = upd_set a (Disconfirm x) ?m)" unfolding dial_ips_map [OF g] by auto
  then show "dot_ok (r\<lparr>dr_ips := m\<rparr>)"
    using r dot_ok_upd [OF a(3,1,2), of "Disconfirm _"] a(1)
    by (auto simp: dot_ok_def set_ok_Disconfirm ipset.pool_disconfirm)
qed

lemma dot_Confirm_ok:
  assumes "dot_ok r" "valid_ip (ta_ip server)"
  shows "dot_ok (dot_Confirm ne server r)"
proof -
  obtain a where a: "im_m (dr_ips r) (dr_hostname r) = Some a" "is_ips (at_set a (dr_ips r)) \<noteq> []" "map_ok (dr_ips r)"
    using assms(1) by (auto simp: dot_ok_def)
  then show ?thesis
    using dot_ok_upd [OF a(3,1,2), of "Confirm (ta_ip server)"] assms(2) ipset.ok_confirm ipset.pool_confirm
    by (auto simp: dot_ok_def dot_Confirm_def Get_known)
qed

text \<open>A TLS connection, whatever becomes of it: closed, and a response is the server's answer to the query's frame.\<close>

lemma tls_exchange_ok:
  assumes io: "io_writer (te_write env) (\<lambda>w. w)"
  shows "xc_opened (tls_exchange env q c) \<and> xc_closed (tls_exchange env q c)
    \<and> xc_deadline (tls_exchange env q c) = Some (handshake_deadline env)
    \<and> (\<forall>s. xc_server (tls_exchange env q c) = Some s \<longrightarrow> s = rt_addr c)
    \<and> (\<forall>resp. xc_res (tls_exchange env q c) = Inr resp \<longrightarrow> 2 \<le> length resp
         \<and> xc_sent (tls_exchange env q c) = frame q \<and> length q \<le> 65535 \<and> xc_server (tls_exchange env q c) \<noteq> None
         \<and> dnsOverTCPRead (te_answer env (frame q)) = Inr resp)"
proof -
  have wr: "sent = frame q \<and> length q \<le> 65535" if "dnsOverTCPWrite (te_write env) [] q = (sent, None)" for sent
    using that io_writer.write_all [OF io, of "[]" "frame q" sent]
    by (auto simp: dnsOverTCPWrite_def Let_def frame_def split: prod.splits if_splits)
  have rd: "2 \<le> length resp" if "dnsOverTCPRead s = Inr resp" for s resp
    using that ReadFull_length
    by (fastforce simp: dnsOverTCPRead_def Let_def split: prod.splits option.splits if_splits)
  show ?thesis
    using wr rd by (auto simp: tls_exchange_def no_exchange_def Let_def close_with_def retrier_RemoteAddr_def
        split: option.splits prod.splits sum.splits)
qed

text \<open>The exchange from a resolver that is ok: no panic, the connection closed, the server's address valid.\<close>

lemma exchange_dot_ok:
  assumes r: "dot_ok r" and env: "tls_env_ok env"
  shows "\<exists>m x. exchange_dot env q r = Some (r\<lparr>dr_ips := m\<rparr>, x) \<and> dot_ok (r\<lparr>dr_ips := m\<rparr>)
    \<and> (xc_opened x \<longrightarrow> xc_closed x \<and> xc_deadline x = Some (handshake_deadline env))
    \<and> (\<forall>s. xc_server x = Some s \<longrightarrow> valid_ip (ta_ip s) \<and> ta_port s = dr_port r)
    \<and> (\<forall>resp. xc_res x = Inr resp \<longrightarrow> xc_opened x \<and> 2 \<le> length resp
         \<and> xc_sent x = frame q \<and> length q \<le> 65535
         \<and> dnsOverTCPRead (te_answer env (frame q)) = Inr resp)"
proof -
  obtain m ts conn err where d: "dialPlainTCP (te_net env) (dr_hostname r) (dr_port r) (dr_ips r) = (m, ts, conn, err)"
    by (metis prod_cases4)
  note ok = dialPlainTCP_ok [OF r env d]
  have io: "io_writer (te_write env) (\<lambda>w. w)" using env by (simp add: tls_env_ok_def)
  show ?thesis
  proof (cases err)
    case (Some e)
    then show ?thesis using d ok(1) by (auto simp: exchange_dot_def no_exchange_def intro!: exI [of _ m])
  next
    case None
    then obtain c where c: "conn = Some c" "rt_addr c = \<lparr>ta_ip = last ts, ta_port = dr_port r\<rparr>" "valid_ip (last ts)"
      using ok(2) by blast
    then have "exchange_dot env q r = Some (r\<lparr>dr_ips := m\<rparr>, tls_exchange env q c)" using d None by (simp add: exchange_dot_def)
    then show ?thesis using tls_exchange_ok [OF io, of q c] ok(1) c by (intro exI) auto
  qed
qed

lemma exchange_dot_ips:
  "exchange_dot env q r = Some (r\<lparr>dr_ips := m\<rparr>, x) \<Longrightarrow>
     m = fst (dialPlainTCP (te_net env) (dr_hostname r) (dr_port r) (dr_ips r))"
proof -
  assume "exchange_dot env q r = Some (r\<lparr>dr_ips := m\<rparr>, x)"
  then have "r\<lparr>dr_ips := m\<rparr> = r\<lparr>dr_ips := fst (dialPlainTCP (te_net env) (dr_hostname r) (dr_port r) (dr_ips r))\<rparr>"
    by (auto simp: exchange_dot_def Let_def split: prod.splits option.splits)
  then show ?thesis by (metis dot_resolver.select_convs(4) dot_resolver.surjective dot_resolver.update_convs(4))
qed

lemma dot_check_id_None:
  "dot_check_id qid resp = (b, None) \<Longrightarrow> 2 \<le> length resp \<and> be16 resp = 0 \<and> b = put16 0 qid resp"
  by (auto simp: dot_check_id_def split: if_splits)

text \<open>A query that passes the checks and the padding, for a resolver that is ok.\<close>

lemma dot_finish_cases:
  assumes "dot_ok r1" "\<forall>s. xc_server x = Some s \<longrightarrow> valid_ip (ta_ip s)" "\<forall>resp. xc_res x = Inr resp \<longrightarrow> 2 \<le> length resp"
    and fin: "dot_finish cd env q caller (r1, x) = (r', out)"
  shows "dot_ok r' \<and> to_exchange out = Some x \<and> to_server out = xc_server x \<and> to_q out = caller
    \<and> (case xc_res x of
       Inl e \<Rightarrow> to_qerr out = Some e \<and> to_response out = None \<and> r' = r1
     | Inr resp \<Rightarrow> 2 \<le> length resp \<and> (if be16 resp = 0
         then to_qerr out = None \<and> to_response out = Some (put16 0 (be16 q) resp)
           \<and> r' = (case xc_server x of None \<Rightarrow> r1 | Some s \<Rightarrow> dot_Confirm (te_net env) s r1)
         else (\<exists>e. to_qerr out = Some (BadResponse, e)) \<and> to_response out = tryServfail cd q
           \<and> r' = r1\<lparr>dr_hangover := te_now2 env + dot_hangoverDuration\<rparr>))"
proof -
  have ok2: "dot_ok (r1\<lparr>dr_hangover := t\<rparr>)" for t using assms(1) by (simp add: dot_ok_def)
  show ?thesis
  proof (cases "xc_res x")
    case (Inl e)
    then show ?thesis using fin assms(1) by (auto simp: dot_finish_def Let_def)
  next
    case (Inr resp)
    then have "2 \<le> length resp" using assms(3) by simp
    then show ?thesis
      using fin Inr ok2 assms(1,2) dot_Confirm_ok [OF assms(1)]
      by (cases "be16 resp = 0"; cases "xc_server x") (auto simp: dot_finish_def Let_def dot_check_id_def)
  qed
qed

lemma dot_doQuery_sent:
  assumes law: "id_law cd" and r: "dot_ok r" and env: "tls_env_ok env"
    and q: "2 \<le> length q" "\<not> te_now1 env < dr_hangover r" "AddEdnsPadding cd q = Inr (q', same)"
  obtains m x r' out where "dot_doQuery cd env q r = Some (r', out)"
    "exchange_dot env (put16 0 0 q') r = Some (r\<lparr>dr_ips := m\<rparr>, x)"
    "dot_ok (r\<lparr>dr_ips := m\<rparr>)" "dot_finish cd env q' q (r\<lparr>dr_ips := m\<rparr>, x) = (r', out)"
    "12 \<le> length q'" "be16 q' = be16 q"
    "\<forall>s. xc_server x = Some s \<longrightarrow> valid_ip (ta_ip s)" "\<forall>resp. xc_res x = Inr resp \<longrightarrow> 2 \<le> length resp"
proof -
  have len: "12 \<le> length q'" "be16 q' = be16 q" using AddEdnsPadding_id [OF law q(3)] by auto
  have same: "(if same then q' else q) = q" using AddEdnsPadding_same [of cd q q'] q(3) by auto
  obtain m x where x: "exchange_dot env (put16 0 0 q') r = Some (r\<lparr>dr_ips := m\<rparr>, x)" "dot_ok (r\<lparr>dr_ips := m\<rparr>)"
      "\<forall>s. xc_server x = Some s \<longrightarrow> valid_ip (ta_ip s)" "\<forall>resp. xc_res x = Inr resp \<longrightarrow> 2 \<le> length resp"
    using exchange_dot_ok [OF r env, of "put16 0 0 q'"] by blast
  obtain r' out where fin: "dot_finish cd env q' q (r\<lparr>dr_ips := m\<rparr>, x) = (r', out)"
    by (cases "dot_finish cd env q' q (r\<lparr>dr_ips := m\<rparr>, x)")
  have "put16 0 (be16 q') (put16 0 0 q') = q'" using len(1) by (simp add: put16_be16_id)
  then have "dot_doQuery_padded cd env q q' same r = Some (r', out)"
    using len(1) x(1) same fin by (cases same) (simp_all add: dot_doQuery_padded_def Let_def)
  then have "dot_doQuery cd env q r = Some (r', out)" using q by (simp add: dot_doQuery_def)
  from that [OF this x(1,2) fin len x(3,4)] show ?thesis .
qed

text \<open>All the ways a query can go.\<close>

lemma dot_doQuery_cases:
  assumes law: "id_law cd" and r: "dot_ok r" and env: "tls_env_ok env"
  obtains (early) out st e where "dot_doQuery cd env q r = Some (r, out)" "to_exchange out = None" "to_q out = q"
      "to_qerr out = Some (st, e)" "to_server out = None"
      "to_response out = None \<or> 2 \<le> length q \<and> to_response out = tryServfail cd q"
  | (sent) q' same m x r' out where "dot_doQuery cd env q r = Some (r', out)"
      "2 \<le> length q" "\<not> te_now1 env < dr_hangover r" "AddEdnsPadding cd q = Inr (q', same)"
      "exchange_dot env (put16 0 0 q') r = Some (r\<lparr>dr_ips := m\<rparr>, x)"
      "dot_ok (r\<lparr>dr_ips := m\<rparr>)" "dot_finish cd env q' q (r\<lparr>dr_ips := m\<rparr>, x) = (r', out)"
      "12 \<le> length q'" "be16 q' = be16 q"
      "\<forall>s. xc_server x = Some s \<longrightarrow> valid_ip (ta_ip s)" "\<forall>resp. xc_res x = Inr resp \<longrightarrow> 2 \<le> length resp"
proof (cases "2 \<le> length q \<and> \<not> te_now1 env < dr_hangover r \<and> (\<exists>p. AddEdnsPadding cd q = Inr p)")
  case True
  then obtain q' same where q: "2 \<le> length q" "\<not> te_now1 env < dr_hangover r" "AddEdnsPadding cd q = Inr (q', same)"
    by auto
  from dot_doQuery_sent [OF law r env q] show ?thesis using q sent by metis
next
  case False
  then have "\<exists>resp st e. dot_doQuery cd env q r = Some (r, dot_fail resp st e q)
      \<and> (resp = None \<or> 2 \<le> length q \<and> resp = tryServfail cd q)"
    by (cases "AddEdnsPadding cd q") (auto simp: dot_doQuery_def not_le)
  then obtain resp st e where "dot_doQuery cd env q r = Some (r, dot_fail resp st e q)"
      "resp = None \<or> 2 \<le> length q \<and> resp = tryServfail cd q" by blast
  then show ?thesis by (intro early [of "dot_fail resp st e q" st e]) (simp_all add: dot_fail_def)
qed

subsection \<open>The contract\<close>

type_synonym 'x dot = "'x codec \<times> (nat \<Rightarrow> tls_env) \<times> dot_resolver"

definition dot_step :: "'x dot query_fun" where
  "dot_step s q = (case s of (cd, es, r) \<Rightarrow>
     map_option (\<lambda>(r', dq). ((cd, \<lambda>n. es (Suc n), r'), dq_response dq, dq_err dq)) (dot_Query cd (es 0) q r))"

fun dot_state_ok :: "'x dot \<Rightarrow> bool" where
  "dot_state_ok (cd, es, r) \<longleftrightarrow> id_law cd \<and> dot_ok r \<and> (\<forall>n. tls_env_ok (es n))"

lemma dot_doQuery_spec:
  assumes law: "id_law cd" and r: "dot_ok r" and env: "tls_env_ok env"
  shows "\<exists>r' out. dot_doQuery cd env q r = Some (r', out) \<and> dot_ok r' \<and> to_q out = q
    \<and> (to_qerr out = None \<longrightarrow> to_response out \<noteq> None)
    \<and> (\<forall>b. to_response out = Some b \<longrightarrow> 2 \<le> length b \<and> 2 \<le> length q \<and> be16 b = be16 q)"
  using law r env
proof (cases rule: dot_doQuery_cases [where q = q])
  case (early out st e)
  then show ?thesis using r tryServfail_id [OF law, of q] by fastforce
next
  case (sent q' same m x r' out)
  note fin = dot_finish_cases [OF sent(6,10,11,7)]
  have "2 \<le> length b \<and> be16 b = be16 q" if b: "to_response out = Some b" for b
  proof (cases "xc_res x")
    case (Inl e)
    then show ?thesis using fin b by simp
  next
    case (Inr resp)
    show ?thesis
    proof (cases "be16 resp = 0")
      case True
      then show ?thesis using fin b Inr sent(9) by auto
    next
      case False
      then have "tryServfail cd q' = Some b" using fin b Inr by auto
      then show ?thesis using tryServfail_id [OF law, of q' b] sent(9) by auto
    qed
  qed
  moreover have "to_qerr out = None \<longrightarrow> to_response out \<noteq> None"
    using fin by (auto split: sum.splits if_splits)
  ultimately show ?thesis
    using sent(1,2) fin by (intro exI [of _ r'] exI [of _ out] conjI) simp_all
qed

interpretation dot: dns_resolver dot_state_ok dot_step
proof unfold_locales
  fix s :: "'x dot" and q s' r e b
  assume s: "dot_state_ok s"
  obtain cd es rv where c: "s = (cd, es, rv)" by (cases s)
  have pre: "id_law cd" "dot_ok rv" "tls_env_ok (es 0)" using s c by auto
  from dot_doQuery_spec [OF pre, of q]
  obtain r' out where run: "dot_doQuery cd (es 0) q rv = Some (r', out)" and spec: "dot_ok r'"
      "to_qerr out = None \<longrightarrow> to_response out \<noteq> None"
      "\<forall>b. to_response out = Some b \<longrightarrow> 2 \<le> length b \<and> 2 \<le> length q \<and> be16 b = be16 q"
    by (elim exE conjE)
  have step: "dot_step s q = Some ((cd, \<lambda>n. es (Suc n), r'), to_response out, map_option (\<lambda>(st, e). EQuery st e) (to_qerr out))"
    using run c by (simp add: dot_step_def dot_Query_def Let_def)
  show "\<exists>s' r e. dot_step s q = Some (s', r, e) \<and> dot_state_ok s'" using step spec(1) s c by simp
  show "dot_step s q = Some (s', r, None) \<Longrightarrow> \<exists>b. r = Some b" using step spec(2) by auto
  show "dot_step s q = Some (s', Some b, e) \<Longrightarrow> 2 \<le> length b \<and> 2 \<le> length q \<and> be16 b = be16 q"
    using step spec(3) by auto
qed

interpretation dot_tcp: dns_relay dot_state_ok dot_step tcp_write tcp_stream
  by unfold_locales

subsection \<open>A new resolver\<close>

lemma dot_NewResolver_success:
  assumes "dot_NewResolver parse lookup rawurl addrs listener = Inr r" and "\<forall>h. list_all valid_ip (fst (lookup h))"
  obtains u where "parse rawurl = Inr u" "du_Scheme u \<in> {''dot'', ''tls''}" "du_Hostname u \<noteq> []"
    "dr_hostname r = du_Hostname u" "dr_ServerName r = du_Hostname u"
    "dr_url r = ''dot://'' @ JoinHostPort (du_Hostname u) (Itoa (dr_port r))" "du_Port u = [] \<longrightarrow> dr_port r = 853"
    "dot_ok r"
proof -
  obtain u where u: "parse rawurl = Inr u" "du_Scheme u \<in> {''dot'', ''tls''}" "du_Hostname u \<noteq> []"
    using assms(1) by (auto simp: dot_NewResolver_def Let_def split: sum.splits if_splits)
  obtain m1 a where g: "Get lookup (du_Hostname u) NewIPMap = (m1, a)" by (cases "Get lookup (du_Hostname u) NewIPMap")
  have r: "dr_hostname r = du_Hostname u" "dr_ServerName r = du_Hostname u"
      "dr_url r = ''dot://'' @ JoinHostPort (du_Hostname u) (Itoa (dr_port r))"
      "dr_ips r = add_addrs lookup a addrs m1" "\<not> Empty (at_set a (add_addrs lookup a addrs m1))"
      "du_Port u = [] \<longrightarrow> dr_port r = 853"
    using assms(1) u g
    by (auto simp: dot_NewResolver_def defaultDoTPort_def Let_def split: sum.splits if_splits)
  note new = add_addrs_new [OF g assms(2) [rule_format], of addrs]
  have "im_m (add_addrs lookup a addrs m1) (du_Hostname u) = Some a"
    by (rule Get_Some [OF new [THEN conjunct2, THEN conjunct1]])
  then have "dot_ok r" using new r by (auto simp: dot_ok_def Empty_def)
  then show thesis using that u r by blast
qed

text \<open>
  A resolver that \<open>NewResolver\<close> returns is ready for use: the scheme was \<open>dot\<close> or \<open>tls\<close>, the
  certificate is checked against the host of the URL, the reported URL is the canonical one with the
  port written out, and its host has at least one address, so that a query can never end in a call on a
  nil connection.
\<close>

theorem dot_NewResolver_ready:
  assumes "dot_NewResolver parse lookup rawurl addrs listener = Inr r" and "\<forall>h. list_all valid_ip (fst (lookup h))"
  shows "dot_ok r \<and> dr_ServerName r = dr_hostname r \<and> dr_hostname r \<noteq> []
    \<and> dot_GetURL r = ''dot://'' @ JoinHostPort (dr_hostname r) (Itoa (dr_port r))
    \<and> (\<exists>u. parse rawurl = Inr u \<and> du_Scheme u \<in> {''dot'', ''tls''} \<and> dr_hostname r = du_Hostname u
         \<and> (du_Port u = [] \<longrightarrow> dr_port r = 853))"
  using assms by (cases rule: dot_NewResolver_success) (auto simp: dot_GetURL_def)

definition sample_dot_url :: dot_url where
  "sample_dot_url = \<lparr>du_Scheme = ''tls'', du_Hostname = ''dns.google'', du_Port = []\<rparr>"

definition sample_dot :: dot_resolver where
  "sample_dot = \<lparr>dr_url = ''dot://'' @ JoinHostPort ''dns.google'' (Itoa 853), dr_hostname = ''dns.google'',
     dr_port = 853, dr_ips = add_addrs (ne_lookup sample_host) 0 [''8.8.8.8''] (fst (Get (ne_lookup sample_host) ''dns.google'' NewIPMap)),
     dr_listener = True, dr_ServerName = ''dns.google'', dr_hangover = 0\<rparr>"

lemma sample_dot_new:
  "dot_NewResolver (\<lambda>_. Inr sample_dot_url) (ne_lookup sample_host) ''tls://dns.google'' [''8.8.8.8''] True = Inr sample_dot"
proof -
  obtain m1 where g: "Get (ne_lookup sample_host) ''dns.google'' NewIPMap = (m1, 0)"
    by (simp add: Get_def NewIPMap_def Let_def)
  have "pool_of (at_set 0 (add_addrs (ne_lookup sample_host) 0 [''8.8.8.8''] m1)) \<noteq> {}"
    using add_addrs_new [OF g, of "[''8.8.8.8'']"] sample_host_ok by (auto simp: sample_host_def valid_ip_def)
  then have "\<not> Empty (at_set 0 (add_addrs (ne_lookup sample_host) 0 [''8.8.8.8''] m1))" by (simp add: Empty_pool)
  then show ?thesis
    using g by (simp add: dot_NewResolver_def sample_dot_url_def sample_dot_def defaultDoTPort_def Let_def)
qed

lemma sample_dot_ok: "dot_ok sample_dot"
proof -
  obtain m1 where g: "Get (ne_lookup sample_host) ''dns.google'' NewIPMap = (m1, 0)"
    by (simp add: Get_def NewIPMap_def Let_def)
  note new = add_addrs_new [OF g, of "[''8.8.8.8'']"]
  have "map_ok (add_addrs (ne_lookup sample_host) 0 [''8.8.8.8''] m1)"
    "pool_of (at_set 0 (add_addrs (ne_lookup sample_host) 0 [''8.8.8.8''] m1)) \<noteq> {}"
    "im_m (add_addrs (ne_lookup sample_host) 0 [''8.8.8.8''] m1) ''dns.google'' = Some 0"
    using new Get_Some [where lookup = "ne_lookup sample_host" and a = 0] by (auto simp: sample_host_def valid_ip_def)
  then show ?thesis using g by (auto simp: dot_ok_def sample_dot_def pool_of_def)
qed

theorem dot_NewResolver_ready_witness:
  "dot_ok sample_dot \<and> dr_ServerName sample_dot = dr_hostname sample_dot \<and> dr_hostname sample_dot \<noteq> []
    \<and> dot_GetURL sample_dot = ''dot://'' @ JoinHostPort (dr_hostname sample_dot) (Itoa (dr_port sample_dot))
    \<and> (\<exists>u. (Inr sample_dot_url :: goerr + dot_url) = Inr u \<and> du_Scheme u \<in> {''dot'', ''tls''}
         \<and> dr_hostname sample_dot = du_Hostname u \<and> (du_Port u = [] \<longrightarrow> dr_port sample_dot = 853))"
  by (rule dot_NewResolver_ready [OF sample_dot_new]) (rule sample_host_ok)

subsection \<open>Properties of a query\<close>

text \<open>A server that sends the source given after the handshake.\<close>

definition sample_tls :: "source \<Rightarrow> tls_env" where
  "sample_tls s = \<lparr>te_now1 = 100, te_now_dial = 150, te_now2 = 200, te_before = 50, te_after = 3000050,
     te_net = sample_host, te_ctx_deadline = None, te_SetDeadline = None, te_Handshake = None,
     te_SetWriteDeadline = None, te_SetReadDeadline = None, te_write = (\<lambda>w b. (w @ b, length b, None)),
     te_answer = (\<lambda>b. s)\<rparr>"

lemma sample_tls_ok: "tls_env_ok (sample_tls s)"
proof -
  have "io_writer (\<lambda>w b. (w @ b, length b, None)) (\<lambda>w::bytes. w)" by unfold_locales auto
  then show ?thesis using sample_host_ok by (simp add: tls_env_ok_def sample_tls_def)
qed

text \<open>
  C11. A DoT query always returns, whatever the network does: there is no panic (no short slice is
  indexed, \<open>dialPlainTCP\<close> never gives a nil connection without an error), the resolver stays ready for use,
  the caller's slice is as before, and the promise of the \<open>Resolver\<close> interface holds: a response
  when there is no error, and every response has the query's ID.
\<close>

theorem dot_Query_contract:
  assumes "id_law cd" and "dot_ok r" and "tls_env_ok env"
  shows "\<exists>r' out res. dot_doQuery cd env q r = Some (r', out) \<and> dot_Query cd env q r = Some (r', res)
    \<and> dot_ok r' \<and> to_q out = q \<and> dq_response res = to_response out
    \<and> (dq_err res = None \<longrightarrow> dq_response res \<noteq> None)
    \<and> (\<forall>b. dq_response res = Some b \<longrightarrow> 2 \<le> length b \<and> 2 \<le> length q \<and> be16 b = be16 q)"
proof -
  from dot_doQuery_spec [OF assms, of q]
  obtain r' out where run: "dot_doQuery cd env q r = Some (r', out)" and ok: "dot_ok r'" "to_q out = q"
    by (elim exE conjE)
  let ?s = "(cd, \<lambda>n::nat. env, r)"
  have s: "dot_state_ok ?s" using assms by simp
  obtain res where q: "dot_Query cd env q r = Some (r', res)" "dq_response res = to_response out"
      and err: "dq_err res = map_option (\<lambda>(st, e). EQuery st e) (to_qerr out)"
    using run by (simp add: dot_Query_def Let_def)
  have step: "dot_step ?s q = Some ((cd, \<lambda>n. env, r'), dq_response res, dq_err res)"
    using q by (simp add: dot_step_def)
  have "dq_err res = None \<longrightarrow> dq_response res \<noteq> None"
    using dot.query_answer [OF s, of q _ "dq_response res"] step by auto
  moreover have "\<forall>b. dq_response res = Some b \<longrightarrow> 2 \<le> length b \<and> 2 \<le> length q \<and> be16 b = be16 q"
    using dot.query_id [OF s, of q _ _ "dq_err res"] step by auto
  ultimately show ?thesis
    using run ok q by (intro exI [of _ r'] exI [of _ out] exI [of _ res] conjI)
qed

theorem dot_Query_contract_witness:
  "\<exists>r' out res. dot_doQuery sample_codec (sample_tls []) sample_query sample_dot = Some (r', out)
    \<and> dot_Query sample_codec (sample_tls []) sample_query sample_dot = Some (r', res)
    \<and> dot_ok r' \<and> to_q out = sample_query \<and> dq_response res = to_response out
    \<and> (dq_err res = None \<longrightarrow> dq_response res \<noteq> None)
    \<and> (\<forall>b. dq_response res = Some b \<longrightarrow> 2 \<le> length b \<and> 2 \<le> length sample_query \<and> be16 b = be16 sample_query)"
  by (rule dot_Query_contract [OF sample_id_law sample_dot_ok sample_tls_ok])

text \<open>
  A DoT query that succeeds was answered over its own connection: exactly one frame was sent, the
  padded query with its ID cut out, and the response is the message of the server's frame with the ID
  of the query in place of its zero ID.
\<close>

theorem dot_success_is_answer:
  assumes "id_law cd" and "dot_ok r" and "tls_env_ok env"
    and "dot_doQuery cd env q r = Some (r', out)" and "to_qerr out = None"
  shows "\<exists>q' same x b. AddEdnsPadding cd q = Inr (q', same) \<and> to_exchange out = Some x
    \<and> xc_sent x = frame (enc16 0 @ drop 2 q')
    \<and> dnsOverTCPRead (te_answer env (xc_sent x)) = Inr (enc16 0 @ b)
    \<and> to_response out = Some (enc16 (be16 q) @ b) \<and> xc_closed x"
  using assms(1-3)
proof (cases rule: dot_doQuery_cases [where q = q])
  case (early out st e)
  then show ?thesis using assms(4,5) by simp
next
  case (sent q' same m x r1 out1)
  have out1: "out1 = out" using sent(1) assms(4) by simp
  note fin = dot_finish_cases [OF sent(6,10,11,7)]
  obtain resp where resp: "xc_res x = Inr resp" "be16 resp = 0" "2 \<le> length resp"
      "to_response out = Some (put16 0 (be16 q) resp)"
    using fin assms(5) out1 sent(9) by (auto split: sum.splits if_splits)
  obtain m' x' where ex: "exchange_dot env (put16 0 0 q') r = Some (r\<lparr>dr_ips := m'\<rparr>, x')"
      "xc_opened x' \<longrightarrow> xc_closed x'"
      "\<forall>resp. xc_res x' = Inr resp \<longrightarrow> xc_opened x' \<and> xc_sent x' = frame (put16 0 0 q')
         \<and> dnsOverTCPRead (te_answer env (frame (put16 0 0 q'))) = Inr resp"
    using exchange_dot_ok [OF assms(2,3), of "put16 0 0 q'"] by metis
  then have x: "xc_sent x = frame (put16 0 0 q')" "xc_closed x"
      "dnsOverTCPRead (te_answer env (frame (put16 0 0 q'))) = Inr resp"
    using sent(5) resp(1) by auto
  have "put16 0 0 q' = enc16 0 @ drop 2 q'" using sent(8) by (simp add: put16_zero)
  moreover have "resp = enc16 0 @ drop 2 resp" using resp(2,3) enc16_be16 [of resp] by (metis append_take_drop_id)
  moreover have "put16 0 (be16 q) resp = enc16 (be16 q) @ drop 2 resp" using resp(3) by (simp add: put16_zero)
  ultimately show ?thesis
    using sent(4) fin out1 x resp(4)
    by (intro exI [of _ q'] exI [of _ same] exI [of _ x] exI [of _ "drop 2 resp"]) auto
qed

text \<open>An exchange over the sample network, for any bytes from the server.\<close>

lemma sample_exchange:
  assumes r: "dot_ok r" and len: "length q \<le> 65535"
  shows "\<exists>m x. exchange_dot (sample_tls s) q r = Some (r\<lparr>dr_ips := m\<rparr>, x)
    \<and> xc_res x = (case dnsOverTCPRead s of Inl e \<Rightarrow> Inl (BadResponse, e) | Inr resp \<Rightarrow> Inr resp)"
proof -
  obtain m ts conn err where d: "dialPlainTCP sample_host (dr_hostname r) (dr_port r) (dr_ips r) = (m, ts, conn, err)"
    by (metis prod_cases4)
  obtain a where a: "im_m (dr_ips r) (dr_hostname r) = Some a" "is_ips (at_set a (dr_ips r)) \<noteq> []" "map_ok (dr_ips r)"
    using r by (auto simp: dot_ok_def)
  have all: "answers sample_host (dr_port r) b" for b by (simp add: answers_def sample_host_def)
  have "dial_contract sample_host (dr_port r) (at_set a (dr_ips r)) (ts, conn, err)"
    using dial_ips_contract [OF sample_host_ok(1) a(3) _ Get_known [OF a(1)], of "dr_port r"] sample_host_ok(2) d
    by (simp add: dialPlainTCP_def)
  then obtain c where c: "conn = Some c" "err = None"
    using a(2) all by (cases conn) (auto simp: dial_contract_def ex_in_conv)
  have f: "te_net (sample_tls s) = sample_host" by (simp add: sample_tls_def)
  have w: "dnsOverTCPWrite (te_write (sample_tls s)) [] q = (frame q, None)"
    using len by (simp add: dnsOverTCPWrite_def sample_tls_def frame_def Let_def)
  show ?thesis
    using d c w by (auto simp: exchange_dot_def tls_exchange_def f Let_def close_with_def sample_tls_def split: sum.splits)
qed

text \<open>So a query over it goes the way the answer says.\<close>

lemma sample_net_run:
  assumes r: "dot_ok r" "dr_hangover r = dr_hangover sample_dot" and "dnsOverTCPRead s = a"
  shows "\<exists>r' out x. dot_doQuery sample_codec (sample_tls s) sample_query r = Some (r', out)
    \<and> to_exchange out = Some x \<and> xc_res x = (case a of Inl e \<Rightarrow> Inl (BadResponse, e) | Inr resp \<Rightarrow> Inr resp)
    \<and> (case a of Inl e \<Rightarrow> to_qerr out = Some (BadResponse, e)
        | Inr resp \<Rightarrow> be16 resp = 0 \<longrightarrow> to_qerr out = None
            \<and> to_response out = Some (put16 0 (be16 sample_padded_query) resp))"
proof -
  have q: "2 \<le> length sample_query" "\<not> te_now1 (sample_tls s) < dr_hangover r"
    using r(2) by (simp_all add: sample_query_def sample_tls_def sample_dot_def)
  from dot_doQuery_sent [OF sample_id_law r(1) sample_tls_ok q sample_padded]
  obtain m x r' out where run: "dot_doQuery sample_codec (sample_tls s) sample_query r = Some (r', out)"
      "exchange_dot (sample_tls s) (put16 0 0 sample_padded_query) r = Some (r\<lparr>dr_ips := m\<rparr>, x)"
      "dot_ok (r\<lparr>dr_ips := m\<rparr>)"
      "dot_finish sample_codec (sample_tls s) sample_padded_query sample_query (r\<lparr>dr_ips := m\<rparr>, x) = (r', out)"
      "\<forall>s. xc_server x = Some s \<longrightarrow> valid_ip (ta_ip s)" "\<forall>resp. xc_res x = Inr resp \<longrightarrow> 2 \<le> length resp"
    by metis
  note fin = dot_finish_cases [OF run(3,5,6,4)]
  have "xc_res x = (case a of Inl e \<Rightarrow> Inl (BadResponse, e) | Inr resp \<Rightarrow> Inr resp)"
    using sample_exchange [OF r(1), of "put16 0 0 sample_padded_query" s] run(2) assms(3)
    by (auto simp: length_sample_padded_query)
  then show ?thesis using run(1) fin by (cases a) auto
qed

lemmas sample_dot_run = sample_net_run [OF sample_dot_ok refl]

lemma sample_answer_read:
  "dnsOverTCPRead [([0], None), ([4, 0, 0], None), ([1, 2], None)] = Inr [0, 0, 1, 2]"
proof -
  have "\<exists>rest. src_data [([0], None), ([4, 0, 0], None), ([1, 2], None)] = frame [0, 0, 1, 2 :: byte] @ rest"
    by (rule exI [of _ "[]"]) (simp add: frame_def enc16_def)
  then show ?thesis using dnsOverTCPRead_frame [of "[([0], None), ([4, 0, 0], None), ([1, 2], None)]"] by simp
qed

theorem dot_success_is_answer_witness:
  "\<exists>r' out. dot_doQuery sample_codec (sample_tls [([0], None), ([4, 0, 0], None), ([1, 2], None)]) sample_query sample_dot
       = Some (r', out)
    \<and> (\<exists>q' same x b. AddEdnsPadding sample_codec sample_query = Inr (q', same) \<and> to_exchange out = Some x
      \<and> xc_sent x = frame (enc16 0 @ drop 2 q')
      \<and> dnsOverTCPRead (te_answer (sample_tls [([0], None), ([4, 0, 0], None), ([1, 2], None)]) (xc_sent x))
          = Inr (enc16 0 @ b)
      \<and> to_response out = Some (enc16 (be16 sample_query) @ b) \<and> xc_closed x)"
proof -
  obtain r' out where run: "dot_doQuery sample_codec (sample_tls [([0], None), ([4, 0, 0], None), ([1, 2], None)])
      sample_query sample_dot = Some (r', out)" "to_qerr out = None"
    using sample_dot_run [OF sample_answer_read] by (auto simp: be16_def)
  from dot_success_is_answer [OF sample_id_law sample_dot_ok sample_tls_ok run] run(1) show ?thesis by blast
qed

text \<open>
  Every connection that a query opens is closed when the query returns, on every way out, and the
  handshake had a deadline of at most ten seconds, or the context's when that is earlier.
\<close>

theorem dot_connection_closed:
  assumes "id_law cd" and "dot_ok r" and "tls_env_ok env"
    and "dot_doQuery cd env q r = Some (r', out)" and "to_exchange out = Some x" and "xc_opened x"
  shows "xc_closed x \<and> (\<exists>t. xc_deadline x = Some t \<and> t \<le> te_now_dial env + 10 * second
    \<and> (\<forall>d. te_ctx_deadline env = Some d \<longrightarrow> t \<le> d))"
  using assms(1-3)
proof (cases rule: dot_doQuery_cases [where q = q])
  case (early out1 st e)
  then show ?thesis using assms(4,5) by simp
next
  case (sent q' same m x1 r1 out1)
  have x: "x1 = x" using sent(1) assms(4,5) dot_finish_cases [OF sent(6,10,11,7)] by simp
  have "xc_opened x \<longrightarrow> xc_closed x" using exchange_dot_ok [OF assms(2,3), of "put16 0 0 q'"] sent(5) x by auto
  moreover have "xc_deadline x = Some (handshake_deadline env)"
    using exchange_dot_ok [OF assms(2,3), of "put16 0 0 q'"] sent(5) x assms(6) by auto
  moreover have "handshake_deadline env \<le> te_now_dial env + 10 * second
      \<and> (\<forall>d. te_ctx_deadline env = Some d \<longrightarrow> handshake_deadline env \<le> d)"
    by (auto simp: handshake_deadline_def tlsHandshakeTimeout_def Let_def split: option.splits)
  ultimately show ?thesis using assms(6) by blast
qed

theorem dot_connection_closed_witness:
  "\<exists>r' out x. dot_doQuery sample_codec (sample_tls []) sample_query sample_dot = Some (r', out)
    \<and> to_exchange out = Some x \<and> (xc_opened x \<longrightarrow> xc_closed x)"
proof -
  have "dnsOverTCPRead [] = Inl EEOF" by (simp add: dnsOverTCPRead_def ReadFull_def numeral_2_eq_2)
  from sample_dot_run [OF this] obtain r' out x where
    "dot_doQuery sample_codec (sample_tls []) sample_query sample_dot = Some (r', out)" "to_exchange out = Some x" by blast
  with dot_connection_closed [OF sample_id_law sample_dot_ok sample_tls_ok this] show ?thesis by blast
qed

text \<open>What a dial does when the host has a confirmed address that answers: that one address is dialled, and the map stays.\<close>

lemma dial_confirmed:
  assumes "im_m m domain = Some a" and "Confirmed (at_set a m) = c" and "c \<noteq> []" and "answers ne port c"
  shows "fst (dialPlainTCP ne domain port m) = m \<and> fst (snd (dialPlainTCP ne domain port m)) = [c]"
  using assms Get_known [OF assms(1), of "ne_lookup ne"] split_dial_answers [of ne port c]
  by (auto simp: dialPlainTCP_def dial_ips_def Let_def)

text \<open>
  C27. A DoT query that fails on its connection (also by a response that cannot be read) gets no SERVFAIL, starts no hangover,
  and confirms or disconfirms nothing after its dial. So a confirmed address that can still be dialled is the one
  that the query tried, and the one that the next query will try first, however its TLS or DNS exchange failed.
\<close>

theorem dot_failed_exchange:
  assumes "id_law cd" and "dot_ok r" and "tls_env_ok env"
    and "dot_doQuery cd env q r = Some (r', out)" and "to_exchange out = Some x" and "xc_res x = Inl (st, e)"
  shows "to_response out = None \<and> to_qerr out = Some (st, e) \<and> dr_hangover r' = dr_hangover r
    \<and> dr_ips r' = fst (dialPlainTCP (te_net env) (dr_hostname r) (dr_port r) (dr_ips r))
    \<and> (\<forall>a c. im_m (dr_ips r) (dr_hostname r) = Some a \<and> Confirmed (at_set a (dr_ips r)) = c \<and> c \<noteq> []
         \<and> answers (te_net env) (dr_port r) c
        \<longrightarrow> fst (snd (dialPlainTCP (te_net env) (dr_hostname r) (dr_port r) (dr_ips r))) = [c]
          \<and> im_m (dr_ips r') (dr_hostname r) = Some a \<and> Confirmed (at_set a (dr_ips r')) = c)"
  using assms(1-3)
proof (cases rule: dot_doQuery_cases [where q = q])
  case (early out1 st e)
  then show ?thesis using assms(4,5) by simp
next
  case (sent q' same m x1 r1 out1)
  note fin = dot_finish_cases [OF sent(6,10,11,7)]
  have x: "x1 = x" "out1 = out" "r1 = r'" using sent(1) assms(4,5) fin by simp_all
  have "m = fst (dialPlainTCP (te_net env) (dr_hostname r) (dr_port r) (dr_ips r))"
    by (rule exchange_dot_ips [OF sent(5)])
  then show ?thesis using fin x assms(6) dial_confirmed by auto
qed

text \<open>The sample resolver with a confirmed address, which answers; the server then closes the connection.\<close>

definition sample_confirmed :: dot_resolver where
  "sample_confirmed = dot_Confirm sample_host \<lparr>ta_ip = [8, 8, 4, 4], ta_port = 853\<rparr> sample_dot"

lemma sample_confirmed_ok: "dot_ok sample_confirmed"
  unfolding sample_confirmed_def by (rule dot_Confirm_ok [OF sample_dot_ok]) (simp add: valid_ip_def)

lemma sample_confirmed_fields:
  "\<exists>a. im_m (dr_ips sample_confirmed) (dr_hostname sample_confirmed) = Some a
     \<and> ip_Equal [8, 8, 4, 4] (Confirmed (at_set a (dr_ips sample_confirmed)))"
  "dr_hangover sample_confirmed = dr_hangover sample_dot" "dr_hostname sample_confirmed = dr_hostname sample_dot"
proof -
  obtain a where a: "im_m (dr_ips sample_dot) (dr_hostname sample_dot) = Some a" "map_ok (dr_ips sample_dot)"
    using sample_dot_ok by (auto simp: dot_ok_def)
  have "a < length (im_heap (dr_ips sample_dot))" using a by (auto simp: map_ok_def)
  then show "\<exists>a. im_m (dr_ips sample_confirmed) (dr_hostname sample_confirmed) = Some a
      \<and> ip_Equal [8, 8, 4, 4] (Confirmed (at_set a (dr_ips sample_confirmed)))"
    using a by (auto simp: sample_confirmed_def dot_Confirm_def Get_known at_set_upd Confirm_def confirm_locked_def
        Confirmed_def ip_Equal_norm Let_def)
  show "dr_hangover sample_confirmed = dr_hangover sample_dot" "dr_hostname sample_confirmed = dr_hostname sample_dot"
    by (simp_all add: sample_confirmed_def dot_Confirm_def Let_def split: prod.splits)
qed

theorem dot_failed_exchange_witness:
  "\<exists>r' out e a. dot_doQuery sample_codec (sample_tls []) sample_query sample_confirmed = Some (r', out)
    \<and> to_response out = None \<and> to_qerr out = Some (BadResponse, e) \<and> dr_hangover r' = dr_hangover sample_confirmed
    \<and> im_m (dr_ips r') (dr_hostname sample_confirmed) = Some a \<and> ip_Equal [8, 8, 4, 4] (Confirmed (at_set a (dr_ips r')))"
proof -
  have "dnsOverTCPRead [] = Inl EEOF" by (simp add: dnsOverTCPRead_def ReadFull_def numeral_2_eq_2)
  from sample_net_run [OF sample_confirmed_ok sample_confirmed_fields(2) this] obtain r' out x where
    *: "dot_doQuery sample_codec (sample_tls []) sample_query sample_confirmed = Some (r', out)" "to_exchange out = Some x"
      "xc_res x = Inl (BadResponse, EEOF)" by auto
  have "answers (te_net (sample_tls [])) (dr_port sample_confirmed) c" for c
    by (simp add: answers_def sample_tls_def sample_host_def)
  moreover obtain a where a: "im_m (dr_ips sample_confirmed) (dr_hostname sample_confirmed) = Some a"
      "ip_Equal [8, 8, 4, 4] (Confirmed (at_set a (dr_ips sample_confirmed)))"
    using sample_confirmed_fields(1) by blast
  moreover have "Confirmed (at_set a (dr_ips sample_confirmed)) \<noteq> []"
    using a(2) ip_norm_nonempty [of "[8, 8, 4, 4]"] by (auto simp: ip_Equal_norm valid_ip_def)
  ultimately show ?thesis
    using dot_failed_exchange [OF sample_id_law sample_confirmed_ok sample_tls_ok *] *(1) by metis
qed

end
