(* ===== verification/DotOverlap.thy ===== *)
theory DotOverlap
  imports DotResolver Overlap
begin

section \<open>Overlapping queries on one DoT resolver (proxy/dot/dot.go)\<close>

text \<open>
  The DoT resolver under any number of goroutines. A query is taken apart into the sections under the locks: the look
  at the hangover, every access to the address set while it dials, every dial, the exchange on its own TLS connection, and
  its end. \<open>DotResolver\<close> has \<open>dialPlainTCP\<close> and \<open>doQuery\<close> as functions; both are runs of these steps.
\<close>

subsection \<open>Dialling\<close>

text \<open>
  \<open>dialPlainTCP\<close>: before \<open>Get\<close>; dialling the confirmed address of the set at the heap address \<open>a\<close>; it failed; before
  \<open>GetAll\<close>; in the loop, with the addresses tried and those to come; returned.
\<close>

datatype dial_pc = DialGet | DialConfirmed nat ip | DialDisconfirm nat ip goerr
  | DialAll nat ip "goerr option" "ip list" | DialNext ip "goerr option" "ip list" "ip list"
  | DialEnd "retrier option" "goerr option" "ip list"

definition dial_start :: "nat \<Rightarrow> ip \<Rightarrow> dial_pc" where
  "dial_start a confirmed = (if confirmed \<noteq> [] then DialConfirmed a confirmed else DialAll a [] None [])"

inductive dialstep :: "string \<Rightarrow> int \<Rightarrow> ipMap \<Rightarrow> dial_pc \<Rightarrow> ipMap \<Rightarrow> dial_pc \<Rightarrow> bool" for domain port where
  d_get: "Get (ne_lookup (ne :: net_env)) domain m = (m', a) \<Longrightarrow>
     dialstep domain port m DialGet m' (dial_start a (Confirmed (at_set a m')))"
| d_confirmed: "split_dial ne port c = Inr conn \<Longrightarrow>
     dialstep domain port m (DialConfirmed a c) m (DialEnd (Some conn) None [c])"
| d_failed: "split_dial ne port c = Inl err \<Longrightarrow> dialstep domain port m (DialConfirmed a c) m (DialDisconfirm a c err)"
| d_disconfirm: "dialstep domain port m (DialDisconfirm a c err)
     (upd_set a (Disconfirm c) m) (DialAll a c (Some err) [c])"
| d_all: "dialstep domain port m (DialAll a c err ts) m (DialNext c err ts (GetAll draw (at_set a m)))"
| d_skip: "ip_Equal x c \<Longrightarrow> dialstep domain port m (DialNext c err ts (x # xs)) m (DialNext c err ts xs)"
| d_next: "\<not> ip_Equal x c \<Longrightarrow> split_dial ne port x = Inr conn \<Longrightarrow>
     dialstep domain port m (DialNext c err ts (x # xs)) m (DialEnd (Some conn) None (ts @ [x]))"
| d_next_failed: "\<not> ip_Equal x c \<Longrightarrow> split_dial ne port x = Inl e \<Longrightarrow>
     dialstep domain port m (DialNext c err ts (x # xs)) m (DialNext c (Some e) (ts @ [x]) xs)"
| d_none: "dialstep domain port m (DialNext c err ts []) m (DialEnd None err ts)"

inductive_cases dialstepE: "dialstep domain port m p m' p'"

subsection \<open>Queries\<close>

text \<open>
  Not called; called; dialling for the padded query (\<open>same\<close>: it is the caller's slice); on its TLS connection; the
  connection closed, or none made; returned; a method of a nil connection called.
\<close>

datatype dqpc = DNone | DCalled bytes | DDial bytes bytes bool dial_pc | DConn bytes bytes bool retrier
  | DDone bytes bytes bool exchange | DReturned bytes dot_out | DPanic

record dot_overlap =
  dv_res :: dot_resolver
  dv_now :: gotime
  dv_q :: "nat \<Rightarrow> dqpc"

text \<open>\<open>doQuery\<close> up to the dial, and what it makes of the dial's result.\<close>

definition start_dot :: "'x codec \<Rightarrow> gotime \<Rightarrow> dot_resolver \<Rightarrow> bytes \<Rightarrow> dqpc" where
  "start_dot cd now r q =
     (if length q < 2 then DReturned q (dot_fail None BadQuery (EMsg ''query length'') q)
      else if now < dr_hangover r then
        DReturned q (dot_fail (dohTryServfail cd q) HTTPError (EMsg ''forwarder is in servfail hangover'') q)
      else case AddEdnsPadding cd q of
          Inl err \<Rightarrow> DReturned q (dot_fail None InternalError err q)
        | Inr (q', same) \<Rightarrow> if length q' < 2 then DPanic else DDial q q' same DialGet)"

definition dialled_dot :: "bytes \<Rightarrow> bytes \<Rightarrow> bool \<Rightarrow> retrier option \<Rightarrow> goerr option \<Rightarrow> dqpc" where
  "dialled_dot q q' same conn err =
     (case err of Some e \<Rightarrow> DDone q q' same (no_exchange\<lparr>xc_res := Inl (SendFailed, e)\<rparr>)
      | None \<Rightarrow> (case conn of None \<Rightarrow> DPanic | Some plain \<Rightarrow> DConn q q' same plain))"

text \<open>The end of \<open>doQuery\<close>: the ID goes back into the slice, and \<open>dot_finish\<close>.\<close>

definition finish_dot :: "'x codec \<Rightarrow> tls_env \<Rightarrow> bytes \<Rightarrow> bytes \<Rightarrow> bool \<Rightarrow> exchange \<Rightarrow> dot_resolver
    \<Rightarrow> dot_resolver \<times> dot_out" where
  "finish_dot cd env q q' same x r =
     (let q2 = put16 0 (be16 q') (put16 0 0 q') in dot_finish cd env q2 (if same then q2 else q) (r, x))"

inductive dovstep :: "'x codec \<Rightarrow> dot_overlap \<Rightarrow> dot_overlap \<Rightarrow> bool" for cd :: "'x codec" where
  dv_call: "dv_q s i = DNone \<Longrightarrow> dovstep cd s (s\<lparr>dv_q := (dv_q s)(i := DCalled q)\<rparr>)"
| dv_check: "dv_q s i = DCalled q \<Longrightarrow>
     dovstep cd s (s\<lparr>dv_q := (dv_q s)(i := start_dot cd (dv_now s) (dv_res s) q)\<rparr>)"
| dv_dial: "dv_q s i = DDial q q' same p \<Longrightarrow>
     dialstep (dr_hostname (dv_res s)) (dr_port (dv_res s)) (dr_ips (dv_res s)) p m p' \<Longrightarrow>
     dovstep cd s (s\<lparr>dv_res := (dv_res s)\<lparr>dr_ips := m\<rparr>, dv_q := (dv_q s)(i := DDial q q' same p')\<rparr>)"
| dv_dialled: "dv_q s i = DDial q q' same (DialEnd conn err ts) \<Longrightarrow>
     dovstep cd s (s\<lparr>dv_q := (dv_q s)(i := dialled_dot q q' same conn err)\<rparr>)"
| dv_exchange: "dv_q s i = DConn q q' same plain \<Longrightarrow> io_writer (te_write env) (\<lambda>w. w) \<Longrightarrow>
     dovstep cd s (s\<lparr>dv_q := (dv_q s)(i := DDone q q' same (tls_exchange env (put16 0 0 q') plain))\<rparr>)"
| dv_finish: "dv_q s i = DDone q q' same x \<Longrightarrow> te_now2 env = dv_now s \<Longrightarrow>
     finish_dot cd env q q' same x (dv_res s) = (r', out) \<Longrightarrow>
     dovstep cd s (s\<lparr>dv_res := r', dv_q := (dv_q s)(i := DReturned q out)\<rparr>)"
| dv_tick: "dv_now s \<le> t \<Longrightarrow> dovstep cd s (s\<lparr>dv_now := t\<rparr>)"

definition dv_start :: "dot_resolver \<Rightarrow> gotime \<Rightarrow> dot_overlap" where
  "dv_start r now = \<lparr>dv_res = r, dv_now = now, dv_q = (\<lambda>i. DNone)\<rparr>"

definition dovreach :: "'x codec \<Rightarrow> dot_resolver \<Rightarrow> dot_overlap \<Rightarrow> bool" where
  "dovreach cd r s \<longleftrightarrow> (\<exists>now. dr_hangover r \<le> now + dot_hangoverDuration \<and> (dovstep cd)\<^sup>*\<^sup>* (dv_start r now) s)"

subsection \<open>Invariant\<close>

text \<open>The set of the resolver's host, and the addresses it knows.\<close>

definition host_set :: "dot_resolver \<Rightarrow> nat option" where
  "host_set r = im_m (dr_ips r) (dr_hostname r)"

definition dot_pool :: "dot_resolver \<Rightarrow> ip set" where
  "dot_pool r = (case host_set r of None \<Rightarrow> {} | Some a \<Rightarrow> pool_of (at_set a (dr_ips r)))"

text \<open>
  A dial in progress: the addresses are well-formed, none is tried twice, and there is an error as soon as one has
  failed; \<open>known\<close> are addresses that it will have tried when it gives up.
\<close>

definition tries_ok :: "ip \<Rightarrow> goerr option \<Rightarrow> ip list \<Rightarrow> ip list \<Rightarrow> ip set \<Rightarrow> bool" where
  "tries_ok c err ts xs known \<longleftrightarrow> (\<forall>x\<in>set ts \<union> set xs. valid_ip x) \<and> distinct (map ip_norm (ts @ candidates c xs))
     \<and> known \<subseteq> ip_norm ` set (ts @ candidates c xs) \<and> (err = None \<longleftrightarrow> ts = []) \<and> ts @ candidates c xs \<noteq> []"

fun dial_ok :: "dot_resolver \<Rightarrow> ip set \<Rightarrow> dial_pc \<Rightarrow> bool" where
  "dial_ok r known DialGet = (known \<subseteq> dot_pool r)"
| "dial_ok r known (DialConfirmed a c) = (host_set r = Some a \<and> valid_ip c \<and> known \<subseteq> dot_pool r)"
| "dial_ok r known (DialDisconfirm a c err) = (host_set r = Some a \<and> valid_ip c \<and> known \<subseteq> dot_pool r)"
| "dial_ok r known (DialAll a c err ts) = (host_set r = Some a \<and> known \<subseteq> dot_pool r
     \<and> (c = [] \<and> ts = [] \<and> err = None \<or> valid_ip c \<and> ts = [c] \<and> err \<noteq> None))"
| "dial_ok r known (DialNext c err ts xs) = tries_ok c err ts xs known"
| "dial_ok r known (DialEnd conn err ts) = ((\<forall>x\<in>set ts. valid_ip x) \<and> distinct (map ip_norm ts)
     \<and> (case conn of Some plain \<Rightarrow> err = None \<and> ts \<noteq> [] \<and> rt_addr plain = \<lparr>ta_ip = last ts, ta_port = dr_port r\<rparr>
        | None \<Rightarrow> err \<noteq> None \<and> known \<subseteq> ip_norm ` set ts))"

text \<open>What any step may do to the resolver.\<close>

definition dot_grows :: "dot_resolver \<Rightarrow> dot_resolver \<Rightarrow> bool" where
  "dot_grows r r' \<longleftrightarrow> dot_ok r' \<and> dr_hostname r' = dr_hostname r \<and> dr_port r' = dr_port r
     \<and> host_set r' = host_set r \<and> dot_pool r \<subseteq> dot_pool r'"

lemma dot_grows_refl: "dot_ok r \<Longrightarrow> dot_grows r r"
  by (simp add: dot_grows_def)

lemma dial_ok_grows: "dial_ok r known p \<Longrightarrow> dot_grows r r' \<Longrightarrow> dial_ok r' known p"
  by (cases p) (auto simp: dot_grows_def split: option.splits)

lemma host_setE:
  assumes "dot_ok r"
  obtains a where "host_set r = Some a" "im_m (dr_ips r) (dr_hostname r) = Some a" "a < length (im_heap (dr_ips r))"
    "map_ok (dr_ips r)" "set_ok (at_set a (dr_ips r))" "is_ips (at_set a (dr_ips r)) \<noteq> []"
    "dot_pool r = pool_of (at_set a (dr_ips r))"
proof -
  obtain a where a: "im_m (dr_ips r) (dr_hostname r) = Some a" "is_ips (at_set a (dr_ips r)) \<noteq> []" "map_ok (dr_ips r)"
    using assms by (auto simp: dot_ok_def)
  moreover have "a < length (im_heap (dr_ips r))" using a by (auto simp: map_ok_def)
  ultimately show ?thesis
    using that [of a] map_ok_at_set [of "dr_ips r" a] by (auto simp: host_set_def dot_pool_def)
qed

text \<open>A change of the host's set that keeps it in order and loses no address.\<close>

lemma dot_grows_upd:
  assumes "dot_ok r" "host_set r = Some a" "\<And>s. set_ok s \<Longrightarrow> set_ok (f s)" "\<And>s. set_ok s \<Longrightarrow> pool_of s \<subseteq> pool_of (f s)"
  shows "dot_grows r (r\<lparr>dr_ips := upd_set a f (dr_ips r)\<rparr>)"
proof -
  obtain b where b: "host_set r = Some b" "im_m (dr_ips r) (dr_hostname r) = Some b" "b < length (im_heap (dr_ips r))"
    "map_ok (dr_ips r)" "set_ok (at_set b (dr_ips r))" "is_ips (at_set b (dr_ips r)) \<noteq> []"
    "dot_pool r = pool_of (at_set b (dr_ips r))"
    using host_setE [OF assms(1)] by metis
  then have "a = b" using assms(2) by simp
  then show ?thesis
    using b dot_ok_upd [OF b(4,2,6) assms(3,4)] assms(4) [OF b(5)]
    by (auto simp: dot_grows_def dot_ok_def host_set_def dot_pool_def at_set_upd)
qed

lemma confirmed_valid: "set_ok s \<Longrightarrow> is_confirmed s \<noteq> [] \<Longrightarrow> valid_ip (is_confirmed s)"
  using confirmed_known [of s] valid_ip_norm [OF sym] unfolding set_ok_def by metis

text \<open>The addresses of \<open>GetAll\<close>, from which the loop leaves out the confirmed one.\<close>

lemma tries_ok_GetAll:
  assumes "set_ok s" "is_ips s \<noteq> []" "known \<subseteq> pool_of s"
    and c: "c = [] \<and> ts = [] \<and> err = None \<or> valid_ip c \<and> ts = [c] \<and> err \<noteq> None"
  shows "tries_ok c err ts (GetAll draw s) known"
proof -
  have valid: "\<forall>x\<in>set (GetAll draw s). valid_ip x" using assms(1) by (simp add: set_ok_def)
  have pool: "pool_of s = ip_norm ` set (GetAll draw s)" by (simp add: pool_of_def)
  have all: "GetAll draw s \<noteq> []" using assms(2) Empty_GetAll [of s draw] by (simp add: Empty_def)
  show ?thesis
  proof (cases "c = []")
    case True
    then show ?thesis
      using c valid pool assms(3) all distinct_GetAll [OF assms(1), of draw] candidates_no_confirmed [OF assms(1), of draw]
      by (auto simp: tries_ok_def valid_ip_def)
  next
    case False
    then have "valid_ip c" "ts = [c]" "err \<noteq> None" using c by auto
    moreover have "x \<in> ip_norm ` set (c # candidates c (GetAll draw s))" if "x \<in> known" for x
      using that assms(3) pool by (auto simp: candidates_def ip_Equal_norm image_iff)
    ultimately show ?thesis
      using valid distinct_candidates [OF assms(1), of c draw] by (auto simp: tries_ok_def simp del: set_GetAll)
  qed
qed

lemma dialstep_ok:
  assumes "dialstep (dr_hostname r) (dr_port r) (dr_ips r) p m p'" and r: "dot_ok r" and p: "dial_ok r known p"
  shows "dot_grows r (r\<lparr>dr_ips := m\<rparr>) \<and> dial_ok (r\<lparr>dr_ips := m\<rparr>) known p'"
proof -
  obtain a0 where a0: "host_set r = Some a0" "im_m (dr_ips r) (dr_hostname r) = Some a0" "set_ok (at_set a0 (dr_ips r))"
    "is_ips (at_set a0 (dr_ips r)) \<noteq> []" "dot_pool r = pool_of (at_set a0 (dr_ips r))"
    using host_setE [OF r] by metis
  have same: "r\<lparr>dr_ips := dr_ips r\<rparr> = r" by simp
  note refl = dot_grows_refl [OF r]
  show ?thesis
    using assms(1)
  proof (cases rule: dialstep.cases)
    case (d_get ne a)
    have "m = dr_ips r" "a = a0" using d_get(3) Get_known [OF a0(2)] by simp_all
    then show ?thesis
      using d_get refl p a0 confirmed_valid [OF a0(3)] by (auto simp: dial_start_def Confirmed_def)
  next
    case (d_confirmed ne c conn a)
    then show ?thesis using refl p split_dial_addr [OF d_confirmed(4)] by simp
  next
    case (d_disconfirm a c err)
    have grow: "dot_grows r (r\<lparr>dr_ips := m\<rparr>)"
      unfolding d_disconfirm(2) using p d_disconfirm(1)
      by (intro dot_grows_upd [OF r]) (auto simp: set_ok_Disconfirm ipset.pool_disconfirm)
    then show ?thesis using p d_disconfirm by (auto simp: dot_grows_def)
  next
    case (d_all a c err ts draw)
    have "a = a0" using p d_all(1) a0(1) by simp
    then show ?thesis
      using d_all p refl tries_ok_GetAll [OF a0(3,4), of known c ts err draw] a0(5) by simp
  next
    case (d_skip x c err ts xs)
    then show ?thesis using refl p by (auto simp: tries_ok_def candidates_def)
  next
    case (d_next x c ne conn err ts xs)
    then show ?thesis using refl p split_dial_addr [OF d_next(5)] by (auto simp: tries_ok_def candidates_def)
  next
    case (d_next_failed x c ne e err ts xs)
    then show ?thesis using refl p by (auto simp: tries_ok_def candidates_def)
  next
    case (d_none c err ts)
    then show ?thesis using refl p by (auto simp: tries_ok_def candidates_def)
  qed (use refl p in auto)
qed

text \<open>What a query has of its connection: none, with the error of the dial, or all that one TLS connection gave.\<close>

definition exchange_of :: "bytes \<Rightarrow> exchange \<Rightarrow> bool" where
  "exchange_of q' x \<longleftrightarrow> (\<exists>e. x = no_exchange\<lparr>xc_res := Inl (SendFailed, e)\<rparr>)
     \<or> (\<exists>te plain. io_writer (te_write te) (\<lambda>w. w) \<and> valid_ip (ta_ip (rt_addr plain))
          \<and> x = tls_exchange te (put16 0 0 q') plain)"

lemma exchange_of_ok:
  assumes "exchange_of q' x"
  shows "xc_opened x \<longrightarrow> xc_closed x" "\<forall>s. xc_server x = Some s \<longrightarrow> valid_ip (ta_ip s)"
    "\<forall>resp. xc_res x = Inr resp \<longrightarrow> 2 \<le> length resp"
proof -
  from assms consider (none) e where "x = no_exchange\<lparr>xc_res := Inl (SendFailed, e)\<rparr>"
    | (tls) te plain where "io_writer (te_write te) (\<lambda>w. w)" "valid_ip (ta_ip (rt_addr plain))"
        "x = tls_exchange te (put16 0 0 q') plain"
    by (auto simp: exchange_of_def)
  then have "(xc_opened x \<longrightarrow> xc_closed x) \<and> (\<forall>s. xc_server x = Some s \<longrightarrow> valid_ip (ta_ip s))
    \<and> (\<forall>resp. xc_res x = Inr resp \<longrightarrow> 2 \<le> length resp)"
  proof cases
    case tls
    then show ?thesis using tls_exchange_ok [OF tls(1), of "put16 0 0 q'" plain] by auto
  qed (simp add: no_exchange_def)
  then show "xc_opened x \<longrightarrow> xc_closed x" "\<forall>s. xc_server x = Some s \<longrightarrow> valid_ip (ta_ip s)"
    "\<forall>resp. xc_res x = Inr resp \<longrightarrow> 2 \<le> length resp"
    by blast+
qed

definition padded :: "'x codec \<Rightarrow> bytes \<Rightarrow> bytes \<Rightarrow> bool \<Rightarrow> bool" where
  "padded cd q q' same \<longleftrightarrow> 2 \<le> length q \<and> AddEdnsPadding cd q = Inr (q', same)"

text \<open>A result: the caller's slice as it was, an ID that is the query's, and for a success a good answer.\<close>

definition dot_answer :: "'x codec \<Rightarrow> bytes \<Rightarrow> dot_out \<Rightarrow> bool" where
  "dot_answer cd q out \<longleftrightarrow> to_q out = q
     \<and> (\<forall>b. to_response out = Some b \<longrightarrow> 2 \<le> length b \<and> 2 \<le> length q \<and> be16 b = be16 q)
     \<and> (\<forall>x. to_exchange out = Some x \<longrightarrow> (\<exists>q' same. padded cd q q' same \<and> exchange_of q' x))
     \<and> (to_qerr out = None \<longrightarrow> (\<exists>x resp. to_exchange out = Some x \<and> xc_res x = Inr resp \<and> be16 resp = 0
          \<and> 2 \<le> length resp \<and> to_response out = Some (put16 0 (be16 q) resp)))"

fun dqpc_ok :: "'x codec \<Rightarrow> dot_resolver \<Rightarrow> dqpc \<Rightarrow> bool" where
  "dqpc_ok cd r (DDial q q' same p) = (padded cd q q' same \<and> dial_ok r {} p)"
| "dqpc_ok cd r (DConn q q' same plain) = (padded cd q q' same \<and> valid_ip (ta_ip (rt_addr plain)))"
| "dqpc_ok cd r (DDone q q' same x) = (padded cd q q' same \<and> exchange_of q' x)"
| "dqpc_ok cd r (DReturned q out) = dot_answer cd q out"
| "dqpc_ok cd r DPanic = False"
| "dqpc_ok cd r p = True"

lemma dqpc_ok_grows: "dqpc_ok cd r p \<Longrightarrow> dot_grows r r' \<Longrightarrow> dqpc_ok cd r' p"
  by (cases p) (auto intro: dial_ok_grows)

definition dv_inv :: "'x codec \<Rightarrow> dot_overlap \<Rightarrow> bool" where
  "dv_inv cd s \<longleftrightarrow> dot_ok (dv_res s) \<and> dr_hangover (dv_res s) \<le> dv_now s + dot_hangoverDuration
     \<and> (\<forall>i. dqpc_ok cd (dv_res s) (dv_q s i))"

lemma start_dot_ok:
  assumes "id_law cd" and "dot_ok r"
  shows "dqpc_ok cd r (start_dot cd now r q)"
proof (cases "AddEdnsPadding cd q")
  case (Inr p)
  obtain q' same where p: "p = (q', same)" by (cases p)
  have "12 \<le> length q'" using AddEdnsPadding_id [OF assms(1)] Inr p by blast
  then show ?thesis
    using Inr p tryServfail_id [OF assms(1), of q] by (auto simp: start_dot_def dot_answer_def dot_fail_def padded_def)
qed (use tryServfail_id [OF assms(1), of q] in \<open>auto simp: start_dot_def dot_answer_def dot_fail_def\<close>)

lemma dialled_dot_ok:
  "dqpc_ok cd r (DDial q q' same (DialEnd conn err ts)) \<Longrightarrow> dqpc_ok cd r (dialled_dot q q' same conn err)"
  by (auto simp: dialled_dot_def exchange_of_def split: option.splits)

lemma finish_dot_ok:
  assumes law: "id_law cd" and q: "padded cd q q' same" and x: "exchange_of q' x"
    and r: "dot_ok r" and fin: "finish_dot cd env q q' same x r = (r', out)"
  shows "dot_answer cd q out" "dot_grows r r'"
    "dr_hangover r' = dr_hangover r \<or> dr_hangover r' = te_now2 env + dot_hangoverDuration"
proof -
  have len: "12 \<le> length q'" "be16 q' = be16 q" using AddEdnsPadding_id [OF law] q by (auto simp: padded_def)
  have id: "put16 0 (be16 q') (put16 0 0 q') = q'" using put16_be16_id [of q'] len by simp
  have same: "(if same then q' else q) = q" using AddEdnsPadding_same [of cd q q'] q by (auto simp: padded_def)
  have fin': "dot_finish cd env q' q (r, x) = (r', out)" using fin id same by (simp add: finish_dot_def Let_def)
  note ok = exchange_of_ok [OF x] and c = dot_finish_cases [OF r exchange_of_ok(2,3) [OF x] fin']
  have serv: "2 \<le> length b \<and> be16 b = be16 q" if "tryServfail cd q' = Some b" for b
    using tryServfail_id [OF law that] len by simp
  show "dot_answer cd q out"
    using c q x len serv unfolding dot_answer_def
    by (cases "xc_res x") (auto simp: padded_def split: if_splits)
  have "dot_grows r (dot_Confirm (te_net env) s r)" if "xc_server x = Some s" for s
  proof -
    obtain a where a: "host_set r = Some a" "im_m (dr_ips r) (dr_hostname r) = Some a" using host_setE [OF r] by metis
    have "valid_ip (ta_ip s)" using ok(2) that by simp
    then show ?thesis
      using dot_grows_upd [OF r a(1), of "Confirm (ta_ip s)"] ipset.ok_confirm ipset.pool_confirm
      by (auto simp: dot_Confirm_def Get_known [OF a(2)])
  qed
  moreover have "dot_grows r (r\<lparr>dr_hangover := t\<rparr>)" for t
    using r by (auto simp: dot_grows_def dot_ok_def host_set_def dot_pool_def split: option.splits)
  ultimately show "dot_grows r r'"
    using c dot_grows_refl [OF r] by (cases "xc_res x") (auto split: option.splits if_splits)
  show "dr_hangover r' = dr_hangover r \<or> dr_hangover r' = te_now2 env + dot_hangoverDuration"
    using c by (cases "xc_res x") (auto simp: dot_Confirm_def split: option.splits if_splits prod.splits)
qed

subsection \<open>The invariant holds\<close>

lemma dv_step_res:
  assumes "id_law cd" and "dovstep cd s s'" and "dv_inv cd s"
  shows "dot_grows (dv_res s) (dv_res s') \<and> dr_hangover (dv_res s') \<le> dv_now s' + dot_hangoverDuration
    \<and> dr_hangover (dv_res s) \<le> dr_hangover (dv_res s') \<and> dv_now s \<le> dv_now s'"
proof -
  have ok: "dot_ok (dv_res s)" "dr_hangover (dv_res s) \<le> dv_now s + dot_hangoverDuration"
    and q: "dqpc_ok cd (dv_res s) (dv_q s i)" for i
    using assms(3) by (simp_all add: dv_inv_def)
  note refl = dot_grows_refl [OF ok(1)]
  show ?thesis
    using assms(2)
  proof (cases rule: dovstep.cases)
    case (dv_dial i q q' same p m p')
    have "dial_ok (dv_res s) {} p" using q [of i] dv_dial(2) by simp
    from dialstep_ok [OF dv_dial(3) ok(1) this] show ?thesis using dv_dial(1) ok by simp
  next
    case (dv_finish i q q' same x env r' out)
    have "padded cd q q' same" "exchange_of q' x" using q [of i] dv_finish(2) by simp_all
    from finish_dot_ok [OF assms(1) this ok(1) dv_finish(4)] show ?thesis
      using dv_finish(1,3) ok by (auto simp: dot_hangoverDuration_def second_def)
  qed (use refl ok in auto)
qed

lemma dv_step_queries:
  assumes "id_law cd" and "dovstep cd s s'" and "dv_inv cd s"
  shows "dqpc_ok cd (dv_res s') (dv_q s' i)"
proof -
  have ok: "dot_ok (dv_res s)" and q: "dqpc_ok cd (dv_res s) (dv_q s j)" for j
    using assms(3) by (simp_all add: dv_inv_def)
  have grow: "dot_grows (dv_res s) (dv_res s')" using dv_step_res [OF assms] by blast
  have old: "dqpc_ok cd (dv_res s') (dv_q s j)" for j by (rule dqpc_ok_grows [OF q grow])
  show ?thesis
    using assms(2)
  proof (cases rule: dovstep.cases)
    case (dv_check j q)
    then show ?thesis using old start_dot_ok [OF assms(1) ok] by simp
  next
    case (dv_dial j q q' same p m p')
    have "dial_ok (dv_res s) {} p" "padded cd q q' same" using q [of j] dv_dial(2) by simp_all
    then show ?thesis using dv_dial(1) old dialstep_ok [OF dv_dial(3) ok] by simp
  next
    case (dv_dialled j q q' same conn err ts)
    then show ?thesis using old dialled_dot_ok [OF q [of j, unfolded dv_dialled(2)]] by simp
  next
    case (dv_exchange j q q' same plain env)
    then show ?thesis using old q [of j] by (auto simp: exchange_of_def)
  next
    case (dv_finish j q q' same x env r' out)
    have "padded cd q q' same" "exchange_of q' x" using q [of j] dv_finish(2) by simp_all
    from finish_dot_ok(1) [OF assms(1) this ok dv_finish(4)] show ?thesis using dv_finish(1) old by simp
  qed (use old in auto)
qed

lemma dv_inv_step: "id_law cd \<Longrightarrow> dovstep cd s s' \<Longrightarrow> dv_inv cd s \<Longrightarrow> dv_inv cd s'"
  using dv_step_res dv_step_queries by (auto simp: dv_inv_def [of cd s'] dot_grows_def)

text \<open>Queries that the hangover catches.\<close>

definition dot_turned_away :: "dqpc \<Rightarrow> bool" where
  "dot_turned_away p \<longleftrightarrow> (case p of DNone \<Rightarrow> True | DCalled q \<Rightarrow> True | DReturned q out \<Rightarrow> to_exchange out = None | _ \<Rightarrow> False)"

lemma dot_turned_away_step:
  assumes "dovstep cd s s'" and "dv_now s < dr_hangover (dv_res s)" and "dot_turned_away (dv_q s i)"
  shows "dot_turned_away (dv_q s' i)"
  using assms(1)
proof (cases rule: dovstep.cases)
  case (dv_check j q)
  then show ?thesis using assms(2,3) by (auto simp: dot_turned_away_def start_dot_def dot_fail_def)
qed (use assms(3) in \<open>auto simp: dot_turned_away_def\<close>)

interpretation dot_gate: hangover_gate "dovstep cd" "\<lambda>s. id_law cd \<and> dv_inv cd s" dv_now "\<lambda>s. dr_hangover (dv_res s)"
  "\<lambda>s i. dot_turned_away (dv_q s i)" for cd :: "'x codec"
  by unfold_locales (use dv_inv_step dv_step_res dot_turned_away_step in blast)+

lemma dv_start_inv: "dot_ok r \<Longrightarrow> dr_hangover r \<le> now + dot_hangoverDuration \<Longrightarrow> dv_inv cd (dv_start r now)"
  by (simp add: dv_inv_def dv_start_def)

lemma dovreach_inv: "id_law cd \<Longrightarrow> dot_ok r \<Longrightarrow> dovreach cd r s \<Longrightarrow> dv_inv cd s"
  unfolding dovreach_def using dv_start_inv dot_gate.run_inv by blast

subsection \<open>The sequential query is a run\<close>

abbreviation "dial_run domain port \<equiv> (\<lambda>(m, p) (m', p'). dialstep domain port m p m' p')\<^sup>*\<^sup>*"

lemma dial_run_step:
  "dial_run domain port x (m, p) \<Longrightarrow> dialstep domain port m p m' p' \<Longrightarrow> dial_run domain port x (m', p')"
  by (rule rtranclp.rtrancl_into_rtrancl) auto

text \<open>The loop, and \<open>dialPlainTCP\<close>, on a map that no other query uses meanwhile.\<close>

lemma try_all_run:
  "try_all ne port c err xs = (ts', conn, e) \<Longrightarrow>
     dial_run domain port (m, DialNext c err ts xs) (m, DialEnd conn e (ts @ ts'))"
proof (induction xs arbitrary: err ts ts')
  case Nil
  then show ?case using dial_run_step [OF rtranclp.rtrancl_refl d_none] by auto
next
  case (Cons x xs)
  show ?case
  proof (cases "ip_Equal x c")
    case True
    have "dial_run domain port (m, DialNext c err ts (x # xs)) (m, DialNext c err ts xs)"
      by (rule dial_run_step [OF rtranclp.rtrancl_refl d_skip [OF True]])
    then show ?thesis using Cons.IH [of err ts' ts] Cons.prems True by (auto intro: rtranclp_trans)
  next
    case False
    show ?thesis
    proof (cases "split_dial ne port x")
      case (Inl e1)
      obtain ts1 where t: "try_all ne port c (Some e1) xs = (ts1, conn, e)" "ts' = x # ts1"
        using Cons.prems False Inl by (auto split: prod.splits)
      have "dial_run domain port (m, DialNext c err ts (x # xs)) (m, DialNext c (Some e1) (ts @ [x]) xs)"
        by (rule dial_run_step [OF rtranclp.rtrancl_refl d_next_failed [OF False Inl]])
      then show ?thesis using Cons.IH [OF t(1), of "ts @ [x]"] t(2) by (auto intro: rtranclp_trans)
    next
      case (Inr conn1)
      then show ?thesis
        using Cons.prems False dial_run_step [OF rtranclp.rtrancl_refl d_next [OF False Inr]] by auto
    qed
  qed
qed

lemma dialPlainTCP_run:
  assumes "dialPlainTCP ne domain port m = (m', ts, conn, err)"
  shows "dial_run domain port (m, DialGet) (m', DialEnd conn err ts)"
proof -
  obtain m1 a where g: "Get (ne_lookup ne) domain m = (m1, a)" by (metis surj_pair)
  let ?c = "Confirmed (at_set a m1)"
  note get = dial_run_step [OF rtranclp.rtrancl_refl d_get [OF g]]
  have loop: "dial_run domain port (m2, DialAll a c e us) (m2, DialEnd conn err (us @ vs))"
    if "try_all ne port c e (GetAll (ne_draw ne) (at_set a m2)) = (vs, conn, err)" for m2 c e us vs
    using converse_rtranclp_into_rtranclp [of _ "(m2, DialAll a c e us)", OF _ try_all_run [OF that]] d_all by auto
  show ?thesis
  proof (cases "?c = []")
    case True
    then show ?thesis
      using assms g get loop [of "[]" None m1 ts "[]"]
      by (auto simp: dialPlainTCP_def dial_ips_def dial_start_def Let_def intro: rtranclp_trans)
  next
    case False
    show ?thesis
    proof (cases "split_dial ne port ?c")
      case (Inl e)
      let ?m2 = "upd_set a (Disconfirm ?c) m1"
      obtain vs where t: "try_all ne port ?c (Some e) (GetAll (ne_draw ne) (at_set a ?m2)) = (vs, conn, err)"
          "ts = ?c # vs" "m' = ?m2"
        using assms g False Inl by (auto simp: dialPlainTCP_def dial_ips_def Let_def split: prod.splits)
      have "dial_run domain port (m, DialGet) (?m2, DialAll a ?c (Some e) [?c])"
        using dial_run_step [OF dial_run_step [OF get [unfolded dial_start_def if_P [OF False]] d_failed [OF Inl]] d_disconfirm] .
      then show ?thesis using loop [OF t(1), of "[?c]"] t(2,3) by (auto intro: rtranclp_trans)
    next
      case (Inr conn1)
      then show ?thesis
        using assms g False dial_run_step [OF get [unfolded dial_start_def if_P [OF False]] d_confirmed [OF Inr]]
        by (auto simp: dialPlainTCP_def dial_ips_def Let_def)
    qed
  qed
qed

text \<open>Lifted to the query that dials.\<close>

abbreviation "at_dial s i q q' same m p \<equiv> s\<lparr>dv_res := (dv_res s)\<lparr>dr_ips := m\<rparr>, dv_q := (dv_q s)(i := DDial q q' same p)\<rparr>"

lemma dial_lift:
  assumes "dial_run (dr_hostname (dv_res s)) (dr_port (dv_res s)) (m, p) (m', p')"
  shows "(dovstep cd)\<^sup>*\<^sup>* (at_dial s i q q' same m p) (at_dial s i q q' same m' p')"
  using assms
proof (induction "(m', p')" arbitrary: m' p' rule: rtranclp_induct)
  case (step y)
  obtain m1 p1 where y: "y = (m1, p1)" by (cases y)
  have "dovstep cd (at_dial s i q q' same m1 p1) (at_dial s i q q' same m' p')"
    using dv_dial [of "at_dial s i q q' same m1 p1" i q q' same p1 m' p' cd] step.hyps(2) y by simp
  then show ?case using step.hyps(3) [OF y] by (rule rtranclp.rtrancl_into_rtrancl [rotated])
qed simp

lemma finish_dot_eq:
  assumes "id_law cd" and "AddEdnsPadding cd q = Inr (q', same)"
  shows "finish_dot cd env q q' same x r = dot_finish cd env q' q (r, x)"
proof -
  have "12 \<le> length q'" using AddEdnsPadding_id [OF assms] by simp
  then have "put16 0 (be16 q') (put16 0 0 q') = q'" by (simp add: put16_be16_id)
  moreover have "(if same then q' else q) = q" using AddEdnsPadding_same [of cd q q'] assms(2) by auto
  ultimately show ?thesis by (simp add: finish_dot_def Let_def)
qed

text \<open>From the check to the end of the exchange: the dial, then the exchange on the connection.\<close>

lemma exchange_run:
  assumes "io_writer (te_write env) (\<lambda>w. w)" and "12 \<le> length q'"
    and q: "2 \<le> length q" "\<not> te_now1 env < dr_hangover r" "AddEdnsPadding cd q = Inr (q', same)"
    and x: "exchange_dot env (put16 0 0 q') r = Some (r\<lparr>dr_ips := m\<rparr>, x)"
    and s: "dv_res s = r" "dv_now s = te_now1 env" "dv_q s i = DCalled q"
  shows "(dovstep cd)\<^sup>*\<^sup>* s (s\<lparr>dv_res := r\<lparr>dr_ips := m\<rparr>, dv_q := (dv_q s)(i := DDone q q' same x)\<rparr>)"
proof -
  obtain m1 ts conn err where d: "dialPlainTCP (te_net env) (dr_hostname r) (dr_port r) (dr_ips r) = (m1, ts, conn, err)"
    by (metis prod_cases4)
  have m1: "r\<lparr>dr_ips := m1\<rparr> = r\<lparr>dr_ips := m\<rparr>"
    using x d by (auto simp: exchange_dot_def Let_def split: option.splits)
  let ?done = "s\<lparr>dv_res := r\<lparr>dr_ips := m\<rparr>, dv_q := (dv_q s)(i := DDone q q' same x)\<rparr>"
  have "start_dot cd (te_now1 env) r q = DDial q q' same DialGet" using q assms(2) by (simp add: start_dot_def)
  then have "dovstep cd s (s\<lparr>dv_q := (dv_q s)(i := DDial q q' same DialGet)\<rparr>)" using dv_check [OF s(3), of cd] s by simp
  moreover have "at_dial s i q q' same (dr_ips r) DialGet = s\<lparr>dv_q := (dv_q s)(i := DDial q q' same DialGet)\<rparr>"
    using s(1) by simp
  ultimately have 1: "dovstep cd s (at_dial s i q q' same (dr_ips r) DialGet)" by (simp only:)
  have 2: "(dovstep cd)\<^sup>*\<^sup>* (at_dial s i q q' same (dr_ips r) DialGet) (at_dial s i q q' same m1 (DialEnd conn err ts))"
    by (rule dial_lift) (use dialPlainTCP_run [OF d] s(1) in simp)
  let ?s3 = "s\<lparr>dv_res := r\<lparr>dr_ips := m\<rparr>, dv_q := (dv_q s)(i := dialled_dot q q' same conn err)\<rparr>"
  have 3: "dovstep cd (at_dial s i q q' same m1 (DialEnd conn err ts)) ?s3"
    using dv_dialled [of "at_dial s i q q' same m1 (DialEnd conn err ts)" i q q' same conn err ts cd] s(1) m1 by simp
  have 4: "(dovstep cd)\<^sup>*\<^sup>* ?s3 ?done"
  proof (cases err)
    case (Some e)
    then show ?thesis using x d by (auto simp: exchange_dot_def dialled_dot_def Let_def)
  next
    case None
    then obtain plain where c: "conn = Some plain" "x = tls_exchange env (put16 0 0 q') plain"
      using x d by (auto simp: exchange_dot_def Let_def split: option.splits)
    then show ?thesis
      using dv_exchange [of ?s3 i q q' same plain env cd] assms(1) None by (auto simp: dialled_dot_def)
  qed
  note run = rtranclp.rtrancl_into_rtrancl [of "dovstep cd"]
  show ?thesis by (rule rtranclp_trans [OF run [OF converse_rtranclp_into_rtranclp [of "dovstep cd", OF 1 2] 3] 4])
qed

text \<open>
  \<open>doQuery\<close>, from the time of its hangover check to the time of its end, on a resolver that no other query uses
  meanwhile, is a run of these steps with the same result and the same effect.
\<close>

lemma dot_doQuery_run:
  assumes "id_law cd" and "tls_env_ok env" and "dot_ok r" and "te_now1 env \<le> te_now2 env"
    and "dot_doQuery cd env q r = Some (r', out)"
    and s: "dv_res s = r" "dv_now s = te_now1 env" "dv_q s i = DCalled q"
  shows "\<exists>t. dv_now s \<le> t \<and> t \<le> te_now2 env
    \<and> (dovstep cd)\<^sup>*\<^sup>* s (s\<lparr>dv_now := t, dv_res := r', dv_q := (dv_q s)(i := DReturned q out)\<rparr>)"
proof (cases "\<exists>q' same. 2 \<le> length q \<and> \<not> te_now1 env < dr_hangover r \<and> AddEdnsPadding cd q = Inr (q', same)")
  case False
  then have "r' = r \<and> start_dot cd (te_now1 env) r q = DReturned q out"
    using assms(5) by (auto simp: dot_doQuery_def start_dot_def split: sum.splits if_splits)
  moreover have "dovstep cd s (s\<lparr>dv_q := (dv_q s)(i := start_dot cd (te_now1 env) r q)\<rparr>)"
    using dv_check [OF s(3), of cd] s by simp
  moreover have "s\<lparr>dv_now := dv_now s, dv_res := r, dv_q := f\<rparr> = s\<lparr>dv_q := f\<rparr>" for f using s(1) by simp
  ultimately show ?thesis using assms(4) s(2) by (intro exI [of _ "dv_now s"]) auto
next
  case True
  then obtain q' same where q: "2 \<le> length q" "\<not> te_now1 env < dr_hangover r" "AddEdnsPadding cd q = Inr (q', same)" by blast
  from dot_doQuery_sent [OF assms(1,3,2) q] assms(5)
  obtain m x where x: "exchange_dot env (put16 0 0 q') r = Some (r\<lparr>dr_ips := m\<rparr>, x)"
      "dot_finish cd env q' q (r\<lparr>dr_ips := m\<rparr>, x) = (r', out)" "12 \<le> length q'" by (metis option.inject prod.inject)
  let ?done = "s\<lparr>dv_res := r\<lparr>dr_ips := m\<rparr>, dv_q := (dv_q s)(i := DDone q q' same x)\<rparr>"
  have io: "io_writer (te_write env) (\<lambda>w. w)" using assms(2) by (simp add: tls_env_ok_def)
  note exch = exchange_run [OF io x(3) q x(1) s]
  let ?late = "?done\<lparr>dv_now := te_now2 env\<rparr>"
  have 5: "dovstep cd ?done ?late" using dv_tick [of ?done "te_now2 env" cd] assms(4) s(2) by simp
  have 6: "dovstep cd ?late (?late\<lparr>dv_res := r', dv_q := (dv_q ?late)(i := DReturned q out)\<rparr>)"
    by (rule dv_finish [of ?late i q q' same x env]) (use x(2) finish_dot_eq [OF assms(1) q(3)] in simp_all)
  note run = rtranclp.rtrancl_into_rtrancl [of "dovstep cd"]
  have "(dovstep cd)\<^sup>*\<^sup>* s (?late\<lparr>dv_res := r', dv_q := (dv_q ?late)(i := DReturned q out)\<rparr>)"
    by (rule run [OF run [OF exch 5] 6])
  then show ?thesis using assms(4) s(2) by (intro exI [of _ "te_now2 env"]) simp
qed

subsection \<open>Properties\<close>

text \<open>
  C8. However the queries of a DoT resolver overlap, no method of a nil connection is called and no slice indexed out of
  range, and each query that returns has a result of its own: the caller's slice as it was, the ID of its query on every
  response, its connection closed; a success is the message that the server sent, over that connection, for the one frame
  with this query's padded form and a zero ID, with the ID put back.
\<close>

theorem dot_overlap_results:
  assumes "id_law cd" and "dot_ok r" and "dovreach cd r s"
  shows "dv_q s i \<noteq> DPanic
    \<and> (\<forall>q out. dv_q s i = DReturned q out \<longrightarrow> to_q out = q
        \<and> (\<forall>b. to_response out = Some b \<longrightarrow> 2 \<le> length b \<and> be16 b = be16 q)
        \<and> (\<forall>x. to_exchange out = Some x \<longrightarrow> xc_opened x \<longrightarrow> xc_closed x)
        \<and> (to_qerr out = None \<longrightarrow> (\<exists>x q' same b te plain. to_exchange out = Some x \<and> AddEdnsPadding cd q = Inr (q', same)
             \<and> x = tls_exchange te (put16 0 0 q') plain \<and> xc_sent x = frame (put16 0 0 q') \<and> dnsOverTCPRead (te_answer te (xc_sent x)) = Inr b \<and> be16 b = 0
             \<and> to_response out = Some (put16 0 (be16 q) b))))"
proof -
  have ok: "dqpc_ok cd (dv_res s) (dv_q s i)" using dovreach_inv [OF assms] by (simp add: dv_inv_def)
  have "dot_answer cd q out" if "dv_q s i = DReturned q out" for q out using ok that by simp
  moreover have "\<exists>x q' same b te plain. to_exchange out = Some x \<and> AddEdnsPadding cd q = Inr (q', same)
      \<and> x = tls_exchange te (put16 0 0 q') plain \<and> xc_sent x = frame (put16 0 0 q') \<and> dnsOverTCPRead (te_answer te (xc_sent x)) = Inr b \<and> be16 b = 0
      \<and> to_response out = Some (put16 0 (be16 q) b)" if ans: "dot_answer cd q out" and none: "to_qerr out = None" for q out
  proof -
    obtain x b where x: "to_exchange out = Some x" "xc_res x = Inr b" "be16 b = 0" "to_response out = Some (put16 0 (be16 q) b)"
      using ans none unfolding dot_answer_def by blast
    then obtain q' same where q: "padded cd q q' same" "exchange_of q' x" using ans by (auto simp: dot_answer_def)
    have "x \<noteq> no_exchange\<lparr>xc_res := Inl (SendFailed, e)\<rparr>" for e using x(2) by (auto simp: no_exchange_def)
    then obtain te plain where te: "io_writer (te_write te) (\<lambda>w. w)" "x = tls_exchange te (put16 0 0 q') plain"
      using q(2) by (auto simp: exchange_of_def)
    then show ?thesis
      using x q(1) tls_exchange_ok [OF te(1), of "put16 0 0 q'" plain]
      by (intro exI [of _ x] exI [of _ q'] exI [of _ same] exI [of _ b] exI [of _ te] exI [of _ plain]) (auto simp: padded_def)
  qed
  moreover have "xc_opened x \<longrightarrow> xc_closed x" if "dot_answer cd q out" "to_exchange out = Some x" for q out x
    using that exchange_of_ok(1) by (auto simp: dot_answer_def)
  ultimately show ?thesis using ok by (auto simp: dot_answer_def)
qed

text \<open>What a query that had not begun to dial knows of the addresses \<open>known\<close> when it dials.\<close>

definition will_try :: "ip set \<Rightarrow> dot_resolver \<Rightarrow> dqpc \<Rightarrow> bool" where
  "will_try known r p = (case p of DNone \<Rightarrow> known \<subseteq> dot_pool r | DCalled q \<Rightarrow> known \<subseteq> dot_pool r
     | DDial q q' same d \<Rightarrow> dial_ok r known d | _ \<Rightarrow> True)"

lemma will_try_step:
  assumes "id_law cd" and "dovstep cd s s'" and "dv_inv cd s" and "will_try known (dv_res s) (dv_q s i)"
  shows "will_try known (dv_res s') (dv_q s' i)"
proof -
  have grow: "dot_grows (dv_res s) (dv_res s')" using dv_step_res [OF assms(1-3)] by blast
  have old: "will_try known (dv_res s') (dv_q s i)"
    using assms(4) grow dial_ok_grows [OF _ grow] by (auto simp: will_try_def dot_grows_def split: dqpc.splits)
  have ok: "dot_ok (dv_res s)" using assms(3) by (simp add: dv_inv_def)
  show ?thesis
    using assms(2)
  proof (cases rule: dovstep.cases)
    case (dv_call j q)
    then show ?thesis using old by (cases "i = j") (simp_all add: will_try_def)
  next
    case (dv_check j q)
    then show ?thesis using old by (auto simp: will_try_def start_dot_def split: sum.splits)
  next
    case (dv_dial j q q' same p m p')
    then show ?thesis using old assms(4) dialstep_ok [OF dv_dial(3) ok, of known] by (auto simp: will_try_def)
  next
    case (dv_dialled j q q' same conn err ts)
    then show ?thesis using old by (auto simp: will_try_def dialled_dot_def split: option.splits)
  qed (use old in \<open>auto simp: will_try_def\<close>)
qed

lemma will_try_run:
  "(dovstep cd)\<^sup>*\<^sup>* s s' \<Longrightarrow> id_law cd \<Longrightarrow> dv_inv cd s \<Longrightarrow> will_try known (dv_res s) (dv_q s i) \<Longrightarrow>
     will_try known (dv_res s') (dv_q s' i)"
proof (induction rule: rtranclp_induct)
  case (step t u)
  have "dv_inv cd t" using dot_gate.run_inv [OF step.hyps(1)] step.prems(1,2) by blast
  then show ?case using will_try_step [OF step.prems(1) step.hyps(2)] step.IH step.prems by blast
qed

text \<open>
  C31. Dialling holds against every interleaving: whatever other queries do to the address set meanwhile, a query dials no
  address twice, in either form; it gives up only with an error and after every address that was known before it began
  has been tried; and a connection is to the address tried last.
\<close>

theorem dot_overlap_dials:
  assumes "id_law cd" and "dot_ok r" and "dovreach cd r s" and "(dovstep cd)\<^sup>*\<^sup>* s s'"
    and "dv_q s i = DNone" and "dv_q s' i = DDial q q' same (DialEnd conn err ts)"
  shows "distinct (map ip_norm ts)
    \<and> (conn = None \<longrightarrow> err \<noteq> None \<and> dot_pool (dv_res s) \<subseteq> ip_norm ` set ts)
    \<and> (\<forall>plain. conn = Some plain \<longrightarrow> err = None \<and> ts \<noteq> [] \<and> ta_ip (rt_addr plain) = last ts)"
proof -
  have "will_try (dot_pool (dv_res s)) (dv_res s) (dv_q s i)" using assms(5) by (simp add: will_try_def)
  from will_try_run [OF assms(4,1) dovreach_inv [OF assms(1-3)] this]
  have "dial_ok (dv_res s') (dot_pool (dv_res s)) (DialEnd conn err ts)" using assms(6) by (simp add: will_try_def)
  then show ?thesis by (cases conn) auto
qed

text \<open>
  The hangover of the DoT resolver holds against every interleaving too: no query that had not looked at it before it was
  set makes a connection before it is over, and its end never moves back.
\<close>

theorem dot_overlap_hangover:
  assumes "id_law cd" and "dot_ok r" and "dovreach cd r s" and "(dovstep cd)\<^sup>*\<^sup>* s s'"
    and "dv_now s' < dr_hangover (dv_res s)" and "dv_q s i = DNone \<or> dv_q s i = DCalled q"
  shows "(dv_q s' i = DNone \<or> (\<exists>p. dv_q s' i = DCalled p) \<or> (\<exists>p out. dv_q s' i = DReturned p out \<and> to_exchange out = None))
    \<and> dr_hangover (dv_res s) \<le> dr_hangover (dv_res s')"
proof -
  have "dot_turned_away (dv_q s i)" using assms(6) by (auto simp: dot_turned_away_def)
  moreover have inv: "id_law cd \<and> dv_inv cd s" using assms(1) dovreach_inv [OF assms(1-3)] by simp
  ultimately have "dot_turned_away (dv_q s' i)" using dot_gate.held [OF assms(4) _ assms(5)] by blast
  then show ?thesis
    using dot_gate.run_moves_on [OF assms(4) inv] by (auto simp: dot_turned_away_def split: dqpc.splits)
qed

subsection \<open>The results of its queries\<close>

text \<open>What \<open>Query\<close> can return for \<open>q\<close>, in any history of overlapping queries of the resolver.\<close>

definition dot_answers :: "'x codec \<times> dot_resolver \<Rightarrow> answer_rel" where
  "dot_answers p q resp e \<longleftrightarrow> (case p of (cd, r) \<Rightarrow> \<exists>s i out. dovreach cd r s \<and> dv_q s i = DReturned q out
     \<and> resp = to_response out \<and> e = map_option (\<lambda>(st, e). EQuery st e) (to_qerr out))"

definition dot_usable :: "'x codec \<times> dot_resolver \<Rightarrow> bool" where
  "dot_usable p \<longleftrightarrow> (case p of (cd, r) \<Rightarrow> id_law cd \<and> dot_ok r)"

lemma dot_answersE:
  assumes "dot_usable p" and "dot_answers p q resp e"
  obtains out where "dot_answer (fst p) q out" "resp = to_response out" "e = map_option (\<lambda>(st, e). EQuery st e) (to_qerr out)"
proof -
  obtain cd r where p: "p = (cd, r)" by (cases p)
  obtain s i out where s: "dovreach cd r s" "dv_q s i = DReturned q out" "resp = to_response out"
      "e = map_option (\<lambda>(st, e). EQuery st e) (to_qerr out)"
    using assms(2) p by (auto simp: dot_answers_def)
  have "dqpc_ok cd (dv_res s) (dv_q s i)" using dovreach_inv [OF _ _ s(1)] assms(1) p by (simp add: dot_usable_def dv_inv_def)
  then show ?thesis using that s p by simp
qed

text \<open>The result of a sequential query is the result of one in a reachable state.\<close>

lemma sequential_result:
  assumes "id_law cd" and "tls_env_ok env" and "dot_ok r" and "te_now1 env \<le> te_now2 env"
    and "dot_doQuery cd env q r = Some (r', out)" and "dr_hangover r \<le> te_now1 env + dot_hangoverDuration"
  shows "\<exists>s. dovreach cd r s \<and> dv_q s 0 = DReturned q out"
proof -
  let ?s0 = "dv_start r (te_now1 env)"
  let ?s1 = "?s0\<lparr>dv_q := (dv_q ?s0)(0 := DCalled q)\<rparr>"
  have 1: "dovstep cd ?s0 ?s1" by (rule dv_call) (simp add: dv_start_def)
  obtain t where 2: "(dovstep cd)\<^sup>*\<^sup>* ?s1 (?s1\<lparr>dv_now := t, dv_res := r', dv_q := (dv_q ?s1)(0 := DReturned q out)\<rparr>)"
    using dot_doQuery_run [OF assms(1-5), of ?s1 0] by (auto simp: dv_start_def)
  have "dovreach cd r (?s1\<lparr>dv_now := t, dv_res := r', dv_q := (dv_q ?s1)(0 := DReturned q out)\<rparr>)"
    unfolding dovreach_def
    using converse_rtranclp_into_rtranclp [of "dovstep cd", OF 1 2] assms(6) by blast
  then show ?thesis by (intro exI conjI) auto
qed

interpretation dot_pending: answers_come dot_usable dot_answers
proof unfold_locales
  fix p :: "'x codec \<times> dot_resolver" and q resp e b
  assume p: "dot_usable p"
  show "\<exists>b. resp = Some b" if "dot_answers p q resp None"
    using dot_answersE [OF p that] by (fastforce simp: dot_answer_def)
  show "2 \<le> length b \<and> 2 \<le> length q \<and> be16 b = be16 q" if "dot_answers p q (Some b) e"
    using dot_answersE [OF p that] by (fastforce simp: dot_answer_def)
  obtain cd r where cr: "p = (cd, r)" by (cases p)
  let ?env = "(sample_tls [])\<lparr>te_now1 := dr_hangover r, te_now2 := dr_hangover r\<rparr>"
  have ok: "id_law cd" "dot_ok r" using p cr by (simp_all add: dot_usable_def)
  have env: "tls_env_ok ?env" using sample_tls_ok [of "[]"] by (simp add: tls_env_ok_def)
  obtain r' out where "dot_doQuery cd ?env q r = Some (r', out)"
    using dot_doQuery_spec [OF ok env, of q] by blast
  from sequential_result [OF ok(1) env ok(2) _ this] obtain s where "dovreach cd r s" "dv_q s 0 = DReturned q out"
    by (auto simp: dot_hangoverDuration_def second_def)
  then show "\<exists>resp e. dot_answers p q resp e" unfolding cr dot_answers_def prod.case by blast
qed

subsection \<open>Witnesses\<close>

text \<open>A query that is called on the sample resolver with nothing else under way.\<close>

definition sample_called :: dot_overlap where
  "sample_called = (dv_start sample_dot 100)\<lparr>dv_q := (\<lambda>i. DNone)(0 := DCalled sample_query)\<rparr>"

lemma sample_start: "dovreach cd sample_dot (dv_start sample_dot 100)"
  unfolding dovreach_def
  by (rule exI [of _ 100]) (simp add: sample_dot_def dot_hangoverDuration_def second_def)

lemma sample_call: "dovstep cd (dv_start sample_dot 100) sample_called"
  using dv_call [of "dv_start sample_dot 100" 0 cd sample_query] by (simp add: sample_called_def dv_start_def)

lemma dovreach_run: "dovreach cd r s \<Longrightarrow> (dovstep cd)\<^sup>*\<^sup>* s s' \<Longrightarrow> dovreach cd r s'"
  unfolding dovreach_def by (meson rtranclp_trans)

theorem dot_overlap_results_witness:
  "\<exists>s out b. dovreach sample_codec sample_dot s \<and> dv_q s 0 = DReturned sample_query out
    \<and> to_response out = Some (put16 0 (be16 sample_query) b)"
proof -
  let ?env = "sample_tls [([0], None), ([4, 0, 0], None), ([1, 2], None)]"
  obtain r' out where run: "dot_doQuery sample_codec ?env sample_query sample_dot = Some (r', out)" "to_qerr out = None"
    using sample_dot_run [OF sample_answer_read] by (auto simp: be16_def)
  have t: "te_now1 ?env \<le> te_now2 ?env" "dr_hangover sample_dot \<le> te_now1 ?env + dot_hangoverDuration"
    by (simp_all add: sample_tls_def sample_dot_def dot_hangoverDuration_def second_def)
  obtain s where s: "dovreach sample_codec sample_dot s" "dv_q s 0 = DReturned sample_query out"
    using sequential_result [OF sample_id_law sample_tls_ok sample_dot_ok t(1) run(1) t(2)] by blast
  from dot_overlap_results [OF sample_id_law sample_dot_ok s(1), of 0] s run(2) show ?thesis by blast
qed

theorem dot_overlap_dials_witness:
  "\<exists>(s' :: dot_overlap) q' same conn err ts. dv_q s' 0 = DDial sample_query q' same (DialEnd conn err ts)
    \<and> distinct (map ip_norm ts) \<and> (conn = None \<longrightarrow> dot_pool sample_dot \<subseteq> ip_norm ` set ts)"
proof -
  let ?r = "dv_res sample_called"
  have r: "?r = sample_dot" "dv_q sample_called 0 = DCalled sample_query" "dv_now sample_called = 100"
    by (simp_all add: sample_called_def dv_start_def)
  have q: "2 \<le> length sample_query" "\<not> 100 < dr_hangover sample_dot" "\<not> length sample_padded_query < 2"
    by (simp_all add: sample_query_def sample_dot_def length_sample_padded_query)
  obtain same where pad: "AddEdnsPadding sample_codec sample_query = Inr (sample_padded_query, same)"
    using sample_padded by blast
  let ?at = "at_dial sample_called 0 sample_query sample_padded_query same"
  obtain m ts conn err where d: "dialPlainTCP sample_host (dr_hostname ?r) (dr_port ?r) (dr_ips ?r) = (m, ts, conn, err)"
    by (metis prod_cases4)
  have "start_dot sample_codec 100 sample_dot sample_query = DDial sample_query sample_padded_query same DialGet"
    using q pad by (simp add: start_dot_def)
  then have "dovstep sample_codec sample_called (sample_called\<lparr>dv_q := (dv_q sample_called)(0 :=
      DDial sample_query sample_padded_query same DialGet)\<rparr>)"
    using dv_check [OF r(2), of sample_codec] r by simp
  moreover have "?at (dr_ips ?r) DialGet = sample_called\<lparr>dv_q := (dv_q sample_called)(0 :=
      DDial sample_query sample_padded_query same DialGet)\<rparr>" by simp
  ultimately have 2: "dovstep sample_codec sample_called (?at (dr_ips ?r) DialGet)" by (simp only:)
  have 3: "(dovstep sample_codec)\<^sup>*\<^sup>* (?at (dr_ips ?r) DialGet) (?at m (DialEnd conn err ts))"
    by (rule dial_lift [OF dialPlainTCP_run [OF d]])
  have run: "(dovstep sample_codec)\<^sup>*\<^sup>* (dv_start sample_dot 100) (?at m (DialEnd conn err ts))"
    by (rule converse_rtranclp_into_rtranclp [of "dovstep sample_codec", OF sample_call
          converse_rtranclp_into_rtranclp [of "dovstep sample_codec", OF 2 3]])
  have "dv_q (dv_start sample_dot 100) 0 = DNone" "dv_res (dv_start sample_dot 100) = sample_dot" by (simp_all add: dv_start_def)
  with dot_overlap_dials [OF sample_id_law sample_dot_ok sample_start run, of 0] show ?thesis
    by (intro exI [of _ "?at m (DialEnd conn err ts)"] exI [of _ sample_padded_query]) simp
qed

theorem dot_overlap_hangover_witness:
  "\<exists>(s' :: dot_overlap) out. dv_q s' 0 = DReturned sample_query out \<and> to_exchange out = None
    \<and> 1000000000 \<le> dr_hangover (dv_res s')"
proof -
  let ?r = "sample_dot\<lparr>dr_hangover := 1000000000\<rparr>"
  let ?s0 = "dv_start ?r 100"
  let ?s1 = "?s0\<lparr>dv_q := (dv_q ?s0)(0 := DCalled sample_query)\<rparr>"
  let ?s2 = "?s1\<lparr>dv_q := (dv_q ?s1)(0 := start_dot sample_codec (dv_now ?s1) (dv_res ?s1) sample_query)\<rparr>"
  have 1: "dovstep sample_codec ?s0 ?s1" by (rule dv_call) (simp add: dv_start_def)
  have 2: "dovstep sample_codec ?s1 ?s2" by (rule dv_check) simp
  have ok: "dot_ok ?r" using sample_dot_ok by (simp add: dot_ok_def)
  have reach: "dovreach sample_codec ?r ?s0"
    unfolding dovreach_def by (rule exI [of _ 100]) (simp add: dot_hangoverDuration_def second_def)
  have r: "dv_q ?s2 0 = DReturned sample_query (dot_fail (dohTryServfail sample_codec sample_query) HTTPError
      (EMsg ''forwarder is in servfail hangover'') sample_query)"
    by (simp add: start_dot_def dv_start_def sample_query_def)
  have run: "(dovstep sample_codec)\<^sup>*\<^sup>* ?s0 ?s2"
    by (rule converse_rtranclp_into_rtranclp [of "dovstep sample_codec", OF 1 r_into_rtranclp [of "dovstep sample_codec", OF 2]])
  define u where "u = ?s2"
  have late: "dv_now u < dr_hangover (dv_res ?s0)" by (simp add: u_def dv_start_def)
  have "dv_q ?s0 0 = DNone" by (simp add: dv_start_def)
  from dot_overlap_hangover [OF sample_id_law ok reach run [folded u_def] late disjI1 [OF this]] r [folded u_def]
  obtain p out where "dv_q u 0 = DReturned p out" "to_exchange out = None" "dr_hangover (dv_res ?s0) \<le> dr_hangover (dv_res u)"
    by auto
  then show ?thesis using r [folded u_def] by (intro exI [of _ u] exI [of _ out]) (auto simp: dv_start_def)
qed

end
