(* ===== verification/Transport.thy ===== *)
theory Transport
  imports Resolver RetrierRuns Protect
begin

section \<open>Flows of the netstack (transport, transport/stack, features/stats)\<close>

text \<open>
  What becomes of a TCP or UDP flow that the netstack intercepts: the address conversions, the outbound
  dialer, the counting wrapper around a TCP connection with its one report to the listener, the DNS pipe,
  and the UDP relay. gVisor's endpoints are arguments (what they deliver and accept). The life of a
  wrapped connection under concurrent calls is a step relation.
\<close>

subsection \<open>Addresses (addr.go, stack_addr.go, stack/addrs.go)\<close>

datatype netip_addr = ZeroAddr | Addr4 bytes | Addr16 bytes

record addr_port =
  ap_Addr :: netip_addr
  ap_Port :: u16

definition Unmap :: "netip_addr \<Rightarrow> netip_addr" where
  "Unmap a = (case a of Addr16 b \<Rightarrow> if take 12 b = v4InV6Prefix then Addr4 (drop 12 b) else a | _ \<Rightarrow> a)"

definition isEquivalentAddrPort :: "addr_port \<Rightarrow> addr_port \<Rightarrow> bool" where
  "isEquivalentAddrPort addr1 addr2 \<longleftrightarrow>
     Unmap (ap_Addr addr1) = Unmap (ap_Addr addr2) \<and> ap_Port addr1 = ap_Port addr2"

definition addrPortFromTCPUIP :: "bytes \<Rightarrow> u16 \<Rightarrow> addr_port option" where
  "addrPortFromTCPUIP b port =
     (if length b = 0 then None
      else if length b = 4 then Some \<lparr>ap_Addr = Addr4 b, ap_Port = port\<rparr>
      else if length b = 16 then Some \<lparr>ap_Addr = Addr16 b, ap_Port = port\<rparr>
      else None)"

definition valid_addr :: "netip_addr \<Rightarrow> bool" where
  "valid_addr a = (case a of ZeroAddr \<Rightarrow> True | Addr4 b \<Rightarrow> length b = 4 | Addr16 b \<Rightarrow> length b = 16)"

subsection \<open>Statistics (features/stats/listener.go, tcp.go)\<close>

record TCPSocketSummary =
  ts_DownloadBytes :: i64
  ts_UploadBytes :: i64
  ts_Duration :: i32
  ts_ServerPort :: i16
  ts_Synack :: i32
  ts_Retry :: "RetryStats option"

record UDPSocketSummary =
  us_UploadBytes :: i64
  us_DownloadBytes :: i64
  us_Duration :: i32

definition makeTCPSocketSummary :: "addr_port \<Rightarrow> TCPSocketSummary" where
  "makeTCPSocketSummary dest =
     (let port = (ap_Port dest :: i16);
          port' = (if sint port \<noteq> 0 \<and> sint port \<noteq> 80 \<and> sint port \<noteq> 443 then - 1 else port)
      in \<lparr>ts_DownloadBytes = 0, ts_UploadBytes = 0, ts_Duration = 0, ts_ServerPort = port', ts_Synack = 0,
          ts_Retry = None\<rparr>)"

text \<open>\<open>int32(d)\<close> of a duration, and \<open>int32(d.Milliseconds())\<close>, a division that rounds towards zero.\<close>

definition int32_of_duration :: "duration \<Rightarrow> i32" where "int32_of_duration d = of_int d"
definition int32_of_millis :: "duration \<Rightarrow> i32" where "int32_of_millis d = of_int (sgn d * (\<bar>d\<bar> div 1000000))"

subsection \<open>The outbound dialer (outbound.go)\<close>

text \<open>A resolver is a value of type \<open>'r\<close>, \<open>None\<close> when nil.\<close>

record 'r OutboundDialer =
  od_fakeDNSAddr :: addr_port
  od_dns :: 'r
  od_dialer :: dialer
  od_listener :: bool

definition NewOutboundDialer :: "addr_port \<Rightarrow> 'r option \<Rightarrow> Protector option \<Rightarrow> bool
    \<Rightarrow> goerr + 'r OutboundDialer" where
  "NewOutboundDialer fakeDNS dns protector listener =
     (case dns of
        None \<Rightarrow> Inl (EMsg ''dns is required'')
      | Some d \<Rightarrow> Inr \<lparr>od_fakeDNSAddr = fakeDNS, od_dns = d, od_dialer = MakeDialer protector,
          od_listener = listener\<rparr>)"

definition od_SetDNS :: "'r option \<Rightarrow> 'r OutboundDialer \<Rightarrow> 'r OutboundDialer \<times> goerr option" where
  "od_SetDNS dns od =
     (case dns of None \<Rightarrow> (od, Some (EMsg ''dns is required'')) | Some d \<Rightarrow> (od\<lparr>od_dns := d\<rparr>, None))"

datatype duplex = DSplit retrier | DPlain tcp_conn

text \<open>\<open>dial\<close>: the clock around the dial, its result; \<open>DPlain\<close> is a connection of \<open>DialContext\<close>.\<close>

definition od_dial :: "gotime \<Rightarrow> goerr + tcp_conn \<Rightarrow> gotime \<Rightarrow> addr_port \<Rightarrow> tcpaddr \<Rightarrow> TCPSocketSummary
    \<Rightarrow> TCPSocketSummary \<times> (goerr + duplex)" where
  "od_dial before res after dest tcp summary =
     (if ap_Port dest = 443 then
        let summary' = summary\<lparr>ts_Retry := Some no_stats\<rparr> in
        (case DialWithSplitRetry before res after tcp (Some no_stats) of
           Inl err \<Rightarrow> (summary', Inl err) | Inr conn \<Rightarrow> (summary', Inr (DSplit conn)))
      else (summary, case res of Inl err \<Rightarrow> Inl err | Inr conn \<Rightarrow> Inr (DPlain conn)))"

text \<open>
  \<open>tcpWrapConn\<close>: \<open>w_wg\<close> is the counter of its wait group, \<open>w_waiting\<close> the goroutine that waits on it,
  \<open>w_reports\<close> the summaries the listener got. \<open>w_pending\<close> counts the callers between a successful
  compare-and-swap and \<open>wg.Done()\<close>.
\<close>

record wrapped =
  w_conn :: duplex
  w_wg :: int
  w_pending :: nat
  w_rDone :: bool
  w_wDone :: bool
  w_waiting :: bool
  w_beginTime :: gotime
  w_stats :: TCPSocketSummary
  w_listener :: bool
  w_reports :: "TCPSocketSummary list"

definition makeTCPWrapConn :: "gotime \<Rightarrow> duplex \<Rightarrow> TCPSocketSummary \<Rightarrow> bool \<Rightarrow> wrapped" where
  "makeTCPWrapConn now c summary listener =
     \<lparr>w_conn = c, w_wg = 2, w_pending = 0, w_rDone = False, w_wDone = False, w_waiting = True, w_beginTime = now,
      w_stats = summary, w_listener = listener, w_reports = []\<rparr>"

datatype 'r dialled_conn = DNSPipe 'r | Wrapped wrapped

text \<open>\<open>DialTCP\<close>: the DNS address gets a pipe to \<open>doh.Accept\<close>, all others a wrapped connection.\<close>

definition DialTCP :: "'r OutboundDialer \<Rightarrow> gotime \<Rightarrow> goerr + tcp_conn \<Rightarrow> gotime \<Rightarrow> addr_port \<Rightarrow> tcpaddr
    \<Rightarrow> goerr + 'r dialled_conn" where
  "DialTCP od before res after dest tcp =
     (if isEquivalentAddrPort dest (od_fakeDNSAddr od) then Inr (DNSPipe (od_dns od))
      else let summary = makeTCPSocketSummary dest in
        (case od_dial before res after dest tcp summary of
           (summary', Inl err) \<Rightarrow> Inl (EWrap ''failed to dial to target'' err)
         | (summary', Inr conn) \<Rightarrow> Inr (Wrapped (makeTCPWrapConn after conn
             (summary'\<lparr>ts_Synack := int32_of_millis (after - before)\<rparr>) (od_listener od)))))"

subsection \<open>Operations of a wrapped connection (tcp.go)\<close>

definition duplex_CloseRead :: "duplex \<Rightarrow> duplex \<times> goerr option" where
  "duplex_CloseRead d = (case d of
     DSplit r \<Rightarrow> (case retrier_CloseRead r of (r', e) \<Rightarrow> (DSplit r', e))
   | DPlain c \<Rightarrow> (case tcp_CloseRead c of (c', e) \<Rightarrow> (DPlain c', e)))"

definition duplex_CloseWrite :: "duplex \<Rightarrow> duplex \<times> goerr option" where
  "duplex_CloseWrite d = (case d of
     DSplit r \<Rightarrow> (case retrier_CloseWrite r of (r', e) \<Rightarrow> (DSplit r', e))
   | DPlain c \<Rightarrow> (case tcp_CloseWrite c of (c', e) \<Rightarrow> (DPlain c', e)))"

definition duplex_Close :: "duplex \<Rightarrow> duplex \<times> goerr option" where
  "duplex_Close d = (case d of
     DSplit r \<Rightarrow> (case retrier_Close r of (r', e) \<Rightarrow> (DSplit r', e))
   | DPlain c \<Rightarrow> (case tcp_Close c of (c', e) \<Rightarrow> (DPlain c', e)))"

text \<open>\<open>close(&done)\<close> in its two atomic steps: the compare-and-swap and \<open>wg.Done()\<close>.\<close>

definition cas_r :: "wrapped \<Rightarrow> wrapped" where
  "cas_r w = (if \<not> w_rDone w then w\<lparr>w_rDone := True, w_pending := Suc (w_pending w)\<rparr> else w)"

definition cas_w :: "wrapped \<Rightarrow> wrapped" where
  "cas_w w = (if \<not> w_wDone w then w\<lparr>w_wDone := True, w_pending := Suc (w_pending w)\<rparr> else w)"

definition wg_Done :: "wrapped \<Rightarrow> wrapped" where
  "wg_Done w = w\<lparr>w_pending := w_pending w - 1, w_wg := w_wg w - 1\<rparr>"

definition close_r :: "wrapped \<Rightarrow> wrapped" where
  "close_r w = (if w_rDone w then w else wg_Done (cas_r w))"

definition close_w :: "wrapped \<Rightarrow> wrapped" where
  "close_w w = (if w_wDone w then w else wg_Done (cas_w w))"

definition wrap_CloseRead :: "wrapped \<Rightarrow> wrapped \<times> goerr option" where
  "wrap_CloseRead w = (case duplex_CloseRead (w_conn w) of (d, e) \<Rightarrow> (close_r (w\<lparr>w_conn := d\<rparr>), e))"

definition wrap_CloseWrite :: "wrapped \<Rightarrow> wrapped \<times> goerr option" where
  "wrap_CloseWrite w = (case duplex_CloseWrite (w_conn w) of (d, e) \<Rightarrow> (close_w (w\<lparr>w_conn := d\<rparr>), e))"

text \<open>The deferred calls of \<open>Close\<close> run last in, first out.\<close>

definition wrap_Close :: "wrapped \<Rightarrow> wrapped \<times> goerr option" where
  "wrap_Close w = (case duplex_Close (w_conn w) of (d, e) \<Rightarrow> (close_w (close_r (w\<lparr>w_conn := d\<rparr>)), e))"

text \<open>
  \<open>Read\<close> and \<open>WriteTo\<close> add what they moved to the downloaded bytes, \<open>Write\<close> and \<open>ReadFrom\<close> to the
  uploaded ones, with or without an error; \<open>n\<close> is the count of the wrapped call.
\<close>

definition count_download :: "nat \<Rightarrow> wrapped \<Rightarrow> wrapped" where
  "count_download n w = w\<lparr>w_stats := (w_stats w)\<lparr>ts_DownloadBytes := ts_DownloadBytes (w_stats w) + of_nat n\<rparr>\<rparr>"

definition count_upload :: "nat \<Rightarrow> wrapped \<Rightarrow> wrapped" where
  "count_upload n w = w\<lparr>w_stats := (w_stats w)\<lparr>ts_UploadBytes := ts_UploadBytes (w_stats w) + of_nat n\<rparr>\<rparr>"

text \<open>
  The inner calls. For a split-retry connection \<open>wait\<close> and \<open>other\<close> are what other threads do meanwhile, as in
  \<open>Retrier\<close>; \<open>read_net\<close> is what the network has for one \<open>Read\<close>: the result on the current socket and, should that
  start a retry, of the dial and of the read on the new one.
\<close>

record read_net =
  rn_rnd :: nat
  rn_first :: "bytes \<times> goerr option"
  rn_dial :: "goerr + tcp_conn"
  rn_second :: "bytes \<times> goerr option"

definition duplex_Read :: "read_net \<Rightarrow> duplex \<Rightarrow> duplex \<times> bytes \<times> goerr option" where
  "duplex_Read rn d = (case d of
     DSplit r \<Rightarrow> (case retrier_Read (rn_rnd rn) (rn_first rn) (rn_dial rn) (rn_second rn) r of (r', b, e) \<Rightarrow> (DSplit r', b, e))
   | DPlain c \<Rightarrow> (DPlain c, fst (rn_first rn), snd (rn_first rn)))"

definition duplex_Write :: "gotime \<Rightarrow> (retrier \<Rightarrow> retrier) \<Rightarrow> duplex \<Rightarrow> bytes \<Rightarrow> duplex \<times> nat \<times> goerr option" where
  "duplex_Write now wait d b = (case d of
     DSplit r \<Rightarrow> (case retrier_Write now wait r b of (r', n, e) \<Rightarrow> (DSplit r', n, e))
   | DPlain c \<Rightarrow> (case tcp_write c b of (c', n, e) \<Rightarrow> (DPlain c', n, e)))"

definition duplex_ReadFrom :: "gotime \<Rightarrow> (retrier \<Rightarrow> retrier) \<Rightarrow> (nat \<Rightarrow> retrier \<Rightarrow> retrier) \<Rightarrow> duplex \<Rightarrow> source
    \<Rightarrow> duplex \<times> nat \<times> goerr option" where
  "duplex_ReadFrom now wait other d src = (case d of
     DSplit r \<Rightarrow> (case retrier_ReadFrom now wait other r src of (r', n, e) \<Rightarrow> (DSplit r', n, e))
   | DPlain c \<Rightarrow> (case tcp_ReadFrom c src of (c', n, e) \<Rightarrow> (DPlain c', n, e)))"

definition wrap_Write :: "gotime \<Rightarrow> (retrier \<Rightarrow> retrier) \<Rightarrow> wrapped \<Rightarrow> bytes \<Rightarrow> wrapped \<times> nat \<times> goerr option" where
  "wrap_Write now wait w b =
     (case duplex_Write now wait (w_conn w) b of (d, n, e) \<Rightarrow> (count_upload n (w\<lparr>w_conn := d\<rparr>), n, e))"

definition wrap_Read :: "read_net \<Rightarrow> wrapped \<Rightarrow> wrapped \<times> bytes \<times> goerr option" where
  "wrap_Read rn w =
     (case duplex_Read rn (w_conn w) of (d, b, e) \<Rightarrow> (count_download (length b) (w\<lparr>w_conn := d\<rparr>), b, e))"

text \<open>
  \<open>ReadFrom\<close>: \<open>io.Copy\<close> into the inner connection, which has a \<open>ReadFrom\<close> of its own. What that returns goes back
  through \<open>io.Copy\<close> unchanged.
\<close>

definition wrap_ReadFrom :: "gotime \<Rightarrow> (retrier \<Rightarrow> retrier) \<Rightarrow> (nat \<Rightarrow> retrier \<Rightarrow> retrier) \<Rightarrow> wrapped \<Rightarrow> source
    \<Rightarrow> wrapped \<times> nat \<times> goerr option" where
  "wrap_ReadFrom now wait other w src =
     (case duplex_ReadFrom now wait other (w_conn w) src of (d, n, e) \<Rightarrow> (count_upload n (w\<lparr>w_conn := d\<rparr>), n, e))"

text \<open>\<open>WriteTo\<close>: \<open>io.Copy\<close> from the inner connection; \<open>None\<close> as long as it waits for the network.\<close>

fun duplex_copy :: "'v write_fun \<Rightarrow> 'v \<Rightarrow> read_net list \<Rightarrow> duplex \<Rightarrow> nat \<Rightarrow> (duplex \<times> 'v \<times> nat \<times> goerr option) option" where
  "duplex_copy wr v [] d written = None"
| "duplex_copy wr v (rn # rns) d written =
     (case duplex_Read rn d of (d', b, er) \<Rightarrow>
        if b \<noteq> [] then
          (case wr v b of (v', nw, ew) \<Rightarrow>
             let bad = length b < nw;
                 nw' = (if bad then 0 else nw);
                 ew' = (if bad \<and> ew = None then Some EInvalidWrite else ew)
             in if ew' \<noteq> None then Some (d', v', written + nw', ew')
                else if length b \<noteq> nw' then Some (d', v', written + nw', Some EShortWrite)
                else case er of
                    Some e \<Rightarrow> Some (d', v', written + nw', if e = EEOF then None else Some e)
                  | None \<Rightarrow> duplex_copy wr v' rns d' (written + nw'))
        else case er of
            Some e \<Rightarrow> Some (d', v, written, if e = EEOF then None else Some e)
          | None \<Rightarrow> duplex_copy wr v rns d' written)"

definition wrap_WriteTo :: "'v write_fun \<Rightarrow> 'v \<Rightarrow> read_net list \<Rightarrow> wrapped \<Rightarrow> (wrapped \<times> 'v \<times> nat \<times> goerr option) option" where
  "wrap_WriteTo wr v rns w =
     map_option (\<lambda>(d, v', n, e). (count_download n (w\<lparr>w_conn := d\<rparr>), v', n, e)) (duplex_copy wr v rns (w_conn w) 0)"

text \<open>The waiting goroutine, once the wait group is at zero.\<close>

definition fire :: "gotime \<Rightarrow> wrapped \<Rightarrow> wrapped" where
  "fire now w =
     (let st = (w_stats w)\<lparr>ts_Duration := int32_of_duration (now - w_beginTime w)\<rparr> in
      w\<lparr>w_stats := st, w_waiting := False,
        w_reports := (if w_listener w then w_reports w @ [st] else w_reports w)\<rparr>)"

text \<open>
  The steps of all threads that use a wrapped connection. The calls on the inner connection may be in any order; of
  them only their effect on the inner connection is visible here.
\<close>

inductive wstep :: "wrapped \<Rightarrow> wrapped \<Rightarrow> bool" where
  ws_inner: "wstep w (w\<lparr>w_conn := d\<rparr>)"
| ws_cas_r: "wstep w (cas_r w)"
| ws_cas_w: "wstep w (cas_w w)"
| ws_done: "0 < w_pending w \<Longrightarrow> wstep w (wg_Done w)"
| ws_download: "wstep w (count_download n w)"
| ws_upload: "wstep w (count_upload n w)"
| ws_fire: "w_wg w = 0 \<Longrightarrow> w_waiting w \<Longrightarrow> wstep w (fire now w)"

inductive wreach :: "wrapped \<Rightarrow> bool" where
  wr_init: "wreach (makeTCPWrapConn now c summary listener)"
| wr_step: "wreach w \<Longrightarrow> wstep w w' \<Longrightarrow> wreach w'"

inductive_cases wstepE: "wstep w w'"

subsection \<open>The DNS pipe (pipe.go)\<close>

text \<open>The two ends of \<open>net.Pipe\<close>; closing an end is idempotent and never fails.\<close>

record pipeConn =
  pc_local_closed :: bool
  pc_remote_closed :: bool

definition newPipeConn :: "bool \<Rightarrow> bool \<Rightarrow> goerr + pipeConn" where
  "newPipeConn local_nil remote_nil =
     (if local_nil \<or> remote_nil then Inl (EMsg ''local conn and remote conn are required'')
      else Inr \<lparr>pc_local_closed = False, pc_remote_closed = False\<rparr>)"

definition pipe_CloseRead :: "pipeConn \<Rightarrow> pipeConn \<times> goerr option" where
  "pipe_CloseRead c = (c\<lparr>pc_remote_closed := True\<rparr>, None)"

definition pipe_CloseWrite :: "pipeConn \<Rightarrow> pipeConn \<times> goerr option" where
  "pipe_CloseWrite c = (c\<lparr>pc_local_closed := True\<rparr>, None)"

text \<open>\<open>errors.Join\<close>, of which only nil or not nil matters here.\<close>

definition errors_Join :: "goerr option \<Rightarrow> goerr option \<Rightarrow> goerr option" where
  "errors_Join e1 e2 = (case e1 of None \<Rightarrow> e2 | Some e \<Rightarrow> Some e)"

definition pipe_Close :: "pipeConn \<Rightarrow> pipeConn \<times> goerr option" where
  "pipe_Close c = (case pipe_CloseRead c of (c1, e1) \<Rightarrow>
     (case pipe_CloseWrite c1 of (c2, e2) \<Rightarrow> (c2, errors_Join e1 e2)))"

subsection \<open>UDP (udp_nat.go, udp_tracker.go)\<close>

definition udpIdleTimeout :: duration where "udpIdleTimeout = 300 * second"

record 'r UdpNat =
  un_fakeDNSAddr :: addr_port
  un_dns :: 'r
  un_dialer :: dialer
  un_listener :: bool

definition NewUdpNat :: "addr_port \<Rightarrow> 'r option \<Rightarrow> Protector option \<Rightarrow> bool \<Rightarrow> goerr + 'r UdpNat" where
  "NewUdpNat fakeDNS dns protector listener =
     (case dns of
        None \<Rightarrow> Inl (EMsg ''dns is required'')
      | Some d \<Rightarrow> Inr \<lparr>un_fakeDNSAddr = fakeDNS, un_dns = d, un_dialer = MakeDialer protector,
          un_listener = listener\<rparr>)"

definition un_SetDNS :: "'r option \<Rightarrow> 'r UdpNat \<Rightarrow> 'r UdpNat \<times> goerr option" where
  "un_SetDNS dns un =
     (case dns of None \<Rightarrow> (un, Some (EMsg ''dns is required'')) | Some d \<Rightarrow> (un\<lparr>un_dns := d\<rparr>, None))"

datatype udp_route = NotHandled | ToDNS | ToRelay addr_port

definition HandleForwarder :: "'r UdpNat \<Rightarrow> bytes \<Rightarrow> u16 \<Rightarrow> udp_route" where
  "HandleForwarder un addr port =
     (case addrPortFromTCPUIP addr port of
        None \<Rightarrow> NotHandled
      | Some dest \<Rightarrow> if isEquivalentAddrPort dest (un_fakeDNSAddr un) then ToDNS else ToRelay dest)"

text \<open>
  \<open>handleDNS\<close>: whether the endpoint could be created, and the first datagram (up to 4096 bytes of it);
  the result is what is written back. A failed query writes nothing.
\<close>

definition handleDNS :: "'s query_fun \<Rightarrow> 's \<Rightarrow> bool \<Rightarrow> bytes \<times> goerr option \<Rightarrow> ('s \<times> bytes option) option" where
  "handleDNS qf s created rd =
     (if \<not> created then Some (s, None)
      else case rd of (d, err) \<Rightarrow>
        let buf = take 4096 d in
        if err \<noteq> None \<or> length buf = 0 then Some (s, None)
        else case qf s buf of
            None \<Rightarrow> None
          | Some (s', resp, err') \<Rightarrow>
              if err' \<noteq> None \<or> length (the_bytes resp) = 0 then Some (s', None) else Some (s', resp))"

text \<open>\<open>copyUDPCount\<close>: every datagram counted, then written; the loop ends with the first error.\<close>

fun copyUDPCount :: "'w write_fun \<Rightarrow> 'w \<Rightarrow> i64 \<Rightarrow> source \<Rightarrow> 'w \<times> i64" where
  "copyUDPCount wr w counter [] = (w, counter)"
| "copyUDPCount wr w counter ((d, err) # s) =
     (let n = min 2048 (length d) in
      if 0 < n then
        (case wr w (take 2048 d) of
           (w', m, werr) \<Rightarrow>
             if werr \<noteq> None then (w', counter + of_nat n)
             else if err \<noteq> None then (w', counter + of_nat n)
             else copyUDPCount wr w' (counter + of_nat n) s)
      else if err \<noteq> None then (w, counter)
      else copyUDPCount wr w counter s)"

record tracker =
  tk_start :: gotime
  tk_upload :: i64
  tk_download :: i64

definition makeTracker :: "gotime \<Rightarrow> tracker" where
  "makeTracker now = \<lparr>tk_start = now, tk_upload = 0, tk_download = 0\<rparr>"

definition relay_summary :: "gotime \<Rightarrow> tracker \<Rightarrow> UDPSocketSummary" where
  "relay_summary now tk =
     \<lparr>us_UploadBytes = tk_upload tk, us_DownloadBytes = tk_download tk,
      us_Duration = int32_of_duration (now - tk_start tk)\<rparr>"

subsection \<open>Properties\<close>

lemma same_prefix: "take n a = p \<Longrightarrow> take n b = p \<Longrightarrow> drop n a = drop n b \<Longrightarrow> a = b"
  by (metis append_take_drop_id)

text \<open>
  Two addresses of netstack packets count as the same destination exactly when \<open>net.IP.Equal\<close> says so
  of their bytes (an IPv4 address and its IPv4-in-IPv6 form are one) and the ports agree; so the fake DNS
  server is recognised in either form.
\<close>

theorem isEquivalentAddrPort_ip_Equal:
  assumes "addrPortFromTCPUIP a p = Some x" and "addrPortFromTCPUIP b q = Some y"
  shows "isEquivalentAddrPort x y \<longleftrightarrow> ip_Equal a b \<and> p = q"
proof -
  have a: "length a = 4 \<and> ap_Addr x = Addr4 a \<or> length a = 16 \<and> ap_Addr x = Addr16 a" and px: "ap_Port x = p"
    using assms(1) by (auto simp: addrPortFromTCPUIP_def split: if_splits)
  have b: "length b = 4 \<and> ap_Addr y = Addr4 b \<or> length b = 16 \<and> ap_Addr y = Addr16 b" and py: "ap_Port y = q"
    using assms(2) by (auto simp: addrPortFromTCPUIP_def split: if_splits)
  have "Unmap (ap_Addr x) = Unmap (ap_Addr y) \<longleftrightarrow> ip_Equal a b"
    using a b by (elim disjE conjE)
      (auto simp: Unmap_def ip_Equal_def split: if_splits intro: same_prefix [of 12 _ v4InV6Prefix])
  then show ?thesis using px py by (simp add: isEquivalentAddrPort_def)
qed

theorem isEquivalentAddrPort_ip_Equal_witness:
  "isEquivalentAddrPort \<lparr>ap_Addr = Addr4 [10, 111, 222, 3], ap_Port = 53\<rparr>
       \<lparr>ap_Addr = Addr16 (v4InV6Prefix @ [10, 111, 222, 3]), ap_Port = 53\<rparr>
     \<longleftrightarrow> ip_Equal [10, 111, 222, 3] (v4InV6Prefix @ [10, 111, 222, 3]) \<and> (53 :: u16) = 53"
  by (rule isEquivalentAddrPort_ip_Equal) (simp_all add: addrPortFromTCPUIP_def v4InV6Prefix_def)

text \<open>
  The summary of a flow names the destination port only when it is 0, 80 or 443; every other port is
  reported as -1, also those above 32767 that do not fit the \<open>int16\<close>.
\<close>

theorem ServerPort_classes:
  "sint (ts_ServerPort (makeTCPSocketSummary dest))
     = (if unat (ap_Port dest) \<in> {0, 80, 443} then int (unat (ap_Port dest)) else - 1)"
proof -
  let ?p = "ap_Port dest"
  have c: "sint (0 :: i16) = 0" "sint (80 :: i16) = 80" "sint (443 :: i16) = 443"
    "unat (0 :: i16) = 0" "unat (80 :: i16) = 80" "unat (443 :: i16) = 443" by simp_all
  have s: "sint ?p = 0 \<longleftrightarrow> ?p = 0" "sint ?p = 80 \<longleftrightarrow> ?p = 80" "sint ?p = 443 \<longleftrightarrow> ?p = 443"
    by (metis c(1) signed_word_eqI, metis c(2) signed_word_eqI, metis c(3) signed_word_eqI)
  have u: "unat ?p = 0 \<longleftrightarrow> ?p = 0" "unat ?p = 80 \<longleftrightarrow> ?p = 80" "unat ?p = 443 \<longleftrightarrow> ?p = 443"
    by (metis c(4) unsigned_word_eqI, metis c(5) unsigned_word_eqI, metis c(6) unsigned_word_eqI)
  show ?thesis
  proof (cases "?p = 0 \<or> ?p = 80 \<or> ?p = 443")
    case True
    then show ?thesis using c by (auto simp: makeTCPSocketSummary_def Let_def)
  next
    case False
    then show ?thesis using s u by (simp add: makeTCPSocketSummary_def Let_def)
  qed
qed

text \<open>
  The durations that the summaries report are nanoseconds cut down to 32 bits: exact only below
  about 2.1 seconds, then wrapped; a flow of three seconds is reported with a negative duration.
\<close>

theorem duration_wraps:
  "(sint (int32_of_duration d) = d \<longleftrightarrow> - (2 ^ 31) \<le> d \<and> d < 2 ^ 31)
    \<and> sint (int32_of_duration (3 * second)) = - 1294967296"
proof -
  have "sint (of_int d :: i32) = d \<longleftrightarrow> - (2 ^ 31) \<le> d \<and> d < 2 ^ 31"
    by (simp add: signed_of_int signed_take_bit_int_eq_self_iff)
  moreover have "int32_of_duration (3 * second) = 3000000000" by (simp add: int32_of_duration_def second_def)
  moreover have "sint (3000000000 :: i32) = - 1294967296" by simp
  ultimately show ?thesis by (simp add: int32_of_duration_def)
qed

text \<open>The life of a wrapped connection.\<close>

definition w_inv :: "wrapped \<Rightarrow> bool" where
  "w_inv w \<longleftrightarrow> w_wg w = 2 + int (w_pending w) - (if w_rDone w then 1 else 0) - (if w_wDone w then 1 else 0)
     \<and> (\<not> w_waiting w \<longrightarrow> w_wg w = 0)
     \<and> length (w_reports w) = (if w_waiting w \<or> \<not> w_listener w then 0 else 1)"

lemma w_inv_step: "wstep w w' \<Longrightarrow> w_inv w \<Longrightarrow> w_inv w'"
  by (erule wstepE)
    (auto simp: w_inv_def cas_r_def cas_w_def wg_Done_def count_download_def count_upload_def fire_def Let_def
      split: if_splits)

lemma wreach_inv: "wreach w \<Longrightarrow> w_inv w"
proof (induction rule: wreach.induct)
  case (wr_init now c summary listener)
  show ?case by (simp add: w_inv_def makeTCPWrapConn_def)
next
  case (wr_step w w')
  then show ?case using w_inv_step by blast
qed

text \<open>
  C17. However reads, writes and closes of a wrapped connection interleave, its listener gets at most one
  \<open>OnTCPSocketClosed\<close>, none before both halves have been closed, and the wait group never goes below
  zero, which would panic; and once both halves are closed and the closers have returned, the
  report is due: the waiting goroutine can run, or has.
\<close>

theorem wrapped_reports_once:
  assumes "wreach w"
  shows "length (w_reports w) \<le> 1 \<and> 0 \<le> w_wg w
    \<and> (w_reports w \<noteq> [] \<longrightarrow> w_rDone w \<and> w_wDone w)
    \<and> (w_rDone w \<and> w_wDone w \<and> w_pending w = 0 \<longrightarrow>
         (w_waiting w \<and> w_wg w = 0) \<or> length (w_reports w) = (if w_listener w then 1 else 0))"
proof -
  have inv: "w_inv w" by (rule wreach_inv [OF assms])
  have "w_rDone w \<and> w_wDone w" if "w_reports w \<noteq> []"
  proof -
    have "w_wg w = 0" using inv that by (auto simp: w_inv_def split: if_splits)
    then show ?thesis using inv by (auto simp: w_inv_def split: if_splits)
  qed
  then show ?thesis using inv by (auto simp: w_inv_def split: if_splits)
qed

definition sample_wrapped :: wrapped where
  "sample_wrapped = makeTCPWrapConn 0 (DPlain (tcp_new [])) (makeTCPSocketSummary \<lparr>ap_Addr = ZeroAddr, ap_Port = 80\<rparr>) True"

definition sample_closed :: wrapped where
  "sample_closed = fire 5 (wg_Done (cas_w (wg_Done (cas_r (count_download 7 sample_wrapped)))))"

lemma sample_closed_reach: "wreach sample_closed"
proof -
  note init = wr_init [of 0 "DPlain (tcp_new [])" "makeTCPSocketSummary \<lparr>ap_Addr = ZeroAddr, ap_Port = 80\<rparr>" True,
      folded sample_wrapped_def]
  note f = sample_wrapped_def makeTCPWrapConn_def cas_r_def cas_w_def wg_Done_def count_download_def
  have "wreach (cas_r (count_download 7 sample_wrapped))"
    by (rule wr_step [OF wr_step [OF init ws_download] ws_cas_r])
  then have "wreach (wg_Done (cas_r (count_download 7 sample_wrapped)))"
    by (rule wr_step [OF _ ws_done]) (simp add: f)
  then have "wreach (cas_w (wg_Done (cas_r (count_download 7 sample_wrapped))))"
    by (rule wr_step [OF _ ws_cas_w])
  then have "wreach (wg_Done (cas_w (wg_Done (cas_r (count_download 7 sample_wrapped)))))"
    by (rule wr_step [OF _ ws_done]) (simp add: f)
  then show ?thesis unfolding sample_closed_def by (rule wr_step [OF _ ws_fire]) (simp_all add: f)
qed

theorem wrapped_reports_once_witness:
  "length (w_reports sample_closed) \<le> 1 \<and> 0 \<le> w_wg sample_closed \<and> w_reports sample_closed \<noteq> []
    \<and> w_rDone sample_closed \<and> w_wDone sample_closed"
proof -
  have "w_reports sample_closed \<noteq> []"
    by (simp add: sample_closed_def fire_def Let_def sample_wrapped_def makeTCPWrapConn_def cas_r_def cas_w_def
        wg_Done_def count_download_def)
  then show ?thesis using wrapped_reports_once [OF sample_closed_reach] by blast
qed

text \<open>The sequential operations are sequences of these steps.\<close>

lemma wreach_close_r: "wreach w \<Longrightarrow> wreach (close_r w)"
proof (cases "w_rDone w")
  case False
  assume w: "wreach w"
  have "wreach (cas_r w)" by (rule wr_step [OF w ws_cas_r])
  then have "wreach (wg_Done (cas_r w))" by (rule wr_step [OF _ ws_done]) (simp add: cas_r_def False)
  then show ?thesis by (simp add: close_r_def False)
qed (simp add: close_r_def)

lemma wreach_close_w: "wreach w \<Longrightarrow> wreach (close_w w)"
proof (cases "w_wDone w")
  case False
  assume w: "wreach w"
  have "wreach (cas_w w)" by (rule wr_step [OF w ws_cas_w])
  then have "wreach (wg_Done (cas_w w))" by (rule wr_step [OF _ ws_done]) (simp add: cas_w_def False)
  then show ?thesis by (simp add: close_w_def False)
qed (simp add: close_w_def)

lemma wreach_Close: "wreach w \<Longrightarrow> wreach (fst (wrap_Close w))"
  using wreach_close_w [OF wreach_close_r [OF wr_step [OF _ ws_inner]]]
  by (auto simp: wrap_Close_def split: prod.splits)

text \<open>
  Where a TCP flow goes: to the fake DNS address, in either form, a pipe to the current resolver and
  nothing is dialled; to port 443 a split-retry connection with its statistics; to everything else the plain
  connection. A wrapped connection starts open, unreported, and belongs to the dialer's listener.
\<close>

theorem DialTCP_routes:
  "(if isEquivalentAddrPort dest (od_fakeDNSAddr od)
    then DialTCP od before res after dest tcp = Inr (DNSPipe (od_dns od))
    else case res of
        Inl err \<Rightarrow> DialTCP od before res after dest tcp = Inl (EWrap ''failed to dial to target'' err)
      | Inr conn \<Rightarrow> \<exists>w. DialTCP od before res after dest tcp = Inr (Wrapped w)
          \<and> w_listener w = od_listener od \<and> w_reports w = [] \<and> \<not> w_rDone w \<and> \<not> w_wDone w
          \<and> (if ap_Port dest = 443
              then \<exists>r. w_conn w = DSplit r \<and> rt_addr r = tcp \<and> rt_conn r = conn \<and> ts_Retry (w_stats w) = Some no_stats
              else w_conn w = DPlain conn \<and> ts_Retry (w_stats w) = None))"
proof (cases "isEquivalentAddrPort dest (od_fakeDNSAddr od)")
  case True
  then show ?thesis by (simp add: DialTCP_def)
next
  case False
  have "ts_Retry (makeTCPSocketSummary dest) = None" by (simp add: makeTCPSocketSummary_def Let_def)
  with False show ?thesis
    by (cases res; cases "ap_Port dest = 443")
      (simp_all add: DialTCP_def od_dial_def Let_def makeTCPWrapConn_def DialWithSplitRetry_def)
qed

text \<open>What \<open>copyUDPCount\<close> should relay: the non-empty datagrams, cut to 2048 bytes, up to the first error.\<close>

fun datagrams :: "source \<Rightarrow> bytes list" where
  "datagrams [] = []"
| "datagrams ((d, err) # s) =
     (if d = [] then [] else [take 2048 d]) @ (if err \<noteq> None then [] else datagrams s)"

lemma copyUDPCount_healthy:
  "(\<And>w b. wr w b = (w @ [b], length b, None)) \<Longrightarrow>
     copyUDPCount wr w counter s = (w @ datagrams s, counter + of_nat (length (concat (datagrams s))))"
proof (induction s arbitrary: w counter)
  case (Cons p s)
  obtain d err where "p = (d, err)" by (cases p)
  then show ?case using Cons by (auto simp: Let_def min_def of_nat_add [symmetric] simp del: of_nat_add of_nat_diff)
qed simp

text \<open>
  The UDP relay moves each datagram on as one datagram, in order, without inventing or merging any
  (empty ones are dropped, longer ones cut to 2048 bytes), and the counter grows by exactly the bytes
  passed on, until a read fails, when the other side takes everything.
\<close>

theorem copyUDPCount_relays:
  assumes "\<forall>w b. wr w b = (w @ [b], length b, None)"
  shows "copyUDPCount wr [] 0 s = (datagrams s, of_nat (length (concat (datagrams s))))"
  using copyUDPCount_healthy [of wr "[]" 0 s] assms by simp

theorem copyUDPCount_relays_witness:
  "copyUDPCount (\<lambda>w b. (w @ [b], length b, None)) [] 0 [([1, 2], None), ([], None), ([3], Some EEOF), ([4], None)]
     = (datagrams [([1, 2], None), ([], None), ([3], Some EEOF), ([4], None)],
        of_nat (length (concat (datagrams [([1, 2], None), ([], None), ([3], Some EEOF), ([4], None)]))))"
  by (rule copyUDPCount_relays) simp

text \<open>The DNS handler over UDP, for any resolver that keeps the contract.\<close>

context dns_resolver
begin

lemma handleDNS_reply:
  assumes "ok s"
  shows "\<exists>s' w. handleDNS qf s created rd = Some (s', w) \<and> ok s'
    \<and> (\<forall>b. w = Some b \<longrightarrow> created \<and> snd rd = None \<and> 2 \<le> length b \<and> be16 b = be16 (take 4096 (fst rd))
         \<and> (\<exists>s1. qf s (take 4096 (fst rd)) = Some (s1, Some b, None)))"
proof -
  obtain s1 resp err where q: "qf s (take 4096 (fst rd)) = Some (s1, resp, err)" "ok s1"
    using query_returns [OF assms] by blast
  have "\<forall>b. resp = Some b \<longrightarrow> 2 \<le> length b \<and> be16 b = be16 (take 4096 (fst rd))"
    using query_id [OF assms, of "take 4096 (fst rd)" s1 _ err] q by auto
  then show ?thesis
    using q assms by (cases rd) (auto simp: handleDNS_def Let_def)
qed

end

end
