(* ===== verification/WrapIO.thy ===== *)
theory WrapIO
  imports Transport
begin

section \<open>What a wrapped connection carries and counts (transport/tcp.go)\<close>

text \<open>
  The two directions of a connection that \<open>DialTCP\<close> made, from the client's bytes to the socket and from the
  network's bytes to the client, through the counting wrapper, the split-retry connection where there is one, and the
  socket.
\<close>

subsection \<open>Upload\<close>

text \<open>
  What the sockets of a split-retry connection carry when \<open>b\<close> was accepted. Unless its retry has failed, the socket in use
  carries \<open>b\<close>, or the same TLS records. When the retry has failed, either there is one socket, closed, and it carries \<open>b\<close>;
  or the first one, which is closed, carries a first part \<open>h\<close> of \<open>b\<close>, and the second as much of the split \<open>h\<close> as it took and
  all the rest of \<open>b\<close>.
\<close>

definition sockets_carry :: "mode \<Rightarrow> retrier \<Rightarrow> bytes \<Rightarrow> bool" where
  "sockets_carry md r b \<longleftrightarrow> (if md \<noteq> Failed
     then tcp_stream (rt_conn r) = b \<or> (\<forall>rest. tls_content (tcp_stream (rt_conn r) @ rest) = tls_content (b @ rest))
     else rt_retired r = [] \<and> c_closed (rt_conn r) \<and> tcp_stream (rt_conn r) = b
       \<or> (\<exists>rnd h k rest old. b = h @ rest \<and> tcp_stream (rt_conn r) = take k (split_wire rnd h) @ rest
            \<and> rt_retired r = [old] \<and> tcp_stream old = h \<and> c_closed old))"

definition carries :: "duplex \<Rightarrow> bytes \<Rightarrow> bool" where
  "carries d b = (case d of
     DPlain c \<Rightarrow> tcp_stream c = b
   | DSplit r \<Rightarrow> (\<exists>s. rreach s \<and> s_r s = r \<and> s_acc s = b \<and> sockets_carry (s_mode s) r b))"

lemma carries_split:
  assumes "rreach s"
  shows "carries (DSplit (s_r s)) (s_acc s)"
proof -
  note inv = rreach_rinv [OF assms]
  have "sockets_carry (s_mode s) (s_r s) (s_acc s)"
  proof (cases "s_mode s = Failed")
    case True
    then show ?thesis using inv by (fastforce simp: sockets_carry_def rinv_def stream_inv_def retired_inv_def)
  next
    case False
    then show ?thesis using rinv_transparent [OF inv] by (simp add: sockets_carry_def)
  qed
  then show ?thesis using assms by (auto simp: carries_def)
qed

lemma DialTCP_conn:
  assumes "DialTCP od before (Inr c) after dest tcp = Inr (Wrapped w)"
  shows "(w_conn w = DPlain c \<or> (\<exists>r st. w_conn w = DSplit r \<and> DialWithSplitRetry before (Inr c) after tcp (Some st) = Inr r))
    \<and> ts_UploadBytes (w_stats w) = 0 \<and> ts_DownloadBytes (w_stats w) = 0"
  using assms
  by (auto simp: DialTCP_def od_dial_def makeTCPSocketSummary_def makeTCPWrapConn_def Let_def split: if_splits sum.splits)

lemma wrap_ReadFrom_inner:
  "wrap_ReadFrom now wait other w src = (w', n, e) \<Longrightarrow>
     duplex_ReadFrom now wait other (w_conn w) src = (w_conn w', n, e)
     \<and> ts_UploadBytes (w_stats w') = ts_UploadBytes (w_stats w) + of_nat n"
  by (auto simp: wrap_ReadFrom_def count_upload_def split: prod.splits)

lemma retrier_ReadFrom_carries:
  assumes "DialWithSplitRetry before (Inr c) after addr stats = Inr r0" and "fresh_conn c" and "env_settles wait"
    and "\<forall>i. env_steps (other i)" and "retrier_ReadFrom now wait other r0 src = (r, n, e)"
  shows "n \<le> length (src_data src) \<and> carries (DSplit r) (take n (src_data src))"
proof -
  let ?s = "rinit r0"
  have s: "rreach ?s" "s_w ?s = WIdle" "s_r ?s = r0" "s_acc ?s = []"
    using rreach.start [OF assms(1,2)] by (simp_all add: rinit_def)
  have "copied ?s src n r"
    using ReadFrom_steps [OF s(1-3) assms(3,4)] assms(5) by (fastforce simp: retrier_ReadFrom_def)
  then obtain t where t: "n \<le> length (src_data src)" "rstep\<^sup>*\<^sup>* ?s t" "s_r t = r" "s_acc t = take n (src_data src)"
    using s(4) by (auto simp: copied_def elim: wroteE)
  from carries_split [OF rreach_run [OF t(2) s(1)]] show ?thesis using t by simp
qed

text \<open>
  C7. Upload, from the client to the wire: a connection that \<open>DialTCP\<close> made forwards a first part of the client's
  bytes, in order and once each, and its statistics count exactly these. On a plain connection the socket carries them. On
  a split-retry connection the socket in use carries them, or the same TLS records, although a part of them may have gone to
  a first server's socket too; and when its retry has failed every counted byte is still one that one of its two sockets
  took, in order. A split-retry connection may have readers and closers at work between the writes until it is settled;
  the copy to a plain socket, and the one to the socket of a settled connection, are the code's single call.
\<close>

theorem wrapped_upload:
  assumes "DialTCP od before (Inr c) after dest tcp = Inr (Wrapped w)" and "fresh_conn c"
    and "env_settles wait" and "\<forall>i. env_steps (other i)"
    and "wrap_ReadFrom now wait other w src = (w', n, e)"
  shows "n \<le> length (src_data src) \<and> carries (w_conn w') (take n (src_data src))
    \<and> ts_UploadBytes (w_stats w') = of_nat n"
proof -
  note dial = DialTCP_conn [OF assms(1)]
  note rf = wrap_ReadFrom_inner [OF assms(5)]
  have "n \<le> length (src_data src) \<and> carries (w_conn w') (take n (src_data src))"
  proof (cases "w_conn w")
    case (DPlain d)
    then obtain c' where c: "tcp_ReadFrom c src = (c', n, e)" "w_conn w' = DPlain c'"
      using rf dial by (auto simp: duplex_ReadFrom_def split: prod.splits)
    show ?thesis
      using tcp.copy_loop_part [OF refl c(1) [unfolded tcp_ReadFrom_def io_Copy_def]] c(2) assms(2)
      by (simp add: carries_def fresh_conn_def)
  next
    case (DSplit r0)
    then obtain st r where r: "DialWithSplitRetry before (Inr c) after tcp (Some st) = Inr r0"
        "retrier_ReadFrom now wait other r0 src = (r, n, e)" "w_conn w' = DSplit r"
      using rf dial by (auto simp: duplex_ReadFrom_def split: prod.splits)
    from retrier_ReadFrom_carries [OF r(1) assms(2-4) r(2)] show ?thesis using r(3) by simp
  qed
  then show ?thesis using rf dial by simp
qed

subsection \<open>Download\<close>

text \<open>What the reads of an inner connection give, one after the other, up to the first error.\<close>

fun reads :: "read_net list \<Rightarrow> duplex \<Rightarrow> source" where
  "reads [] d = []"
| "reads (rn # rns) d =
     (case duplex_Read rn d of (d', b, er) \<Rightarrow> (b, er) # (if er = None then reads rns d' else []))"

lemma src_data_Cons: "src_data ((d, e) # r) = d @ (if e = None then src_data r else [])"
  by (cases e) simp_all

context io_writer
begin

lemma duplex_copy_part:
  "duplex_copy wr v rns d k = Some (d', v', n, e) \<Longrightarrow>
     k \<le> n \<and> n - k \<le> length (src_data (reads rns d)) \<and> stream v' = stream v @ take (n - k) (src_data (reads rns d))
     \<and> (e = None \<longrightarrow> n - k = length (src_data (reads rns d)))"
proof (induction rns arbitrary: v d k)
  case (Cons rn rns)
  obtain d1 b er where rd: "duplex_Read rn d = (d1, b, er)" by (metis prod_cases3)
  obtain v1 nw ew where w: "wr v b = (v1, nw, ew)" by (metis prod_cases3)
  note le = write_le [OF w] and st = write_stream [OF w]
  note loop = Cons.prems [unfolded duplex_copy.simps rd]
  have data: "src_data (reads (rn # rns) d) = b @ (if er = None then src_data (reads rns d1) else [])"
    by (simp add: rd src_data_Cons)
  consider (skip) "b = []" "er = None" | (stop) "b = []" "er \<noteq> None"
    | (last) "b \<noteq> []" "ew \<noteq> None \<or> length b \<noteq> nw \<or> er \<noteq> None" | (more) "b \<noteq> []" "ew = None" "length b = nw" "er = None"
    by blast
  then show ?case
  proof cases
    case skip
    then have "duplex_copy wr v rns d1 k = Some (d', v', n, e)" using loop by simp
    from Cons.IH [OF this] show ?thesis using skip data by simp
  next
    case stop
    then show ?thesis using loop data by auto
  next
    case last
    then have "n = k + nw \<and> v' = v1 \<and> (e = None \<longrightarrow> length b = nw \<and> er \<noteq> None)"
      using loop w le by (auto simp: Let_def split: if_splits option.splits)
    then show ?thesis using le st data by auto
  next
    case more
    then have "duplex_copy wr v1 rns d1 (k + nw) = Some (d', v', n, e)" using loop w le by (simp add: Let_def)
    from Cons.IH [OF this] show ?thesis using st data more by auto
  qed
qed simp

end

text \<open>
  Download, from the network to the client: \<open>WriteTo\<close> hands the client a first part of what the reads of the
  inner connection gave, in order and once each, counts exactly these bytes, and when it ends without an error
  they are all there were. For the client's connection only the contract of \<open>io.Writer\<close> is used.
\<close>

theorem wrapped_download:
  assumes "io_writer wr stream" and "wrap_WriteTo wr v rns w = Some (w', v', n, e)"
  shows "n \<le> length (src_data (reads rns (w_conn w)))
    \<and> stream v' = stream v @ take n (src_data (reads rns (w_conn w)))
    \<and> (e = None \<longrightarrow> n = length (src_data (reads rns (w_conn w))))
    \<and> ts_DownloadBytes (w_stats w') = ts_DownloadBytes (w_stats w) + of_nat n"
proof -
  obtain d where "duplex_copy wr v rns (w_conn w) 0 = Some (d, v', n, e)" "w' = count_download n (w\<lparr>w_conn := d\<rparr>)"
    using assms(2) by (auto simp: wrap_WriteTo_def)
  with io_writer.duplex_copy_part [OF assms(1) this(1)] show ?thesis by (simp add: count_download_def)
qed

text \<open>
  The client of a split-retry connection does not see the first server's failure: when the first read fails and
  the retry goes through, what its reads give begins with what the second server sent.
\<close>

lemma retry_hidden:
  assumes "\<not> rt_complete r" and "snd (rn_first rn) \<noteq> None" and "rn_dial rn = Inr c"
    and "so_err (snd (splitHello tcp_write (rn_rnd rn) (rt_hello r) c)) = None"
  shows "\<exists>r'. duplex_Read rn (DSplit r) = (DSplit r', rn_second rn) \<and> rt_complete r'"
proof -
  obtain d err where f: "rn_first rn = (d, Some err)" using assms(2) by (cases "rn_first rn") auto
  obtain c1 out where s: "splitHello tcp_write (rn_rnd rn) (rt_hello r) c = (c1, out)"
    by (cases "splitHello tcp_write (rn_rnd rn) (rt_hello r) c")
  have "so_err out = None" using assms(4) s by simp
  moreover have h: "rt_hello (case errors_as_net err of None \<Rightarrow> r | Some t \<Rightarrow> r\<lparr>rt_stats := (rt_stats r)\<lparr>rs_Timeout := t\<rparr>\<rparr>) = rt_hello r"
    by (simp split: option.splits)
  ultimately show ?thesis
    using assms(1,3) f s
    by (simp add: duplex_Read_def retrier_Read_def retryCompleted_def retry_def Let_def h split: prod.splits)
qed

lemma reads_settled: "rt_complete r \<Longrightarrow> src_data (reads rns (DSplit r)) = src_data (map rn_first rns)"
proof (induction rns)
  case (Cons rn rns)
  have "duplex_Read rn (DSplit r) = (DSplit r, rn_first rn)"
    using Cons.prems by (cases "rn_first rn") (simp add: duplex_Read_def retrier_Read_def retryCompleted_def)
  then show ?case using Cons by (cases "rn_first rn") (auto simp: src_data_Cons split: option.splits)
qed simp

text \<open>
  C20. The client of a split-retry connection gets the second server's answer whole and nothing of the first
  server's failure: when the first read fails and the retry goes through, a \<open>WriteTo\<close> that ends well has handed the
  client exactly the bytes that arrived on the new socket.
\<close>

theorem retried_download:
  assumes "io_writer wr stream" and "w_conn w = DSplit r" and "\<not> rt_complete r"
    and "snd (rn_first rn) \<noteq> None" and "rn_dial rn = Inr c"
    and "so_err (snd (splitHello tcp_write (rn_rnd rn) (rt_hello r) c)) = None"
    and "wrap_WriteTo wr v (rn # rns) w = Some (w', v', n, None)"
  shows "stream v' = stream v @ src_data (rn_second rn # map rn_first rns)"
proof -
  obtain r' where r: "duplex_Read rn (DSplit r) = (DSplit r', rn_second rn)" "rt_complete r'"
    using retry_hidden [of r rn c] assms(3-6) by blast
  have "src_data (reads (rn # rns) (w_conn w)) = src_data (rn_second rn # map rn_first rns)"
    using r reads_settled [OF r(2)] assms(2) by (cases "rn_second rn") (simp add: src_data_Cons)
  moreover obtain d where "duplex_copy wr v (rn # rns) (w_conn w) 0 = Some (d, v', n, None)"
    using assms(7) by (auto simp: wrap_WriteTo_def)
  ultimately show ?thesis using io_writer.duplex_copy_part [OF assms(1)] by fastforce
qed

subsection \<open>Witnesses\<close>

text \<open>
  A connection to port 443 whose first socket takes three bytes of the hello and fails, and whose reader then retries
  on a second one.
\<close>

definition https_od :: "unit OutboundDialer" where
  "https_od = \<lparr>od_fakeDNSAddr = \<lparr>ap_Addr = Addr4 [10, 111, 222, 3], ap_Port = 53\<rparr>, od_dns = (),
     od_dialer = MakeDialer None, od_listener = True\<rparr>"

definition https_dest :: addr_port where
  "https_dest = \<lparr>ap_Addr = Addr4 [192, 0, 2, 1], ap_Port = 443\<rparr>"

definition https_conn :: wrapped where
  "https_conn = (case DialTCP https_od 0 (Inr (tcp_new [Some (3, ENet False)])) 10 https_dest demo_addr of
     Inr (Wrapped w) \<Rightarrow> w | _ \<Rightarrow> sample_wrapped)"

lemma https_dial: "DialTCP https_od 0 (Inr (tcp_new [Some (3, ENet False)])) 10 https_dest demo_addr = Inr (Wrapped https_conn)"
  by (simp add: https_conn_def DialTCP_def https_od_def https_dest_def isEquivalentAddrPort_def od_dial_def Let_def
      DialWithSplitRetry_def)

definition https_reader :: "retrier \<Rightarrow> retrier" where
  "https_reader r = fst (retrier_Read 0 ([], Some (ENet False)) (Inr (tcp_new [])) ([1], None) r)"

lemma https_reader_settles: "env_settles https_reader"
  unfolding https_reader_def by (rule env_settles_read) (use demo_fresh in auto)

theorem wrapped_upload_witness:
  "case wrap_ReadFrom 20 https_reader (\<lambda>i r. r) https_conn [(demo_hello, None), ([7], None)] of (w', n, e) \<Rightarrow>
     n \<le> 13 \<and> carries (w_conn w') (take n (demo_hello @ [7])) \<and> ts_UploadBytes (w_stats w') = of_nat n"
proof -
  obtain w' n e where r: "wrap_ReadFrom 20 https_reader (\<lambda>i r. r) https_conn [(demo_hello, None), ([7], None)] = (w', n, e)"
    by (metis prod_cases3)
  have "fresh_conn (tcp_new [Some (3, ENet False)])" by (simp add: fresh_conn_def tcp_new_def tcp_stream_def)
  from wrapped_upload [OF https_dial this https_reader_settles _ r] show ?thesis
    using r env_steps_id by (simp add: demo_hello_def)
qed

definition reply_net :: "bytes \<Rightarrow> goerr option \<Rightarrow> read_net" where
  "reply_net d e = \<lparr>rn_rnd = 0, rn_first = (d, e), rn_dial = Inr (tcp_new []), rn_second = ([5, 6], None)\<rparr>"

lemma tcp_is_writer: "io_writer tcp_write tcp_stream" ..

lemma sample_download:
  "wrap_WriteTo tcp_write (tcp_new []) [reply_net [1, 2] None, reply_net [3] (Some EEOF)] sample_wrapped
     = Some (count_download 3 sample_wrapped, (tcp_new [])\<lparr>c_segs := [[1, 2], [3]]\<rparr>, 3, None)"
  by (simp add: wrap_WriteTo_def reply_net_def sample_wrapped_def makeTCPWrapConn_def duplex_Read_def tcp_write_def
      tcp_new_def Let_def numeral_3_eq_3)

theorem wrapped_download_witness:
  "tcp_stream ((tcp_new [])\<lparr>c_segs := [[1, 2], [3]]\<rparr>) = [1, 2, 3]
    \<and> ts_DownloadBytes (w_stats (count_download 3 sample_wrapped)) = ts_DownloadBytes (w_stats sample_wrapped) + of_nat 3"
  using wrapped_download [OF tcp_is_writer sample_download]
  by (simp add: sample_wrapped_def makeTCPWrapConn_def reply_net_def duplex_Read_def)

definition demo_wrapped :: wrapped where
  "demo_wrapped = makeTCPWrapConn 0 (DSplit demo_r1) (makeTCPSocketSummary https_dest) True"

theorem retried_download_witness:
  "\<exists>w' v' n. wrap_WriteTo tcp_write (tcp_new []) [reply_net [] (Some (ENet False)), reply_net [7] (Some EEOF)] demo_wrapped
       = Some (w', v', n, None)
     \<and> tcp_stream v' = [5, 6, 7]"
proof -
  let ?a = "reply_net [] (Some (ENet False))" and ?b = "reply_net [7] (Some EEOF)"
  have c: "w_conn demo_wrapped = DSplit demo_r1" by (simp add: demo_wrapped_def makeTCPWrapConn_def)
  have s: "so_err (snd (splitHello tcp_write (rn_rnd ?a) (rt_hello demo_r1) (tcp_new []))) = None"
    using splitHello_healthy [OF demo_hello_facts(4,1), of 0] by (simp add: reply_net_def demo_r1_facts)
  obtain r' where r: "duplex_Read ?a (DSplit demo_r1) = (DSplit r', rn_second ?a)" "rt_complete r'"
    using retry_hidden [of demo_r1 ?a "tcp_new []"] s demo_r1_facts(3) by (auto simp: reply_net_def)
  have "duplex_Read ?b (DSplit r') = (DSplit r', rn_first ?b)"
    using r(2) by (simp add: duplex_Read_def retrier_Read_def retryCompleted_def reply_net_def)
  then obtain w' v' n where w: "wrap_WriteTo tcp_write (tcp_new []) [?a, ?b] demo_wrapped = Some (w', v', n, None)"
    using r(1) c by (auto simp: wrap_WriteTo_def Let_def tcp_write_def tcp_new_def reply_net_def)
  have "tcp_stream v' = tcp_stream (tcp_new []) @ src_data (rn_second ?a # map rn_first [?b])"
    by (rule retried_download [OF tcp_is_writer c demo_r1_facts(3) _ _ s w]) (simp_all add: reply_net_def)
  then show ?thesis using w by (auto simp: reply_net_def)
qed

end
