(* ===== verification/UdpRelay.thy ===== *)
theory UdpRelay
  imports Transport
begin

section \<open>The relay of a UDP flow (transport/udp_nat.go)\<close>

text \<open>
  \<open>relay\<close> opens the two ends of a flow, gives both one deadline, starts a \<open>copyUDPCount\<close> in each direction, waits
  for the first to signal on the channel \<open>done\<close>, and lets its deferred calls close the ends and report. The two
  goroutines and \<open>relay\<close> itself are the step relation \<open>ustep\<close>, with the time that passes. Of the sockets only what
  \<open>net.Conn\<close> promises is used: on a closed connection, and from the deadline on, reads and writes fail.
\<close>

subsection \<open>One direction\<close>

text \<open>
  A \<open>copyUDPCount\<close> that is not started, in \<open>src.Read\<close>, in \<open>dst.Write\<close> with a datagram and the error that came with
  it, in its deferred send to \<open>done\<close>, or gone. \<open>cp_in\<close> and \<open>cp_out\<close> are ghosts: the datagrams read and passed on.
\<close>

datatype copy_pc = CIdle | CRead | CWrite bytes "goerr option" | CDone | CEnded

record copier =
  cp_pc :: copy_pc
  cp_in :: "bytes list"
  cp_out :: "bytes list"

definition copier_new :: copier where
  "copier_new = \<lparr>cp_pc = CIdle, cp_in = [], cp_out = []\<rparr>"

definition copy_read :: "bytes \<Rightarrow> goerr option \<Rightarrow> copier \<Rightarrow> copier" where
  "copy_read d err c =
     (if 0 < length d then c\<lparr>cp_pc := CWrite d err, cp_in := cp_in c @ [d]\<rparr>
      else if err \<noteq> None then c\<lparr>cp_pc := CDone\<rparr>
      else c)"

definition copy_write :: "goerr option \<Rightarrow> copier \<Rightarrow> copier" where
  "copy_write werr c =
     (case cp_pc c of
        CWrite d err \<Rightarrow>
          if werr \<noteq> None then c\<lparr>cp_pc := CDone\<rparr>
          else c\<lparr>cp_pc := (if err \<noteq> None then CDone else CRead), cp_out := cp_out c @ [d]\<rparr>
      | _ \<Rightarrow> c)"

subsection \<open>The relay\<close>

text \<open>\<open>relay\<close> waits on \<open>done\<close>, or is at one of its deferred calls, in the order they run.\<close>

datatype udp_pc = UWait | UCloseRemote | UCloseStack | UReport | UReturned

text \<open>\<open>ur_done\<close> is the number of signals in the channel, which holds two.\<close>

record urelay =
  ur_tracker :: tracker
  ur_now :: gotime
  ur_deadline :: gotime
  ur_listener :: bool
  ur_up :: copier
  ur_down :: copier
  ur_done :: nat
  ur_main :: udp_pc
  ur_stack_open :: bool
  ur_remote_open :: bool
  ur_reports :: "UDPSocketSummary list"

definition relay_start :: "bool \<Rightarrow> gotime \<Rightarrow> urelay" where
  "relay_start listener now = \<lparr>ur_tracker = makeTracker now, ur_now = now, ur_deadline = 0, ur_listener = listener,
     ur_up = copier_new, ur_down = copier_new, ur_done = 0, ur_main = UReport, ur_stack_open = False,
     ur_remote_open = False, ur_reports = []\<rparr>"

text \<open>
  \<open>relay\<close> up to its wait or its first return: whether the endpoint could be created, the result of the dial, and
  the time before and after it. A return leaves the deferred calls made so far to run.
\<close>

definition relay :: "'r UdpNat \<Rightarrow> bytes \<Rightarrow> u16 \<Rightarrow> bool \<Rightarrow> (addr_port \<Rightarrow> goerr option) \<Rightarrow> gotime \<Rightarrow> gotime \<Rightarrow> urelay" where
  "relay un addr port created dial start now =
     (let s = relay_start (un_listener un) start in
      case addrPortFromTCPUIP addr port of
        None \<Rightarrow> s
      | Some dest \<Rightarrow>
          if \<not> created then s
          else let s1 = s\<lparr>ur_now := now, ur_stack_open := True\<rparr> in
            (case dial dest of
               Some err \<Rightarrow> s1\<lparr>ur_main := UCloseStack\<rparr>
             | None \<Rightarrow> s1\<lparr>ur_remote_open := True, ur_deadline := now + udpIdleTimeout, ur_main := UWait,
                 ur_up := copier_new\<lparr>cp_pc := CRead\<rparr>, ur_down := copier_new\<lparr>cp_pc := CRead\<rparr>\<rparr>))"

definition expired :: "urelay \<Rightarrow> bool" where "expired s \<longleftrightarrow> ur_deadline s \<le> ur_now s"

definition stack_dead :: "urelay \<Rightarrow> bool" where "stack_dead s \<longleftrightarrow> \<not> ur_stack_open s \<or> expired s"
definition remote_dead :: "urelay \<Rightarrow> bool" where "remote_dead s \<longleftrightarrow> \<not> ur_remote_open s \<or> expired s"

definition count_up :: "nat \<Rightarrow> urelay \<Rightarrow> urelay" where
  "count_up n s = s\<lparr>ur_tracker := (ur_tracker s)\<lparr>tk_upload := tk_upload (ur_tracker s) + of_nat n\<rparr>\<rparr>"
definition count_down :: "nat \<Rightarrow> urelay \<Rightarrow> urelay" where
  "count_down n s = s\<lparr>ur_tracker := (ur_tracker s)\<lparr>tk_download := tk_download (ur_tracker s) + of_nat n\<rparr>\<rparr>"

text \<open>The deferred function that reports.\<close>

definition udp_report :: "urelay \<Rightarrow> urelay" where
  "udp_report s = s\<lparr>ur_main := UReturned, ur_reports :=
     (if ur_listener s then ur_reports s @ [relay_summary (ur_now s) (ur_tracker s)] else ur_reports s)\<rparr>"

text \<open>A read gives at most the 2048 bytes of the buffer; a dead connection gives an error and nothing else.\<close>

definition read_result :: "bool \<Rightarrow> bytes \<Rightarrow> goerr option \<Rightarrow> bool" where
  "read_result dead d err \<longleftrightarrow> length d \<le> 2048 \<and> (dead \<longrightarrow> d = [] \<and> err \<noteq> None)"

inductive ustep :: "urelay \<Rightarrow> urelay \<Rightarrow> bool" where
  u_up_read: "cp_pc (ur_up s) = CRead \<Longrightarrow> read_result (stack_dead s) d err \<Longrightarrow>
     ustep s ((count_up (length d) s)\<lparr>ur_up := copy_read d err (ur_up s)\<rparr>)"
| u_up_write: "cp_pc (ur_up s) = CWrite d err \<Longrightarrow> (remote_dead s \<Longrightarrow> werr \<noteq> None) \<Longrightarrow>
     ustep s (s\<lparr>ur_up := copy_write werr (ur_up s)\<rparr>)"
| u_up_done: "cp_pc (ur_up s) = CDone \<Longrightarrow> ur_done s < 2 \<Longrightarrow>
     ustep s (s\<lparr>ur_up := (ur_up s)\<lparr>cp_pc := CEnded\<rparr>, ur_done := Suc (ur_done s)\<rparr>)"
| u_down_read: "cp_pc (ur_down s) = CRead \<Longrightarrow> read_result (remote_dead s) d err \<Longrightarrow>
     ustep s ((count_down (length d) s)\<lparr>ur_down := copy_read d err (ur_down s)\<rparr>)"
| u_down_write: "cp_pc (ur_down s) = CWrite d err \<Longrightarrow> (stack_dead s \<Longrightarrow> werr \<noteq> None) \<Longrightarrow>
     ustep s (s\<lparr>ur_down := copy_write werr (ur_down s)\<rparr>)"
| u_down_done: "cp_pc (ur_down s) = CDone \<Longrightarrow> ur_done s < 2 \<Longrightarrow>
     ustep s (s\<lparr>ur_down := (ur_down s)\<lparr>cp_pc := CEnded\<rparr>, ur_done := Suc (ur_done s)\<rparr>)"
| u_wait: "ur_main s = UWait \<Longrightarrow> 0 < ur_done s \<Longrightarrow>
     ustep s (s\<lparr>ur_main := UCloseRemote, ur_done := ur_done s - 1\<rparr>)"
| u_close_remote: "ur_main s = UCloseRemote \<Longrightarrow> ustep s (s\<lparr>ur_main := UCloseStack, ur_remote_open := False\<rparr>)"
| u_close_stack: "ur_main s = UCloseStack \<Longrightarrow> ustep s (s\<lparr>ur_main := UReport, ur_stack_open := False\<rparr>)"
| u_report: "ur_main s = UReport \<Longrightarrow> ustep s (udp_report s)"

text \<open>The states of a flow that was dialled at \<open>now\<close>. Time passes between the steps.\<close>

inductive ureach :: "'r UdpNat \<Rightarrow> gotime \<Rightarrow> urelay \<Rightarrow> bool" for un :: "'r UdpNat" and now :: gotime where
  ur_init: "ureach un now (relay un addr port created dial start now)"
| ur_step: "ureach un now s \<Longrightarrow> ustep s s' \<Longrightarrow> ureach un now s'"
| ur_tick: "ureach un now s \<Longrightarrow> ur_now s \<le> t \<Longrightarrow> ureach un now (s\<lparr>ur_now := t\<rparr>)"

inductive_cases ustepE: "ustep s s'"

text \<open>A step of the flow or of the clock: what a run of the flow consists of.\<close>

definition uafter :: "urelay \<Rightarrow> urelay \<Rightarrow> bool" where
  "uafter s s' \<longleftrightarrow> ustep s s' \<or> (\<exists>t\<ge>ur_now s. s' = s\<lparr>ur_now := t\<rparr>)"

subsection \<open>Order of the phases\<close>

fun udp_rank :: "udp_pc \<Rightarrow> nat" where
  "udp_rank UWait = 0" | "udp_rank UCloseRemote = 1" | "udp_rank UCloseStack = 2" | "udp_rank UReport = 3"
| "udp_rank UReturned = 4"

lemma udp_rank_inj [simp]: "udp_rank x = udp_rank y \<longleftrightarrow> x = y"
  by (cases x; cases y) simp_all

instantiation udp_pc :: linorder
begin

definition less_eq_udp_pc :: "udp_pc \<Rightarrow> udp_pc \<Rightarrow> bool" where "x \<le> y \<longleftrightarrow> udp_rank x \<le> udp_rank y"
definition less_udp_pc :: "udp_pc \<Rightarrow> udp_pc \<Rightarrow> bool" where "x < y \<longleftrightarrow> udp_rank x < udp_rank y"

instance
  by standard (auto simp: less_eq_udp_pc_def less_udp_pc_def dest: antisym)

end

lemmas udp_order = less_eq_udp_pc_def less_udp_pc_def

lemma udp_order_simps [simp]:
  "UWait \<le> p" "UWait < p \<longleftrightarrow> p \<noteq> UWait" "UCloseRemote < p \<longleftrightarrow> p \<notin> {UWait, UCloseRemote}"
  "p \<le> UCloseRemote \<longleftrightarrow> p \<in> {UWait, UCloseRemote}" "p \<le> UCloseStack \<longleftrightarrow> p \<in> {UWait, UCloseRemote, UCloseStack}"
  by (cases p; simp add: udp_order)+

text \<open>No step takes \<open>relay\<close> back to an earlier phase.\<close>

lemma ustep_phase: "ustep s s' \<Longrightarrow> ur_main s \<le> ur_main s'"
  by (erule ustepE) (auto simp: udp_order udp_report_def count_up_def count_down_def)

subsection \<open>Invariant\<close>

text \<open>What was read and not passed on is the datagram under way, or the one whose write failed.\<close>

definition copier_ok :: "copier \<Rightarrow> bool" where
  "copier_ok c \<longleftrightarrow>
     (case cp_pc c of
        CWrite d err \<Rightarrow> cp_in c = cp_out c @ [d]
      | CDone \<Rightarrow> cp_in c = cp_out c \<or> (\<exists>d. cp_in c = cp_out c @ [d])
      | CEnded \<Rightarrow> cp_in c = cp_out c \<or> (\<exists>d. cp_in c = cp_out c @ [d])
      | _ \<Rightarrow> cp_in c = cp_out c)
     \<and> (\<forall>d\<in>set (cp_in c). 0 < length d \<and> length d \<le> 2048)"

lemma copier_ok_read: "copier_ok c \<Longrightarrow> cp_pc c = CRead \<Longrightarrow> length d \<le> 2048 \<Longrightarrow> copier_ok (copy_read d err c)"
  by (auto simp: copier_ok_def copy_read_def)

lemma copier_ok_write: "copier_ok c \<Longrightarrow> cp_pc c = CWrite d err \<Longrightarrow> copier_ok (copy_write werr c)"
  by (auto simp: copier_ok_def copy_write_def)

lemma copier_ok_done: "copier_ok c \<Longrightarrow> cp_pc c = CDone \<Longrightarrow> copier_ok (c\<lparr>cp_pc := CEnded\<rparr>)"
  by (auto simp: copier_ok_def)

definition bytes_of :: "bytes list \<Rightarrow> i64" where "bytes_of ds = of_nat (length (concat ds))"

lemma bytes_of_read [simp]: "bytes_of (cp_in (copy_read d err c)) = bytes_of (cp_in c) + of_nat (length d)"
  by (auto simp: bytes_of_def copy_read_def)

lemma copy_write_in [simp]: "cp_in (copy_write werr c) = cp_in c"
  by (simp add: copy_write_def split: copy_pc.splits)

definition counters_ok :: "urelay \<Rightarrow> bool" where
  "counters_ok s \<longleftrightarrow> tk_upload (ur_tracker s) = bytes_of (cp_in (ur_up s))
     \<and> tk_download (ur_tracker s) = bytes_of (cp_in (ur_down s))"

definition started :: "urelay \<Rightarrow> bool" where
  "started s \<longleftrightarrow> cp_pc (ur_up s) \<noteq> CIdle"

definition ended :: "copier \<Rightarrow> nat" where
  "ended c = (if cp_pc c = CEnded then 1 else 0)"

definition signals_ok :: "urelay \<Rightarrow> bool" where
  "signals_ok s \<longleftrightarrow> (cp_pc (ur_down s) \<noteq> CIdle \<longleftrightarrow> started s)
     \<and> (if started s then ended (ur_up s) + ended (ur_down s) = ur_done s + (if UWait < ur_main s then 1 else 0)
        else ur_done s = 0 \<and> UCloseRemote < ur_main s)"

definition conns_ok :: "urelay \<Rightarrow> bool" where
  "conns_ok s \<longleftrightarrow> (ur_stack_open s \<longrightarrow> ur_main s \<le> UCloseStack) \<and> (ur_remote_open s \<longrightarrow> ur_main s \<le> UCloseRemote)"

definition reports_ok :: "urelay \<Rightarrow> bool" where
  "reports_ok s \<longleftrightarrow> length (ur_reports s) = (if ur_main s = UReturned \<and> ur_listener s then 1 else 0)"

lemma copy_read_prefix: "\<exists>z. cp_in (copy_read d err c) = cp_in c @ z"
  by (simp add: copy_read_def)

definition u_inv :: "urelay \<Rightarrow> bool" where
  "u_inv s \<longleftrightarrow> copier_ok (ur_up s) \<and> copier_ok (ur_down s) \<and> counters_ok s \<and> signals_ok s \<and> conns_ok s
     \<and> reports_ok s"

lemma count_fields_u [simp]:
  "ur_up (count_up n s) = ur_up s" "ur_down (count_up n s) = ur_down s" "ur_main (count_up n s) = ur_main s"
  "ur_done (count_up n s) = ur_done s" "ur_stack_open (count_up n s) = ur_stack_open s"
  "ur_remote_open (count_up n s) = ur_remote_open s" "ur_reports (count_up n s) = ur_reports s"
  "ur_listener (count_up n s) = ur_listener s" "ur_now (count_up n s) = ur_now s" "ur_deadline (count_up n s) = ur_deadline s"
  "ur_up (count_down n s) = ur_up s" "ur_down (count_down n s) = ur_down s" "ur_main (count_down n s) = ur_main s"
  "ur_done (count_down n s) = ur_done s" "ur_stack_open (count_down n s) = ur_stack_open s"
  "ur_remote_open (count_down n s) = ur_remote_open s" "ur_reports (count_down n s) = ur_reports s"
  "ur_listener (count_down n s) = ur_listener s" "ur_now (count_down n s) = ur_now s" "ur_deadline (count_down n s) = ur_deadline s"
  by (simp_all add: count_up_def count_down_def)

lemma copy_read_pc [simp]:
  "cp_pc c = CRead \<Longrightarrow> cp_pc (copy_read d err c) \<noteq> CIdle" "cp_pc c = CRead \<Longrightarrow> cp_pc (copy_read d err c) \<noteq> CEnded"
  by (auto simp: copy_read_def)

lemma copy_write_pc [simp]:
  "cp_pc c = CWrite d err \<Longrightarrow> cp_pc (copy_write werr c) \<noteq> CIdle"
  "cp_pc c = CWrite d err \<Longrightarrow> cp_pc (copy_write werr c) \<noteq> CEnded"
  by (auto simp: copy_write_def)

lemma u_inv_copiers: "ustep s s' \<Longrightarrow> u_inv s \<Longrightarrow> copier_ok (ur_up s') \<and> copier_ok (ur_down s')"
  by (erule ustepE)
    (auto simp: u_inv_def udp_report_def read_result_def intro: copier_ok_read copier_ok_write copier_ok_done)

lemma u_inv_counters: "ustep s s' \<Longrightarrow> u_inv s \<Longrightarrow> counters_ok s'"
  by (erule ustepE) (auto simp: u_inv_def udp_report_def counters_ok_def count_up_def count_down_def)

lemma u_inv_signals: "ustep s s' \<Longrightarrow> u_inv s \<Longrightarrow> signals_ok s'"
  by (erule ustepE) (auto simp: u_inv_def udp_report_def signals_ok_def started_def ended_def split: if_splits)

lemma u_inv_conns: "ustep s s' \<Longrightarrow> u_inv s \<Longrightarrow> conns_ok s'"
  by (erule ustepE) (auto simp: u_inv_def udp_report_def conns_ok_def)

lemma ustep_reads:
  "ustep s s' \<Longrightarrow> \<exists>y z. cp_in (ur_up s') = cp_in (ur_up s) @ y \<and> cp_in (ur_down s') = cp_in (ur_down s) @ z"
  by (erule ustepE) (auto simp: udp_report_def copy_read_prefix)

lemma u_inv_reports: "ustep s s' \<Longrightarrow> u_inv s \<Longrightarrow> reports_ok s'"
  by (erule ustepE) (auto simp: u_inv_def udp_report_def reports_ok_def)

lemma u_inv_step: "ustep s s' \<Longrightarrow> u_inv s \<Longrightarrow> u_inv s'"
  by (simp add: u_inv_def [of s'] u_inv_copiers u_inv_counters u_inv_signals u_inv_conns u_inv_reports)

lemma u_inv_tick: "u_inv s \<Longrightarrow> u_inv (s\<lparr>ur_now := t\<rparr>)"
  by (simp add: u_inv_def counters_ok_def signals_ok_def conns_ok_def reports_ok_def started_def
      cong: if_cong)

lemma u_inv_start: "u_inv (relay un addr port created dial start now)"
  by (auto simp: relay_def Let_def relay_start_def copier_new_def makeTracker_def u_inv_def copier_ok_def counters_ok_def
      signals_ok_def started_def ended_def conns_ok_def reports_ok_def bytes_of_def split: option.splits)

lemma ureach_deadline: "ureach un now s \<Longrightarrow> started s \<Longrightarrow> ur_deadline s = now + udpIdleTimeout"
proof (induction rule: ureach.induct)
  case (ur_init addr port created dial start)
  then show ?case by (auto simp: relay_def Let_def relay_start_def started_def copier_new_def split: option.splits if_splits)
next
  case (ur_step s s')
  from ur_step.hyps(2) ur_step.IH ur_step.prems show ?case
    by (cases rule: ustep.cases) (auto simp: udp_report_def started_def)
qed (simp add: started_def)

lemma ureach_inv: "ureach un now s \<Longrightarrow> u_inv s"
  by (induction rule: ureach.induct) (auto intro: u_inv_start u_inv_step u_inv_tick)

lemma ureach_listener: "ureach un now s \<Longrightarrow> ur_listener s = un_listener un"
proof (induction rule: ureach.induct)
  case (ur_init addr port created dial start)
  show ?case by (auto simp: relay_def Let_def relay_start_def split: option.splits)
next
  case (ur_step s s')
  from ur_step.hyps(2) ur_step.IH show ?case by (cases rule: ustep.cases) (auto simp: udp_report_def)
qed simp

subsection \<open>The report and the run\<close>

lemma uafter_reads:
  "uafter\<^sup>*\<^sup>* s s' \<Longrightarrow> \<exists>y z. cp_in (ur_up s') = cp_in (ur_up s) @ y \<and> cp_in (ur_down s') = cp_in (ur_down s) @ z"
proof (induction rule: rtranclp_induct)
  case (step t u)
  have "\<exists>y z. cp_in (ur_up u) = cp_in (ur_up t) @ y \<and> cp_in (ur_down u) = cp_in (ur_down t) @ z"
    using step.hyps(2) ustep_reads [of t u] by (auto simp: uafter_def)
  then show ?case using step.IH by fastforce
qed simp

text \<open>A report comes from one state of the run, the one in which the deferred function ran.\<close>

lemma report_origin:
  "ureach un now s \<Longrightarrow> r \<in> set (ur_reports s) \<Longrightarrow> \<exists>s0. ureach un now s0 \<and> ur_main s0 = UReport
     \<and> r = relay_summary (ur_now s0) (ur_tracker s0) \<and> uafter\<^sup>*\<^sup>* (udp_report s0) s"
proof (induction rule: ureach.induct)
  case (ur_init addr port created dial start)
  then show ?case by (auto simp: relay_def Let_def relay_start_def split: option.splits if_splits)
next
  case (ur_step s s')
  have after: "uafter s s'" using ur_step.hyps(2) by (simp add: uafter_def)
  show ?case
  proof (cases "r \<in> set (ur_reports s)")
    case True
    then show ?thesis using ur_step.IH rtranclp.rtrancl_into_rtrancl [of uafter, OF _ after] by blast
  next
    case False
    have "ur_main s = UReport \<and> s' = udp_report s \<and> r = relay_summary (ur_now s) (ur_tracker s)"
      using ur_step.hyps(2) False ur_step.prems by (cases rule: ustep.cases) (auto simp: udp_report_def split: if_splits)
    then show ?thesis using ur_step.hyps(1) by blast
  qed
next
  case (ur_tick s t)
  then have "uafter s (s\<lparr>ur_now := t\<rparr>)" by (auto simp: uafter_def)
  then show ?case using ur_tick.IH ur_tick.prems rtranclp.rtrancl_into_rtrancl [of uafter] by fastforce
qed

subsection \<open>Properties\<close>

text \<open>
  C15. A UDP flow leaves nothing behind: once \<open>relay\<close> has returned, by whichever way, both ends are closed, a
  listener has had its one report and had none before; and a copying goroutine that has come to its end finds room
  in the channel, so that neither is left blocked. The report counts, modulo 2 to the 64, exactly the bytes that the two
  goroutines had read when the deferred function ran, which are a first part of what they read in all.
\<close>

theorem udp_relay_cleans_up:
  assumes "ureach un now s"
  shows "(ur_main s = UReturned \<longrightarrow> \<not> ur_stack_open s \<and> \<not> ur_remote_open s)
    \<and> length (ur_reports s) = (if ur_main s = UReturned \<and> un_listener un then 1 else 0)
    \<and> (cp_pc (ur_up s) = CDone \<or> cp_pc (ur_down s) = CDone \<longrightarrow> ur_done s < 2)
    \<and> (\<forall>r\<in>set (ur_reports s). \<exists>s0 y z. ureach un now s0 \<and> ur_main s0 = UReport \<and> uafter\<^sup>*\<^sup>* (udp_report s0) s
         \<and> us_UploadBytes r = of_nat (length (concat (cp_in (ur_up s0))))
         \<and> us_DownloadBytes r = of_nat (length (concat (cp_in (ur_down s0))))
         \<and> cp_in (ur_up s) = cp_in (ur_up s0) @ y \<and> cp_in (ur_down s) = cp_in (ur_down s0) @ z)"
proof -
  note inv = ureach_inv [OF assms]
  have "ur_done s < 2" if "cp_pc (ur_up s) = CDone \<or> cp_pc (ur_down s) = CDone"
    using inv that by (auto simp: u_inv_def signals_ok_def started_def ended_def split: if_splits)
  moreover have "\<exists>s0 y z. ureach un now s0 \<and> ur_main s0 = UReport \<and> uafter\<^sup>*\<^sup>* (udp_report s0) s
      \<and> us_UploadBytes r = of_nat (length (concat (cp_in (ur_up s0))))
      \<and> us_DownloadBytes r = of_nat (length (concat (cp_in (ur_down s0))))
      \<and> cp_in (ur_up s) = cp_in (ur_up s0) @ y \<and> cp_in (ur_down s) = cp_in (ur_down s0) @ z" if r: "r \<in> set (ur_reports s)" for r
  proof -
    obtain s0 where s0: "ureach un now s0" "ur_main s0 = UReport" "r = relay_summary (ur_now s0) (ur_tracker s0)"
        "uafter\<^sup>*\<^sup>* (udp_report s0) s"
      using report_origin [OF assms r] by blast
    obtain y z where "cp_in (ur_up s) = cp_in (ur_up s0) @ y" "cp_in (ur_down s) = cp_in (ur_down s0) @ z"
      using uafter_reads [OF s0(4)] by (auto simp: udp_report_def)
    moreover have "counters_ok s0" using ureach_inv [OF s0(1)] by (simp add: u_inv_def)
    ultimately show ?thesis
      using s0 by (intro exI [of _ s0] exI [of _ y] exI [of _ z]) (simp add: counters_ok_def bytes_of_def relay_summary_def)
  qed
  ultimately show ?thesis
    using inv ureach_listener [OF assms] by (auto simp: u_inv_def conns_ok_def reports_ok_def)
qed

text \<open>
  C39. In each direction every datagram that is passed on is one that was read, whole and in order, and at most one
  that was read is not passed on: the last, when its write fails. The counter is the number of bytes read,
  modulo 2 to the 64, so that it counts that one too.
\<close>

theorem udp_relay_order:
  assumes "ureach un now s" and "c = ur_up s \<and> n = tk_upload (ur_tracker s) \<or> c = ur_down s \<and> n = tk_download (ur_tracker s)"
  shows "(cp_out c = cp_in c \<or> cp_in c \<noteq> [] \<and> cp_out c = butlast (cp_in c))
    \<and> n = of_nat (length (concat (cp_in c)))"
proof -
  note inv = ureach_inv [OF assms(1)]
  have "copier_ok c" "n = bytes_of (cp_in c)" using inv assms(2) by (auto simp: u_inv_def counters_ok_def)
  moreover have "cp_in c = cp_out c \<or> (\<exists>d. cp_in c = cp_out c @ [d])"
    using \<open>copier_ok c\<close> unfolding copier_ok_def by (cases "cp_pc c") simp_all
  then have "cp_out c = cp_in c \<or> cp_in c \<noteq> [] \<and> cp_out c = butlast (cp_in c)" by fastforce
  ultimately show ?thesis by (simp add: bytes_of_def)
qed

text \<open>How much a relay whose deadline has passed can still do.\<close>

fun copy_work :: "copy_pc \<Rightarrow> nat" where
  "copy_work CIdle = 0" | "copy_work CRead = 2" | "copy_work (CWrite d err) = 2" | "copy_work CDone = 1"
| "copy_work CEnded = 0"

definition udp_work :: "urelay \<Rightarrow> nat" where
  "udp_work s = copy_work (cp_pc (ur_up s)) + copy_work (cp_pc (ur_down s)) + (4 - udp_rank (ur_main s))"

lemma expired_read: "read_result True d err \<Longrightarrow> cp_pc c = CRead \<Longrightarrow> copy_read d err c = c\<lparr>cp_pc := CDone\<rparr>"
  by (simp add: read_result_def copy_read_def)

lemma expired_write: "werr \<noteq> None \<Longrightarrow> cp_pc c = CWrite d err \<Longrightarrow> copy_write werr c = c\<lparr>cp_pc := CDone\<rparr>"
  by (simp add: copy_write_def)

lemma expired_step:
  assumes "ustep s s'" and "u_inv s" and "started s \<Longrightarrow> expired s"
  shows "udp_work s' < udp_work s \<and> ur_now s' = ur_now s \<and> cp_out (ur_up s') = cp_out (ur_up s)
    \<and> cp_out (ur_down s') = cp_out (ur_down s)"
proof (cases "started s")
  case True
  then have d: "stack_dead s" "remote_dead s" using assms(3) by (simp_all add: stack_dead_def remote_dead_def)
  show ?thesis
    using assms(1) d
    by (cases rule: ustep.cases) (auto simp: udp_work_def udp_report_def expired_read expired_write)
next
  case False
  then have "cp_pc (ur_up s) = CIdle" "cp_pc (ur_down s) = CIdle"
    using assms(2) by (auto simp: u_inv_def signals_ok_def started_def)
  with assms(1) show ?thesis by (cases rule: ustep.cases) (auto simp: udp_work_def udp_report_def)
qed

lemma expired_progress:
  assumes "u_inv s" and "\<forall>s'. \<not> ustep s s'"
  shows "ur_main s = UReturned \<and> copy_work (cp_pc (ur_up s)) = 0 \<and> copy_work (cp_pc (ur_down s)) = 0"
proof -
  have rd: "read_result b [] (Some e)" for b e by (simp add: read_result_def)
  have done2: "ur_done s < 2" if "cp_pc (ur_up s) = CDone \<or> cp_pc (ur_down s) = CDone"
    using assms(1) that by (auto simp: u_inv_def signals_ok_def started_def ended_def split: if_splits)
  have up: "cp_pc (ur_up s) \<in> {CIdle, CEnded}"
    using assms(2) u_up_read [OF _ rd] u_up_write [of s _ _ "Some EEOF"] u_up_done done2
    by (cases "cp_pc (ur_up s)") (simp_all, blast+)
  have down: "cp_pc (ur_down s) \<in> {CIdle, CEnded}"
    using assms(2) u_down_read [OF _ rd] u_down_write [of s _ _ "Some EEOF"] u_down_done done2
    by (cases "cp_pc (ur_down s)") (simp_all, blast+)
  have "ur_main s \<noteq> UWait"
    using assms up down u_wait [of s] by (auto simp: u_inv_def signals_ok_def started_def ended_def split: if_splits)
  then have "ur_main s = UReturned"
    using assms(2) u_close_remote [of s] u_close_stack [of s] u_report [of s] by (cases "ur_main s") blast+
  then show ?thesis using up down by auto
qed

text \<open>
  C16. Five minutes after its dial a UDP flow is over, however busy it is: from then on nothing more is passed on,
  every step takes the relay and its goroutines nearer to their end, and when they can go no further all three have
  ended.
\<close>

theorem udp_relay_expires:
  assumes "ureach un now s" and "now + 300 * second \<le> ur_now s"
  shows "(\<forall>s'. ustep s s' \<longrightarrow> udp_work s' < udp_work s \<and> ur_now s' = ur_now s
      \<and> cp_out (ur_up s') = cp_out (ur_up s) \<and> cp_out (ur_down s') = cp_out (ur_down s))
    \<and> ((\<forall>s'. \<not> ustep s s') \<longrightarrow> ur_main s = UReturned \<and> cp_pc (ur_up s) \<in> {CIdle, CEnded}
      \<and> cp_pc (ur_down s) \<in> {CIdle, CEnded})"
proof -
  note inv = ureach_inv [OF assms(1)]
  have "started s \<Longrightarrow> expired s"
    using ureach_deadline [OF assms(1)] assms(2) by (simp add: expired_def udpIdleTimeout_def)
  moreover have "c \<in> {CIdle, CEnded}" if "copy_work c = 0" for c using that by (cases c) auto
  ultimately show ?thesis using expired_step [OF _ inv] expired_progress [OF inv] by blast
qed

subsection \<open>Witnesses\<close>

text \<open>A flow in which one datagram came from the client and was passed on.\<close>

definition sample_nat :: "unit UdpNat" where
  "sample_nat = \<lparr>un_fakeDNSAddr = \<lparr>ap_Addr = Addr4 [10, 111, 222, 3], ap_Port = 53\<rparr>, un_dns = (),
     un_dialer = MakeDialer None, un_listener = True\<rparr>"

definition sample_relay :: urelay where
  "sample_relay = relay sample_nat [8, 8, 8, 8] 123 True (\<lambda>_. None) 0 5"

definition sample_sent :: urelay where
  "sample_sent = (count_up 2 sample_relay)\<lparr>ur_up := \<lparr>cp_pc = CRead, cp_in = [[1, 2]], cp_out = [[1, 2]]\<rparr>\<rparr>"

lemma sample_relay_eq:
  "sample_relay = (relay_start True 0)\<lparr>ur_now := 5, ur_stack_open := True, ur_remote_open := True,
     ur_deadline := 5 + udpIdleTimeout, ur_main := UWait, ur_up := copier_new\<lparr>cp_pc := CRead\<rparr>,
     ur_down := copier_new\<lparr>cp_pc := CRead\<rparr>\<rparr>"
  by (simp add: sample_relay_def relay_def addrPortFromTCPUIP_def sample_nat_def Let_def)

lemma sample_sent_reach: "ureach sample_nat 5 sample_sent"
proof -
  let ?c = "\<lparr>cp_pc = CWrite [1, 2] None, cp_in = [[1, 2]], cp_out = []\<rparr>"
  let ?s = "(count_up 2 sample_relay)\<lparr>ur_up := ?c\<rparr>"
  have "ustep sample_relay ((count_up (length [1, 2 :: 8 word]) sample_relay)\<lparr>ur_up := copy_read [1, 2] None (ur_up sample_relay)\<rparr>)"
    by (rule u_up_read)
      (simp_all add: sample_relay_eq copier_new_def read_result_def stack_dead_def expired_def udpIdleTimeout_def second_def)
  then have "ustep sample_relay ?s" by (simp add: sample_relay_eq copy_read_def copier_new_def numeral_2_eq_2)
  then have reach: "ureach sample_nat 5 ?s" using ur_step [OF ur_init] unfolding sample_relay_def by blast
  have "ustep ?s (?s\<lparr>ur_up := copy_write None (ur_up ?s)\<rparr>)"
    by (rule u_up_write [of _ "[1, 2]" None])
      (simp_all add: sample_relay_eq count_up_def remote_dead_def expired_def udpIdleTimeout_def second_def)
  then have "ustep ?s sample_sent" by (simp add: copy_write_def sample_sent_def)
  with reach show ?thesis by (rule ur_step)
qed

text \<open>The same flow after the client's end has given an error: the relay has closed both ends and reported the two bytes.\<close>

definition sample_returned :: urelay where
  "sample_returned = udp_report (sample_sent\<lparr>ur_up := \<lparr>cp_pc = CEnded, cp_in = [[1, 2]], cp_out = [[1, 2]]\<rparr>, ur_done := 0,
     ur_remote_open := False, ur_main := UReport, ur_stack_open := False\<rparr>)"

lemma sample_sent_fields: "ur_main sample_sent = UWait" "ur_done sample_sent = 0" "ur_listener sample_sent"
  "ur_up sample_sent = \<lparr>cp_pc = CRead, cp_in = [[1, 2]], cp_out = [[1, 2]]\<rparr>" "ur_reports sample_sent = []"
  by (simp_all add: sample_sent_def sample_relay_eq relay_start_def)

lemma sample_returned_reach: "ureach sample_nat 5 sample_returned"
proof -
  let ?c = "\<lparr>cp_pc = CDone, cp_in = [[1, 2]], cp_out = [[1, 2]]\<rparr>"
  let ?s1 = "sample_sent\<lparr>ur_up := ?c\<rparr>"
  let ?s2 = "?s1\<lparr>ur_up := ?c\<lparr>cp_pc := CEnded\<rparr>, ur_done := 1\<rparr>"
  let ?s3 = "?s2\<lparr>ur_main := UCloseRemote, ur_done := 0\<rparr>"
  let ?s4 = "?s3\<lparr>ur_main := UCloseStack, ur_remote_open := False\<rparr>"
  let ?s5 = "?s4\<lparr>ur_main := UReport, ur_stack_open := False\<rparr>"
  have "ustep sample_sent ((count_up (length ([] :: bytes)) sample_sent)\<lparr>ur_up := copy_read [] (Some EEOF) (ur_up sample_sent)\<rparr>)"
    by (rule u_up_read) (simp_all add: sample_sent_fields read_result_def)
  then have "ustep sample_sent ?s1" by (simp add: copy_read_def sample_sent_fields count_up_def)
  note 1 = ur_step [OF sample_sent_reach this]
  have "ustep ?s1 ?s2" using u_up_done [of ?s1] sample_sent_fields by simp
  note 2 = ur_step [OF 1 this]
  have "ustep ?s2 ?s3" using u_wait [of ?s2] sample_sent_fields by simp
  note 3 = ur_step [OF 2 this]
  have "ustep ?s3 ?s4" using u_close_remote [of ?s3] by simp
  note 4 = ur_step [OF 3 this]
  have "ustep ?s4 ?s5" using u_close_stack [of ?s4] by simp
  note 5 = ur_step [OF 4 this]
  have "ustep ?s5 (udp_report ?s5)" by (rule u_report) simp
  from ur_step [OF 5 this] show ?thesis by (simp add: sample_returned_def)
qed

theorem udp_relay_cleans_up_witness:
  "ur_main sample_returned = UReturned \<and> \<not> ur_stack_open sample_returned \<and> \<not> ur_remote_open sample_returned
    \<and> (\<exists>r s0. ur_reports sample_returned = [r] \<and> us_UploadBytes r = 2 \<and> ureach sample_nat 5 s0
         \<and> us_UploadBytes r = of_nat (length (concat (cp_in (ur_up s0)))))"
proof -
  have ret: "ur_main sample_returned = UReturned" by (simp add: sample_returned_def udp_report_def)
  obtain r where r: "ur_reports sample_returned = [r]" "us_UploadBytes r = tk_upload (ur_tracker sample_sent)"
    by (simp add: sample_returned_def udp_report_def sample_sent_fields relay_summary_def)
  have "tk_upload (ur_tracker sample_sent) = 2"
    by (simp add: sample_sent_def sample_relay_eq count_up_def relay_start_def makeTracker_def)
  then show ?thesis using udp_relay_cleans_up [OF sample_returned_reach] ret r by auto
qed

theorem udp_relay_order_witness:
  "tk_upload (ur_tracker sample_sent) = of_nat (length (concat (cp_in (ur_up sample_sent)))) \<and> cp_out (ur_up sample_sent) = [[1, 2]]"
  using udp_relay_order [OF sample_sent_reach, of "ur_up sample_sent"] by (auto simp: sample_sent_def)

theorem udp_relay_expires_witness:
  "\<exists>s'. ustep (sample_sent\<lparr>ur_now := 400 * second\<rparr>) s' \<and> cp_out (ur_up s') = [[1, 2]]"
proof -
  let ?s = "sample_sent\<lparr>ur_now := 400 * second\<rparr>"
  have r: "ureach sample_nat 5 ?s"
    by (rule ur_tick [OF sample_sent_reach]) (simp add: sample_sent_def sample_relay_eq second_def)
  have t: "5 + 300 * second \<le> ur_now ?s" by (simp add: second_def)
  have "ur_main ?s \<noteq> UReturned" by (simp add: sample_sent_def sample_relay_eq)
  then obtain s' where "ustep ?s s'" using udp_relay_expires [OF r t] by blast
  moreover have "cp_out (ur_up ?s) = [[1, 2]]" by (simp add: sample_sent_def)
  ultimately show ?thesis using udp_relay_expires [OF r t] by (intro exI [of _ s']) simp
qed

end
