(* ===== verification/Forwarder.thy ===== *)
theory Forwarder
  imports Transport
begin

section \<open>The TCP forwarder of the netstack (transport/stack/tcp_forwarder.go)\<close>

text \<open>
  \<open>handleTCPForwarder\<close> accepts the flow of a local client, dials its destination and runs two \<open>relayTCP\<close>
  goroutines; the first that ends lets it close both connections. The netstack's connection is gVisor's: that it
  implements \<open>split.DuplexConn\<close> or not is the field \<open>fl_duplex\<close>, and of its state only the closing is kept. The
  goroutines, the handler and the waiting goroutine of the wrapped connection are a step relation.
\<close>

subsection \<open>Start of a flow\<close>

text \<open>
  The result of \<open>CreateEndpoint\<close>, and of \<open>DialTCP\<close> as a function of the destination. The request is completed,
  and so the client's handshake answered, before the destination is dialled.
\<close>

datatype 'r tcp_start = TcpIgnored | TcpNoEndpoint | TcpDialFailed goerr | TcpRelaying "'r dialled_conn"

definition stack_addrPortFromTCPUIP :: "bytes \<Rightarrow> u16 \<Rightarrow> addr_port option" where
  "stack_addrPortFromTCPUIP b port =
     (if length b = 0 then None
      else if length b = 4 then Some \<lparr>ap_Addr = Addr4 b, ap_Port = port\<rparr>
      else if length b = 16 then Some \<lparr>ap_Addr = Addr16 b, ap_Port = port\<rparr>
      else None)"

lemma stack_addrPort_eq: "stack_addrPortFromTCPUIP = addrPortFromTCPUIP"
  by (intro ext) (simp add: stack_addrPortFromTCPUIP_def addrPortFromTCPUIP_def)

definition handleTCPForwarder :: "bytes \<Rightarrow> u16 \<Rightarrow> bool \<Rightarrow> (addr_port \<Rightarrow> goerr + 'r dialled_conn) \<Rightarrow> 'r tcp_start" where
  "handleTCPForwarder addr port created dial =
     (case stack_addrPortFromTCPUIP addr port of
        None \<Rightarrow> TcpIgnored
      | Some dest \<Rightarrow>
          if \<not> created then TcpNoEndpoint
          else case dial dest of Inl err \<Rightarrow> TcpDialFailed err | Inr outConn \<Rightarrow> TcpRelaying outConn)"

subsection \<open>The relays\<close>

text \<open>
  A \<open>relayTCP\<close> is in \<open>io.Copy\<close> with \<open>n\<close> bytes moved, past it, or at its end. \<open>io.Copy\<close> uses \<open>ReadFrom\<close> and
  \<open>WriteTo\<close> of the wrapped connection, which add to the statistics when they return and not before. On the outgoing
  connection they act as the socket, or as the writer and the reader of the split-retry connection (\<open>Retrier\<close>):
  \<open>fl_w\<close>, \<open>fl_acc\<close> and \<open>fl_mode\<close> are where its writer is, what it got accepted and how the connection was settled.
  \<open>fl_err\<close> is what the deferred \<open>outConn.Close()\<close> returned, which the code drops.
\<close>

datatype relay_pc = Copying nat | Copied nat | Ended nat

datatype handler_pc = Waiting | ClosingOut | ClosingStack | Returned

record flow =
  fl_conn :: wrapped
  fl_w :: wpc
  fl_acc :: bytes
  fl_mode :: mode
  fl_up :: relay_pc
  fl_down :: relay_pc
  fl_main :: handler_pc
  fl_duplex :: bool
  fl_stack_rshut :: bool
  fl_stack_wshut :: bool
  fl_stack_closed :: bool
  fl_err :: "goerr option"

definition flow_start :: "bool \<Rightarrow> wrapped \<Rightarrow> flow" where
  "flow_start duplex outConn = \<lparr>fl_conn = outConn, fl_w = WIdle, fl_acc = [], fl_mode = Provisional, fl_up = Copying 0,
     fl_down = Copying 0, fl_main = Waiting, fl_duplex = duplex, fl_stack_rshut = False, fl_stack_wshut = False,
     fl_stack_closed = False, fl_err = None\<rparr>"

text \<open>
  The inner connection of a flow with a socket, and with a split-retry connection in a state of its threads that has no
  close call under way; that state.
\<close>

definition set_socket :: "tcp_conn \<Rightarrow> flow \<Rightarrow> flow" where
  "set_socket c f = f\<lparr>fl_conn := (fl_conn f)\<lparr>w_conn := DPlain c\<rparr>\<rparr>"

definition set_threads :: "rsys \<Rightarrow> flow \<Rightarrow> flow" where
  "set_threads t f = f\<lparr>fl_conn := (fl_conn f)\<lparr>w_conn := DSplit (s_r t)\<rparr>, fl_w := s_w t, fl_acc := s_acc t, fl_mode := s_mode t\<rparr>"

definition flow_threads :: "retrier \<Rightarrow> flow \<Rightarrow> rsys" where
  "flow_threads r f = \<lparr>s_r = r, s_w = fl_w f, s_cr = False, s_cw = False, s_acc = fl_acc f, s_mode = fl_mode f\<rparr>"

text \<open>A step of the writer of a split-retry connection, or of its reader: no close call begins in it.\<close>

definition threads_step :: "retrier \<Rightarrow> flow \<Rightarrow> rsys \<Rightarrow> bool" where
  "threads_step r f t \<longleftrightarrow> w_conn (fl_conn f) = DSplit r \<and> rstep (flow_threads r f) t \<and> \<not> s_cr t \<and> \<not> s_cw t"

text \<open>The end of \<open>relayTCP(outConn, stackConn)\<close> and of \<open>relayTCP(stackConn, outConn)\<close>.\<close>

definition up_half_close :: "flow \<Rightarrow> flow" where
  "up_half_close f = f\<lparr>fl_conn := fst (wrap_CloseWrite (fl_conn f)), fl_stack_rshut := fl_stack_rshut f \<or> fl_duplex f\<rparr>"

definition down_half_close :: "flow \<Rightarrow> flow" where
  "down_half_close f = f\<lparr>fl_stack_wshut := fl_stack_wshut f \<or> fl_duplex f, fl_conn := fst (wrap_CloseRead (fl_conn f))\<rparr>"

definition relay_ended :: "relay_pc \<Rightarrow> bool" where
  "relay_ended pc = (case pc of Ended n \<Rightarrow> True | _ \<Rightarrow> False)"

text \<open>The handler's own steps, and the one of the goroutine that waits on the wrapped connection's wait group.\<close>

inductive hstep :: "flow \<Rightarrow> flow \<Rightarrow> bool" where
  f_done: "fl_main f = Waiting \<Longrightarrow> relay_ended (fl_up f) \<or> relay_ended (fl_down f) \<Longrightarrow>
     hstep f (f\<lparr>fl_main := ClosingOut\<rparr>)"
| f_close_out: "fl_main f = ClosingOut \<Longrightarrow>
     hstep f (f\<lparr>fl_main := ClosingStack, fl_conn := fst (wrap_Close (fl_conn f)), fl_err := snd (wrap_Close (fl_conn f))\<rparr>)"
| f_close_stack: "fl_main f = ClosingStack \<Longrightarrow> hstep f (f\<lparr>fl_main := Returned, fl_stack_closed := True\<rparr>)"
| f_report: "w_wg (fl_conn f) = 0 \<Longrightarrow> w_waiting (fl_conn f) \<Longrightarrow> hstep f (f\<lparr>fl_conn := fire now (fl_conn f)\<rparr>)"

inductive_cases hstepE: "hstep f f'"

text \<open>
  All steps: the relays' besides. A move upwards counts what the connection took, one downwards what the client took. A plain
  socket can be reset by its peer; for a split-retry connection this is a step of \<open>Retrier\<close>.
\<close>

inductive fstep :: "flow \<Rightarrow> flow \<Rightarrow> bool" where
  f_own: "hstep f f' \<Longrightarrow> fstep f f'"
| f_up_plain: "fl_up f = Copying k \<Longrightarrow> w_conn (fl_conn f) = DPlain c \<Longrightarrow> tcp_write c b = (c', n, e) \<Longrightarrow>
     fstep f ((set_socket c' f)\<lparr>fl_up := Copying (k + n)\<rparr>)"
| f_up_split: "fl_up f = Copying k \<Longrightarrow> threads_step r f t \<Longrightarrow> s_mode t = fl_mode f \<Longrightarrow> s_acc t = fl_acc f @ b \<Longrightarrow>
     fstep f ((set_threads t f)\<lparr>fl_up := Copying (k + length b)\<rparr>)"
| f_up_copied: "fl_up f = Copying k \<Longrightarrow> fstep f (f\<lparr>fl_up := Copied k, fl_conn := count_upload k (fl_conn f)\<rparr>)"
| f_up_end: "fl_up f = Copied k \<Longrightarrow> fstep f ((up_half_close f)\<lparr>fl_up := Ended k\<rparr>)"
| f_down_split: "fl_down f = Copying k \<Longrightarrow> threads_step r f t \<Longrightarrow> s_w t = fl_w f \<Longrightarrow> s_acc t = fl_acc f \<Longrightarrow>
     fstep f (set_threads t f)"
| f_down_move: "fl_down f = Copying k \<Longrightarrow> fstep f (f\<lparr>fl_down := Copying (k + n)\<rparr>)"
| f_down_copied: "fl_down f = Copying k \<Longrightarrow> fstep f (f\<lparr>fl_down := Copied k, fl_conn := count_download k (fl_conn f)\<rparr>)"
| f_down_end: "fl_down f = Copied k \<Longrightarrow> fstep f ((down_half_close f)\<lparr>fl_down := Ended k\<rparr>)"
| f_reset: "w_conn (fl_conn f) = DPlain c \<Longrightarrow> c_shut c = None \<Longrightarrow> fstep f (set_socket (c\<lparr>c_shut := Some err\<rparr>) f)"

inductive_cases fstepE: "fstep f f'"

text \<open>The flows that start with what \<open>DialTCP\<close> returns for a socket that was just dialled.\<close>

inductive freach :: "'r OutboundDialer \<Rightarrow> flow \<Rightarrow> bool" for od :: "'r OutboundDialer" where
  fr_start: "DialTCP od before (Inr c) after dest tcp = Inr (Wrapped w) \<Longrightarrow> fresh_conn c \<Longrightarrow> freach od (flow_start duplex w)"
| fr_step: "freach od f \<Longrightarrow> fstep f f' \<Longrightarrow> freach od f'"

subsection \<open>Invariant\<close>

definition counted :: "relay_pc \<Rightarrow> i64" where
  "counted pc = (case pc of Copying n \<Rightarrow> 0 | Copied n \<Rightarrow> of_nat n | Ended n \<Rightarrow> of_nat n)"

definition f_inv :: "flow \<Rightarrow> bool" where
  "f_inv f \<longleftrightarrow> w_inv (fl_conn f) \<and> w_pending (fl_conn f) = 0
     \<and> (relay_ended (fl_up f) \<longrightarrow> w_wDone (fl_conn f)) \<and> (relay_ended (fl_down f) \<longrightarrow> w_rDone (fl_conn f))
     \<and> (fl_main f \<in> {ClosingStack, Returned} \<longrightarrow> w_rDone (fl_conn f) \<and> w_wDone (fl_conn f))
     \<and> (fl_main f = Returned \<longleftrightarrow> fl_stack_closed f)
     \<and> (fl_main f \<noteq> Waiting \<longrightarrow> relay_ended (fl_up f) \<or> relay_ended (fl_down f))
     \<and> ts_UploadBytes (w_stats (fl_conn f)) = counted (fl_up f)
     \<and> ts_DownloadBytes (w_stats (fl_conn f)) = counted (fl_down f)"

lemmas wrap_defs = wrap_CloseRead_def wrap_CloseWrite_def wrap_Close_def close_r_def close_w_def cas_r_def cas_w_def
  wg_Done_def count_download_def count_upload_def

lemma wrap_ops [simp]:
  "w_wDone (fst (wrap_CloseWrite w))" "w_rDone (fst (wrap_CloseWrite w)) = w_rDone w"
  "w_rDone (fst (wrap_CloseRead w))" "w_wDone (fst (wrap_CloseRead w)) = w_wDone w"
  "w_rDone (fst (wrap_Close w))" "w_wDone (fst (wrap_Close w))"
  "w_pending (fst (wrap_CloseWrite w)) = w_pending w" "w_pending (fst (wrap_CloseRead w)) = w_pending w"
  "w_pending (fst (wrap_Close w)) = w_pending w"
  "w_stats (fst (wrap_CloseWrite w)) = w_stats w" "w_stats (fst (wrap_CloseRead w)) = w_stats w"
  "w_stats (fst (wrap_Close w)) = w_stats w"
  "w_waiting (fst (wrap_Close w)) = w_waiting w" "w_listener (fst (wrap_Close w)) = w_listener w"
  "w_waiting (fst (wrap_CloseRead w)) = w_waiting w" "w_listener (fst (wrap_CloseRead w)) = w_listener w"
  "w_waiting (fst (wrap_CloseWrite w)) = w_waiting w" "w_listener (fst (wrap_CloseWrite w)) = w_listener w"
  by (simp_all add: wrap_defs split: prod.splits)

lemma w_inv_ops:
  assumes "w_inv w"
  shows "w_inv (fst (wrap_CloseRead w))" "w_inv (fst (wrap_CloseWrite w))" "w_inv (fst (wrap_Close w))"
    "w_inv (w\<lparr>w_conn := d\<rparr>)" "w_inv (count_upload n w)" "w_inv (count_download n w)"
    "w_wg w = 0 \<Longrightarrow> w_waiting w \<Longrightarrow> w_inv (fire now w)"
  using assms by (cases "w_rDone w"; cases "w_wDone w"; cases "w_waiting w";
      auto simp: w_inv_def wrap_defs fire_def Let_def split: prod.splits)+

lemma relay_ended_simps [simp]:
  "\<not> relay_ended (Copying n)" "\<not> relay_ended (Copied n)" "relay_ended (Ended n)"
  by (simp_all add: relay_ended_def)

lemma counted_simps [simp]: "counted (Copying n) = 0" "counted (Copied n) = of_nat n" "counted (Ended n) = of_nat n"
  by (simp_all add: counted_def)

lemma fire_fields [simp]:
  "w_rDone (fire now w) = w_rDone w" "w_wDone (fire now w) = w_wDone w" "w_pending (fire now w) = w_pending w"
  "ts_UploadBytes (w_stats (fire now w)) = ts_UploadBytes (w_stats w)"
  "ts_DownloadBytes (w_stats (fire now w)) = ts_DownloadBytes (w_stats w)"
  "\<not> w_waiting (fire now w)" "w_listener (fire now w) = w_listener w"
  by (simp_all add: fire_def Let_def)

lemma count_fields [simp]:
  "w_rDone (count_upload n w) = w_rDone w" "w_wDone (count_upload n w) = w_wDone w" "w_pending (count_upload n w) = w_pending w"
  "w_rDone (count_download n w) = w_rDone w" "w_wDone (count_download n w) = w_wDone w"
  "w_pending (count_download n w) = w_pending w"
  "ts_UploadBytes (w_stats (count_upload n w)) = ts_UploadBytes (w_stats w) + of_nat n"
  "ts_DownloadBytes (w_stats (count_upload n w)) = ts_DownloadBytes (w_stats w)"
  "ts_UploadBytes (w_stats (count_download n w)) = ts_UploadBytes (w_stats w)"
  "ts_DownloadBytes (w_stats (count_download n w)) = ts_DownloadBytes (w_stats w) + of_nat n"
  by (simp_all add: count_upload_def count_download_def)

lemma f_inv_own: "hstep f f' \<Longrightarrow> f_inv f \<Longrightarrow> f_inv f'"
  by (erule hstepE) (auto simp: f_inv_def w_inv_ops)

lemma f_inv_step: "fstep f f' \<Longrightarrow> f_inv f \<Longrightarrow> f_inv f'"
proof (erule fstepE, rule f_inv_own)
qed (simp_all add: f_inv_def up_half_close_def down_half_close_def set_socket_def set_threads_def w_inv_ops)

lemma f_inv_start:
  assumes "DialTCP od before res after dest tcp = Inr (Wrapped w)"
  shows "f_inv (flow_start duplex w)"
proof -
  obtain c st where w: "w = makeTCPWrapConn after c st (od_listener od)"
      and st: "ts_UploadBytes st = 0" "ts_DownloadBytes st = 0"
    using assms
    by (auto simp: DialTCP_def od_dial_def makeTCPSocketSummary_def Let_def split: if_splits sum.splits)
  have "w_inv w" unfolding w by (simp add: w_inv_def makeTCPWrapConn_def)
  then show ?thesis using w st by (simp add: f_inv_def flow_start_def makeTCPWrapConn_def)
qed

lemma freach_inv: "freach od f \<Longrightarrow> f_inv f"
  by (induction rule: freach.induct) (auto intro: f_inv_start f_inv_step)

subsection \<open>The outgoing connection\<close>

text \<open>
  The operations of the wrapped connection on the inner one. Those of a split-retry connection are steps of its threads, so
  that what holds of these in every interleaving holds of the flow.
\<close>

lemma wrap_inner [simp]:
  "w_conn (fst (wrap_CloseRead w)) = fst (duplex_CloseRead (w_conn w))"
  "w_conn (fst (wrap_CloseWrite w)) = fst (duplex_CloseWrite (w_conn w))"
  "w_conn (fst (wrap_Close w)) = fst (duplex_Close (w_conn w))"
  "snd (wrap_Close w) = snd (duplex_Close (w_conn w))"
  "w_conn (count_upload n w) = w_conn w" "w_conn (count_download n w) = w_conn w" "w_conn (fire now w) = w_conn w"
  by (simp_all add: wrap_defs fire_def Let_def split: prod.splits)

lemma retrier_CloseRead_threads:
  assumes "rreach (flow_threads r f)"
  shows "rreach (flow_threads (fst (retrier_CloseRead r)) f)"
proof -
  have "rreach ((flow_threads r f)\<lparr>s_r := closeRead_store r, s_cr := True\<rparr>)"
    using rreach.step [OF assms close_read_store] by (simp add: flow_threads_def)
  from rreach.step [OF this close_read_lock] show ?thesis by (simp add: flow_threads_def retrier_CloseRead_def)
qed

lemma retrier_CloseWrite_threads:
  assumes "rreach (flow_threads r f)"
  shows "rreach (flow_threads (fst (retrier_CloseWrite r)) f)"
proof -
  have "rreach ((flow_threads r f)\<lparr>s_r := closeWrite_store r, s_cw := True\<rparr>)"
    using rreach.step [OF assms close_write_store] by (simp add: flow_threads_def)
  from rreach.step [OF this close_write_lock] show ?thesis by (simp add: flow_threads_def retrier_CloseWrite_def)
qed

lemma retrier_Close_threads:
  assumes "rreach (flow_threads r f)"
  shows "rreach (flow_threads (fst (retrier_Close r)) f)"
proof -
  obtain r1 e where w: "retrier_CloseWrite r = (r1, e)" by (metis prod.exhaust)
  then have "rreach (flow_threads r1 f)" using retrier_CloseWrite_threads [OF assms] by simp
  then show ?thesis using w retrier_CloseRead_threads by (cases e) (simp_all add: retrier_Close_def)
qed

lemma retrier_close_flags [simp]:
  "rt_readClose (fst (retrier_CloseRead r))" "rt_writeClose (fst (retrier_CloseRead r)) = rt_writeClose r"
  "rt_writeClose (fst (retrier_CloseWrite r))" "rt_readClose (fst (retrier_CloseWrite r)) = rt_readClose r"
  by (simp_all add: retrier_CloseRead_def retrier_CloseWrite_def closeRead_locked_def closeWrite_locked_def
      closeRead_store_def closeWrite_store_def split: prod.splits)

lemma retrier_Close_flags:
  "rt_writeClose (fst (retrier_Close r))" "rt_readClose r \<Longrightarrow> rt_readClose (fst (retrier_Close r))"
  "snd (retrier_Close r) = None \<Longrightarrow> rt_readClose (fst (retrier_Close r))"
proof -
  obtain r1 e where w: "retrier_CloseWrite r = (r1, e)" by (metis prod.exhaust)
  have r1: "rt_writeClose r1" "rt_readClose r1 = rt_readClose r"
    using retrier_close_flags(3,4) [of r] w by simp_all
  show "rt_writeClose (fst (retrier_Close r))" "rt_readClose r \<Longrightarrow> rt_readClose (fst (retrier_Close r))"
    "snd (retrier_Close r) = None \<Longrightarrow> rt_readClose (fst (retrier_Close r))"
    using w r1 by (cases e; simp add: retrier_Close_def)+
qed

text \<open>No step takes a close request back.\<close>

lemma retrier_Read_flags [simp]:
  "rt_readClose (fst (retrier_Read rnd rd1 dial rd2 r)) = rt_readClose r"
  "rt_writeClose (fst (retrier_Read rnd rd1 dial rd2 r)) = rt_writeClose r"
  by (auto simp: retrier_Read_def retry_def Let_def split: prod.splits option.splits sum.splits)

lemma rstep_flags:
  "rstep s t \<Longrightarrow> (rt_readClose (s_r s) \<longrightarrow> rt_readClose (s_r t)) \<and> (rt_writeClose (s_r s) \<longrightarrow> rt_writeClose (s_r t))"
  by (induction rule: rstep.induct)
    (auto simp: write_direct_def write_provisional_def write_rest_def Let_def closeRead_store_def closeWrite_store_def
      closeRead_locked_def closeWrite_locked_def retrier_deadlines_eq split: prod.splits if_splits)

text \<open>
  What is requested of the outgoing connection: of the halves of the directions that have ended, and of all of it once the
  handler has closed it.
\<close>

definition out_closed :: "bool \<Rightarrow> bool \<Rightarrow> goerr option \<Rightarrow> bool \<Rightarrow> duplex \<Rightarrow> bool" where
  "out_closed up down err handler d \<longleftrightarrow> (case d of
     DPlain c \<Rightarrow> (up \<longrightarrow> c_wclosed c \<or> c_shut c \<noteq> None \<or> c_closed c) \<and> (down \<longrightarrow> c_rclosed c \<or> c_shut c \<noteq> None \<or> c_closed c)
       \<and> (handler \<longrightarrow> c_closed c)
   | DSplit r \<Rightarrow> (up \<or> handler \<longrightarrow> rt_writeClose r) \<and> (down \<or> handler \<and> err = None \<longrightarrow> rt_readClose r))"

definition out_inv :: "flow \<Rightarrow> bool" where
  "out_inv f \<longleftrightarrow> out_closed (relay_ended (fl_up f)) (relay_ended (fl_down f)) (fl_err f) (fl_main f \<in> {ClosingStack, Returned})
       (w_conn (fl_conn f))
     \<and> (\<forall>r. w_conn (fl_conn f) = DSplit r \<longrightarrow> rreach (flow_threads r f))"

definition moved :: "relay_pc \<Rightarrow> nat" where
  "moved pc = (case pc of Copying n \<Rightarrow> n | Copied n \<Rightarrow> n | Ended n \<Rightarrow> n)"

lemma moved_simps [simp]: "moved (Copying n) = n" "moved (Copied n) = n" "moved (Ended n) = n"
  by (simp_all add: moved_def)

text \<open>The bytes that the outgoing connection took.\<close>

definition out_bytes :: "flow \<Rightarrow> bytes" where
  "out_bytes f = (case w_conn (fl_conn f) of DPlain c \<Rightarrow> tcp_stream c | DSplit r \<Rightarrow> fl_acc f)"

lemma duplex_cases [simp]:
  "fst (duplex_CloseRead (DPlain c)) = DPlain (fst (tcp_CloseRead c))" "fst (duplex_CloseWrite (DPlain c)) = DPlain (fst (tcp_CloseWrite c))"
  "fst (duplex_Close (DPlain c)) = DPlain (fst (tcp_Close c))" "snd (duplex_Close (DPlain c)) = snd (tcp_Close c)"
  "fst (duplex_CloseRead (DSplit r)) = DSplit (fst (retrier_CloseRead r))" "fst (duplex_CloseWrite (DSplit r)) = DSplit (fst (retrier_CloseWrite r))"
  "fst (duplex_Close (DSplit r)) = DSplit (fst (retrier_Close r))" "snd (duplex_Close (DSplit r)) = snd (retrier_Close r)"
  by (simp_all add: duplex_CloseRead_def duplex_CloseWrite_def duplex_Close_def split: prod.split)

lemma threads_step_eq: "threads_step r f t \<Longrightarrow> flow_threads (s_r t) (set_threads t f) = t"
  by (simp add: threads_step_def flow_threads_def set_threads_def)

lemma threads_step_inv:
  assumes "threads_step r f t" and "out_inv f" and "f' = (set_threads t f)\<lparr>fl_up := u\<rparr>" and "relay_ended u = relay_ended (fl_up f)"
  shows "out_inv f'"
proof -
  have c: "w_conn (fl_conn f) = DSplit r" and st: "rstep (flow_threads r f) t" using assms(1) by (simp_all add: threads_step_def)
  have "rreach (flow_threads r f)" using assms(2) c by (simp add: out_inv_def)
  then have "rreach t" using st by (rule rreach.step)
  moreover have "flow_threads (s_r t) f' = t" using threads_step_eq [OF assms(1)] by (simp add: assms(3) flow_threads_def)
  ultimately show ?thesis
    using assms(2,4) rstep_flags [OF st] c by (auto simp: out_inv_def out_closed_def assms(3) set_threads_def flow_threads_def)
qed

lemma flow_threads_fields [simp]:
  "flow_threads r (f\<lparr>fl_conn := w\<rparr>) = flow_threads r f" "flow_threads r (f\<lparr>fl_up := u\<rparr>) = flow_threads r f"
  "flow_threads r (f\<lparr>fl_down := u\<rparr>) = flow_threads r f" "flow_threads r (f\<lparr>fl_main := m\<rparr>) = flow_threads r f"
  "flow_threads r (f\<lparr>fl_stack_rshut := x\<rparr>) = flow_threads r f" "flow_threads r (f\<lparr>fl_stack_wshut := x\<rparr>) = flow_threads r f"
  "flow_threads r (f\<lparr>fl_stack_closed := x\<rparr>) = flow_threads r f" "flow_threads r (f\<lparr>fl_err := e\<rparr>) = flow_threads r f"
  by (simp_all add: flow_threads_def)

lemma out_inv_own: "hstep f f' \<Longrightarrow> out_inv f \<Longrightarrow> out_inv f'"
proof (induction rule: hstep.induct)
  case (f_close_out f)
  then show ?case
    by (cases "w_conn (fl_conn f)")
      (auto simp: out_inv_def out_closed_def retrier_Close_threads retrier_Close_flags tcp_Close_def)
qed (auto simp: out_inv_def out_closed_def split: duplex.splits)

lemma out_inv_step: "fstep f f' \<Longrightarrow> out_inv f \<Longrightarrow> out_inv f'"
proof (induction rule: fstep.induct)
  case (f_own f f')
  then show ?case by (rule out_inv_own)
next
  case (f_up_plain f k c b c' n e)
  then show ?case using tcp_write_frame [OF f_up_plain(3)] by (simp add: out_inv_def out_closed_def set_socket_def)
next
  case (f_up_split f k r t b)
  then show ?case using threads_step_inv [OF f_up_split(2,5) refl] by simp
next
  case (f_up_end f k)
  then show ?case
    by (cases "w_conn (fl_conn f)")
      (auto simp: out_inv_def out_closed_def up_half_close_def retrier_CloseWrite_threads tcp_CloseWrite_def split: option.splits)
next
  case (f_down_split f k r t)
  then show ?case using threads_step_inv [OF f_down_split(2,5), of "set_threads t f" "fl_up f"] by (simp add: set_threads_def)
next
  case (f_down_end f k)
  then show ?case
    by (cases "w_conn (fl_conn f)")
      (auto simp: out_inv_def out_closed_def down_half_close_def retrier_CloseRead_threads tcp_CloseRead_def split: option.splits)
next
  case (f_reset f c err)
  then show ?case by (auto simp: out_inv_def out_closed_def set_socket_def)
qed (auto simp: out_inv_def)

lemma out_bytes_own: "hstep f f' \<Longrightarrow> out_bytes f' = out_bytes f \<and> fl_up f' = fl_up f \<and> fl_down f' = fl_down f"
proof (induction rule: hstep.induct)
  case (f_close_out f)
  then show ?case by (cases "w_conn (fl_conn f)") (simp_all add: out_bytes_def)
qed (simp_all add: out_bytes_def split: duplex.split)

lemma out_bytes_step: "fstep f f' \<Longrightarrow> moved (fl_up f) = length (out_bytes f) \<Longrightarrow> moved (fl_up f') = length (out_bytes f')"
proof (induction rule: fstep.induct)
  case (f_own f f')
  then show ?case using out_bytes_own by simp
next
  case (f_up_plain f k c b c' n e)
  then show ?case
    using tcp.write_stream [OF f_up_plain(3)] tcp.write_le [OF f_up_plain(3)] by (simp add: out_bytes_def set_socket_def)
next
  case (f_up_end f k)
  then show ?case by (cases "w_conn (fl_conn f)") (simp_all add: out_bytes_def up_half_close_def)
next
  case (f_down_end f k)
  then show ?case by (cases "w_conn (fl_conn f)") (simp_all add: out_bytes_def down_half_close_def)
qed (auto simp: out_bytes_def set_threads_def set_socket_def threads_step_def split: duplex.splits)

lemma DialTCP_wrapped:
  assumes "DialTCP od before (Inr c) after dest tcp = Inr (Wrapped w)"
  shows "w_conn w = DPlain c \<or> (\<exists>r. w_conn w = DSplit r \<and> DialWithSplitRetry before (Inr c) after tcp (Some no_stats) = Inr r)"
  using assms by (auto simp: DialTCP_def od_dial_def makeTCPWrapConn_def Let_def split: if_splits sum.splits)

lemma out_inv_start:
  assumes "DialTCP od before (Inr c) after dest tcp = Inr (Wrapped w)" and "fresh_conn c"
  shows "out_inv (flow_start duplex w) \<and> out_bytes (flow_start duplex w) = []"
proof -
  have "rreach (flow_threads r (flow_start duplex w))" if "DialWithSplitRetry before (Inr c) after tcp (Some no_stats) = Inr r" for r
    using rreach.start [OF that assms(2)] by (simp add: flow_threads_def flow_start_def rinit_def)
  then show ?thesis
    using DialTCP_wrapped [OF assms(1)] assms(2)
    by (auto simp: out_inv_def out_closed_def flow_start_def out_bytes_def fresh_conn_def)
qed

lemma freach_out: "freach od f \<Longrightarrow> out_inv f \<and> moved (fl_up f) = length (out_bytes f)"
proof (induction rule: freach.induct)
  case (fr_start before c after dest tcp w duplex)
  then show ?case using out_inv_start [OF fr_start] by (simp add: flow_start_def)
qed (auto intro: out_inv_step out_bytes_step)

subsection \<open>Properties\<close>

text \<open>
  C14. The handler of a TCP flow returns only when one direction has ended, and then it has closed the client's connection,
  which is never closed before, and the outgoing one: a plain socket is closed. A split-retry connection is not a socket to
  close: its write half is shut down, and its read half when the first shutdown went well, whether or not a retry goes on
  meanwhile; unless the retry has failed these requests are in force on the socket in use, or that socket refuses to be shut
  down. The wrapper has counted both halves down. When both directions have ended the statistics are exact: as many bytes up as
  the outgoing connection took, and as many down as were moved.
\<close>

theorem handler_closes_both:
  assumes "freach od f"
  shows "(fl_main f = Returned \<longrightarrow> fl_stack_closed f \<and> w_rDone (fl_conn f) \<and> w_wDone (fl_conn f)
      \<and> (\<forall>c. w_conn (fl_conn f) = DPlain c \<longrightarrow> c_closed c)
      \<and> (\<forall>r. w_conn (fl_conn f) = DSplit r \<longrightarrow> rt_writeClose r \<and> (fl_err f = None \<longrightarrow> rt_readClose r)
          \<and> (fl_mode f \<noteq> Failed \<longrightarrow> (c_wclosed (rt_conn r) \<or> c_shut (rt_conn r) \<noteq> None)
               \<and> (rt_readClose r \<longrightarrow> c_rclosed (rt_conn r) \<or> c_shut (rt_conn r) \<noteq> None))))
    \<and> (fl_stack_closed f \<longrightarrow> fl_main f = Returned \<and> (relay_ended (fl_up f) \<or> relay_ended (fl_down f)))
    \<and> (fl_up f = Ended a \<and> fl_down f = Ended b \<longrightarrow> a = length (out_bytes f)
         \<and> ts_UploadBytes (w_stats (fl_conn f)) = of_nat a \<and> ts_DownloadBytes (w_stats (fl_conn f)) = of_nat b)"
proof -
  note inv = freach_inv [OF assms] freach_out [OF assms]
  have split: "fl_mode f \<noteq> Failed \<longrightarrow> (rt_writeClose r \<longrightarrow> c_wclosed (rt_conn r) \<or> c_shut (rt_conn r) \<noteq> None)
      \<and> (rt_readClose r \<longrightarrow> c_rclosed (rt_conn r) \<or> c_shut (rt_conn r) \<noteq> None)" if "w_conn (fl_conn f) = DSplit r" for r
    using rreach_rinv [of "flow_threads r f"] inv(2) that by (simp add: out_inv_def rinv_def close_inv_def) (simp add: flow_threads_def)
  have "\<forall>c. w_conn (fl_conn f) = DPlain c \<longrightarrow> c_closed c" if "fl_main f = Returned"
    using inv(2) that by (auto simp: out_inv_def out_closed_def)
  moreover have "\<forall>r. w_conn (fl_conn f) = DSplit r \<longrightarrow> rt_writeClose r \<and> (fl_err f = None \<longrightarrow> rt_readClose r)"
    if "fl_main f = Returned"
    using inv(2) that by (auto simp: out_inv_def out_closed_def)
  ultimately show ?thesis using inv split by (auto simp: f_inv_def)
qed






text \<open>A flow with a plain socket of which the download has ended; and the same when the handler and its report have run after it.\<close>

definition flow_half :: "wrapped \<Rightarrow> tcp_conn \<Rightarrow> bytes \<Rightarrow> nat \<Rightarrow> flow" where
  "flow_half w c b down =
     \<lparr>fl_conn = fst (wrap_CloseRead (count_download down (w\<lparr>w_conn := DPlain (fst (tcp_write c b))\<rparr>))),
      fl_w = WIdle, fl_acc = [], fl_mode = Provisional, fl_up = Copying (length b), fl_down = Ended down, fl_main = Waiting,
      fl_duplex = False, fl_stack_rshut = False, fl_stack_wshut = False, fl_stack_closed = False, fl_err = None\<rparr>"

definition flow_cut :: "wrapped \<Rightarrow> tcp_conn \<Rightarrow> bytes \<Rightarrow> nat \<Rightarrow> flow" where
  "flow_cut w c b down =
     (let f = flow_half w c b down in
      f\<lparr>fl_conn := fire 0 (fst (wrap_Close (fl_conn f))), fl_main := Returned, fl_stack_closed := True,
        fl_err := snd (wrap_Close (fl_conn f))\<rparr>)"

lemma flow_half_reach:
  assumes dial: "DialTCP od before (Inr c) after dest tcp = Inr (Wrapped w)" and fresh: "fresh_conn c"
    and plain: "w_conn w = DPlain c" and healthy: "tcp_healthy c"
  shows "freach od (flow_half w c b down)"
proof -
  let ?f0 = "flow_start False w"
  let ?f1 = "(set_socket (fst (tcp_write c b)) ?f0)\<lparr>fl_up := Copying (length b)\<rparr>"
  let ?f2 = "?f1\<lparr>fl_down := Copying down\<rparr>"
  let ?f3 = "?f2\<lparr>fl_down := Copied down, fl_conn := count_download down (fl_conn ?f2)\<rparr>"
  have 0: "freach od ?f0" by (rule fr_start [OF dial fresh])
  have "tcp_write c b = (fst (tcp_write c b), length b, None)" using tcp_write_healthy(1) [OF healthy, of b] by simp
  from f_up_plain [OF _ _ this, of ?f0 0] plain have "fstep ?f0 ?f1" by (simp add: flow_start_def)
  note 1 = fr_step [OF 0 this]
  have "fstep ?f1 ?f2" using f_down_move [where f = ?f1 and k = 0 and n = down] by (simp add: flow_start_def set_socket_def)
  note 2 = fr_step [OF 1 this]
  have "fstep ?f2 ?f3" using f_down_copied [of ?f2 down] by simp
  note 3 = fr_step [OF 2 this]
  have "fstep ?f3 (flow_half w c b down)"
    using f_down_end [of ?f3 down] by (simp add: flow_half_def down_half_close_def flow_start_def set_socket_def)
  from fr_step [OF 3 this] show ?thesis .
qed

lemma flow_cut_reach:
  assumes dial: "DialTCP od before (Inr c) after dest tcp = Inr (Wrapped w)" and fresh: "fresh_conn c"
    and plain: "w_conn w = DPlain c" and healthy: "tcp_healthy c"
  shows "freach od (flow_cut w c b down)"
proof -
  let ?f4 = "flow_half w c b down"
  let ?f5 = "?f4\<lparr>fl_main := ClosingOut\<rparr>"
  let ?f6 = "?f5\<lparr>fl_main := ClosingStack, fl_conn := fst (wrap_Close (fl_conn ?f5)), fl_err := snd (wrap_Close (fl_conn ?f5))\<rparr>"
  let ?f7 = "?f6\<lparr>fl_main := Returned, fl_stack_closed := True\<rparr>"
  note 4 = flow_half_reach [OF assms]
  have "hstep ?f4 ?f5" by (rule f_done) (simp_all add: flow_half_def)
  note 5 = fr_step [OF 4 f_own [OF this]]
  have "hstep ?f5 ?f6" by (rule f_close_out) simp
  note 6 = fr_step [OF 5 f_own [OF this]]
  have "hstep ?f6 ?f7" by (rule f_close_stack) simp
  note 7 = fr_step [OF 6 f_own [OF this]]
  have wg: "w_wg (fl_conn ?f7) = 0" using freach_inv [OF 7] by (simp add: f_inv_def w_inv_def)
  have "w_waiting w" using dial
    by (auto simp: DialTCP_def makeTCPWrapConn_def Let_def split: if_splits prod.splits sum.splits)
  then have "w_waiting (fl_conn ?f7)" by (simp add: flow_half_def) (simp add: count_download_def)
  from fr_step [OF 7 f_own [OF f_report [OF wg this, of 0]]] show ?thesis
    by (simp add: flow_cut_def flow_half_def Let_def)
qed

text \<open>
  The report of a flow can leave out bytes: the copy in the other direction adds its count
  only when it returns, and the handler closes, and so lets the report go, when the first one has. Any number of
  uploaded bytes can be missing.
\<close>

theorem report_misses_bytes:
  assumes "DialTCP od before (Inr c) after dest tcp = Inr (Wrapped w)" and "fresh_conn c" and "w_conn w = DPlain c"
    and "tcp_healthy c" and "od_listener od"
  shows "\<exists>f st. freach od f \<and> fl_main f = Returned \<and> fl_up f = Copying (length b) \<and> out_bytes f = b \<and> fl_down f = Ended down
    \<and> w_reports (fl_conn f) = [st] \<and> ts_UploadBytes st = 0 \<and> ts_DownloadBytes st = of_nat down"
proof -
  have w: "w_listener w" "w_reports w = []" "ts_UploadBytes (w_stats w) = 0" "ts_DownloadBytes (w_stats w) = 0"
    using assms(1,5) by (auto simp: DialTCP_def makeTCPWrapConn_def od_dial_def makeTCPSocketSummary_def Let_def
        split: if_splits sum.splits)
  have r: "w_reports (fst (wrap_Close v)) = w_reports v" "w_reports (fst (wrap_CloseRead v)) = w_reports v" for v
    by (simp_all add: wrap_defs split: prod.splits)
  have "tcp_stream (fst (tcp_write c b)) = b"
    using tcp_write_healthy(1) [OF assms(4), of b] assms(2) by (simp add: fresh_conn_def tcp_stream_def)
  then have out: "out_bytes (flow_cut w c b down) = b" by (simp add: flow_cut_def flow_half_def Let_def out_bytes_def)
  show ?thesis
    using flow_cut_reach [OF assms(1-4), of b down] w out
    by (intro exI [of _ "flow_cut w c b down"]
        exI [of _ "(w_stats (fl_conn (flow_cut w c b down)))"])
      (simp add: flow_cut_def flow_half_def Let_def fire_def r, simp add: count_download_def)
qed

subsection \<open>Witnesses\<close>

definition sample_od :: "unit OutboundDialer" where
  "sample_od = \<lparr>od_fakeDNSAddr = \<lparr>ap_Addr = Addr4 [10, 111, 222, 3], ap_Port = 53\<rparr>, od_dns = (),
     od_dialer = MakeDialer None, od_listener = True\<rparr>"

definition sample_out :: wrapped where
  "sample_out = makeTCPWrapConn 7 (DPlain (tcp_new [])) ((makeTCPSocketSummary \<lparr>ap_Addr = Addr4 [1, 2, 3, 4], ap_Port = 80\<rparr>)
     \<lparr>ts_Synack := int32_of_millis 2\<rparr>) True"

lemma sample_dial:
  "DialTCP sample_od 5 (Inr (tcp_new [])) 7 \<lparr>ap_Addr = Addr4 [1, 2, 3, 4], ap_Port = 80\<rparr> \<lparr>ta_ip = [1, 2, 3, 4], ta_port = 80\<rparr>
     = Inr (Wrapped sample_out)"
  by (simp add: DialTCP_def sample_od_def isEquivalentAddrPort_def Unmap_def od_dial_def sample_out_def Let_def)

lemma sample_socket: "w_conn sample_out = DPlain (tcp_new [])" "tcp_healthy (tcp_new [])"
  by (simp_all add: sample_out_def makeTCPWrapConn_def tcp_healthy_def tcp_new_def)

lemmas sample_cut_reach = flow_cut_reach [OF sample_dial demo_fresh sample_socket]

theorem handler_closes_both_witness:
  "fl_main (flow_cut sample_out (tcp_new []) [1, 2, 3] 4) = Returned
    \<and> (\<exists>c. w_conn (fl_conn (flow_cut sample_out (tcp_new []) [1, 2, 3] 4)) = DPlain c \<and> c_closed c)
    \<and> w_rDone (fl_conn (flow_cut sample_out (tcp_new []) [1, 2, 3] 4)) \<and> w_wDone (fl_conn (flow_cut sample_out (tcp_new []) [1, 2, 3] 4))"
proof -
  have "fl_main (flow_cut sample_out (tcp_new []) [1, 2, 3] 4) = Returned"
    by (simp add: flow_cut_def Let_def)
  moreover have "\<exists>c. w_conn (fl_conn (flow_cut sample_out (tcp_new []) [1, 2, 3] 4)) = DPlain c"
    by (simp add: flow_cut_def flow_half_def Let_def)
  ultimately show ?thesis using handler_closes_both [OF sample_cut_reach [of "[1, 2, 3]" 4]] by blast
qed


theorem report_misses_bytes_witness:
  "\<exists>f st. freach sample_od f \<and> fl_main f = Returned \<and> out_bytes f = replicate 1000 0 \<and> fl_down f = Ended 0
    \<and> w_reports (fl_conn f) = [st] \<and> ts_UploadBytes st = 0 \<and> ts_DownloadBytes st = of_nat 0"
proof -
  have "od_listener sample_od" by (simp add: sample_od_def)
  from report_misses_bytes [OF sample_dial demo_fresh sample_socket this, of "replicate 1000 0" 0] show ?thesis by blast
qed

end
