(* ===== verification/DnsFlow.thy ===== *)
theory DnsFlow
  imports TcpServer Forwarder "HOL-Library.Sublist"
begin

section \<open>A DNS flow from the client to Accept and back (transport/pipe.go, transport/stack, proxy/doh)\<close>

text \<open>
  What \<open>handleTCPForwarder\<close> starts for a flow to the fake DNS address: two \<open>relayTCP\<close> goroutines between the client and
  the local end of a \<open>net.Pipe\<close>, \<open>Accept\<close> on the remote end, and a goroutine per query. The pipe has no buffer: a write
  waits until reads have taken all of it, and one write of the remote end holds back the others. The resolver is
  the relation \<open>R\<close> between a query and its result, so that the queries overlap in any way that \<open>R\<close> allows.
\<close>

subsection \<open>State\<close>

text \<open>
  \<open>relayTCP(outConn, stackConn)\<close>: reading from the client, writing to the pipe what is left of a read that came with the
  error given, past \<open>io.Copy\<close>, at its end. \<open>Accept\<close>: reading a length, reading a query, before and after its \<open>Close\<close>.
  \<open>relayTCP(stackConn, outConn)\<close>: reading from the pipe, writing to the client, past \<open>io.Copy\<close>, at its end.
\<close>

datatype up_pc = UpRead | UpWriting bytes "goerr option" | UpCopied | UpEnded
datatype acc_pc = AccLength | AccQuery nat | AccClosing | AccEnded
datatype down_pc = DownRead | DownWriting bytes | DownCopied | DownEnded

text \<open>The write of a goroutine that is under way on the remote end.\<close>

record reply_write =
  rw_query :: bytes
  rw_left :: bytes
  rw_err :: "goerr option"

record dns_flow =
  df_in :: source
  df_up :: up_pc
  df_pipe :: pipeConn
  df_acc :: acc_pc
  df_jobs :: "job list"
  df_write :: "reply_write option"
  df_down :: down_pc
  df_out :: bytes
  df_main :: handler_pc
  df_duplex :: bool
  df_stack_wshut :: bool
  df_stack_closed :: bool

definition dns_flow_start :: "bool \<Rightarrow> source \<Rightarrow> pipeConn \<Rightarrow> dns_flow" where
  "dns_flow_start duplex src pipe = \<lparr>df_in = src, df_up = UpRead, df_pipe = pipe, df_acc = AccLength, df_jobs = [],
     df_write = None, df_down = DownRead, df_out = [], df_main = Waiting, df_duplex = duplex, df_stack_wshut = False,
     df_stack_closed = False\<rparr>"

definition pipe_closed :: "pipeConn \<Rightarrow> bool" where
  "pipe_closed p \<longleftrightarrow> pc_local_closed p \<or> pc_remote_closed p"

subsection \<open>The sides\<close>

text \<open>
  A turn of the \<open>io.Copy\<close> in \<open>pipeConn.ReadFrom\<close>, with its buffer of 32 kilobytes: one read, and the write that it
  leads to; the end of a write.
\<close>

definition after_write :: "goerr option \<Rightarrow> up_pc" where
  "after_write er = (case er of None \<Rightarrow> UpRead | Some e \<Rightarrow> UpCopied)"

definition pipe_ReadFrom_turn :: "source \<Rightarrow> source \<times> up_pc" where
  "pipe_ReadFrom_turn src = (case src_read 32768 src of (d, er, src') \<Rightarrow>
     (src', if d \<noteq> [] then UpWriting d er else after_write er))"

text \<open>
  A read of \<open>Accept\<close> that meets \<open>d\<close> in the pipe: the length, from the first two bytes, or the query, from as many bytes as
  the length says; what is left in the pipe, and the query that a goroutine is started for.
\<close>

fun accept_read :: "acc_pc \<Rightarrow> bytes \<Rightarrow> acc_pc \<times> bytes \<times> bytes option" where
  "accept_read AccLength d = (if length d < 2 then AccClosing else AccQuery (unat (be16 d)), drop 2 d, None)"
| "accept_read (AccQuery n) d = (if length d < n then (AccClosing, drop n d, None) else (AccLength, drop n d, Some (take n d)))"
| "accept_read pc d = (pc, d, None)"

definition start_job :: "bytes option \<Rightarrow> job list" where
  "start_job q = (case q of None \<Rightarrow> [] | Some q \<Rightarrow> [JQuery q])"

text \<open>\<open>forwardQuery\<close>: whether there is nothing to write, and the goroutine after a write that ended with \<open>e\<close>.\<close>

definition no_reply :: "bytes option \<Rightarrow> goerr option \<Rightarrow> bool" where
  "no_reply resp qerr \<longleftrightarrow> resp = None \<and> qerr \<noteq> None \<or> 65535 < length (the_bytes resp)"

definition check_job :: "goerr option \<Rightarrow> job list" where
  "check_job e = (if e = None then [] else [JClose])"

definition acc_reading :: "acc_pc \<Rightarrow> bool" where
  "acc_reading pc \<longleftrightarrow> (case pc of AccLength \<Rightarrow> True | AccQuery n \<Rightarrow> True | _ \<Rightarrow> False)"

subsection \<open>Steps\<close>

inductive dfstep :: "answer_rel \<Rightarrow> dns_flow \<Rightarrow> dns_flow \<Rightarrow> bool" for R :: answer_rel where
  u_read: "df_up f = UpRead \<Longrightarrow> \<not> df_stack_closed f \<Longrightarrow> pipe_ReadFrom_turn (df_in f) = (src, up) \<Longrightarrow>
     dfstep R f (f\<lparr>df_in := src, df_up := up\<rparr>)"
| u_read_closed: "df_up f = UpRead \<Longrightarrow> df_stack_closed f \<Longrightarrow> dfstep R f (f\<lparr>df_up := UpCopied\<rparr>)"
| u_written: "df_up f = UpWriting [] er \<Longrightarrow> dfstep R f (f\<lparr>df_up := after_write er\<rparr>)"
| u_write_closed: "df_up f = UpWriting (x # d) er \<Longrightarrow> pipe_closed (df_pipe f) \<Longrightarrow> dfstep R f (f\<lparr>df_up := UpCopied\<rparr>)"
| u_end: "df_up f = UpCopied \<Longrightarrow> dfstep R f (f\<lparr>df_pipe := fst (pipe_CloseWrite (df_pipe f)), df_up := UpEnded\<rparr>)"
| a_read: "acc_reading (df_acc f) \<Longrightarrow> \<not> pipe_closed (df_pipe f) \<Longrightarrow> df_up f = UpWriting (x # d) er \<Longrightarrow>
     accept_read (df_acc f) (x # d) = (acc, left, q) \<Longrightarrow>
     dfstep R f (f\<lparr>df_up := UpWriting left er, df_acc := acc, df_jobs := df_jobs f @ start_job q\<rparr>)"
| a_read_closed: "acc_reading (df_acc f) \<Longrightarrow> pipe_closed (df_pipe f) \<Longrightarrow> dfstep R f (f\<lparr>df_acc := AccClosing\<rparr>)"
| a_end: "df_acc f = AccClosing \<Longrightarrow> dfstep R f (f\<lparr>df_pipe := (df_pipe f)\<lparr>pc_remote_closed := True\<rparr>, df_acc := AccEnded\<rparr>)"
| g_query: "df_jobs f = xs @ JQuery q # ys \<Longrightarrow> R q resp e \<Longrightarrow> dfstep R f (f\<lparr>df_jobs := xs @ JWrite q resp e # ys\<rparr>)"
| g_none: "df_jobs f = xs @ JWrite q resp e # ys \<Longrightarrow> no_reply resp e \<Longrightarrow> dfstep R f (f\<lparr>df_jobs := xs @ JClose # ys\<rparr>)"
| g_write: "df_jobs f = xs @ JWrite q resp e # ys \<Longrightarrow> \<not> no_reply resp e \<Longrightarrow> df_write f = None \<Longrightarrow>
     dfstep R f (f\<lparr>df_jobs := xs @ ys,
       df_write := Some \<lparr>rw_query = q, rw_left = frame (the_bytes resp), rw_err = e\<rparr>\<rparr>)"
| g_written: "df_write f = Some w \<Longrightarrow> rw_left w = [] \<Longrightarrow>
     dfstep R f (f\<lparr>df_write := None, df_jobs := df_jobs f @ check_job (rw_err w)\<rparr>)"
| g_write_closed: "df_write f = Some w \<Longrightarrow> rw_left w \<noteq> [] \<Longrightarrow> pipe_closed (df_pipe f) \<Longrightarrow>
     dfstep R f (f\<lparr>df_write := None, df_jobs := df_jobs f @ [JClose]\<rparr>)"
| g_close: "df_jobs f = xs @ JClose # ys \<Longrightarrow>
     dfstep R f (f\<lparr>df_pipe := (df_pipe f)\<lparr>pc_remote_closed := True\<rparr>, df_jobs := xs @ ys\<rparr>)"
| d_read: "df_down f = DownRead \<Longrightarrow> \<not> pipe_closed (df_pipe f) \<Longrightarrow> df_write f = Some w \<Longrightarrow> rw_left w \<noteq> [] \<Longrightarrow>
     dfstep R f (f\<lparr>df_down := DownWriting (take 32768 (rw_left w)), df_write := Some (w\<lparr>rw_left := drop 32768 (rw_left w)\<rparr>)\<rparr>)"
| d_read_closed: "df_down f = DownRead \<Longrightarrow> pipe_closed (df_pipe f) \<Longrightarrow> dfstep R f (f\<lparr>df_down := DownCopied\<rparr>)"
| d_write: "df_down f = DownWriting b \<Longrightarrow> \<not> df_stack_wshut f \<Longrightarrow> \<not> df_stack_closed f \<Longrightarrow>
     dfstep R f (f\<lparr>df_out := df_out f @ b, df_down := DownRead\<rparr>)"
| d_write_failed: "df_down f = DownWriting b \<Longrightarrow> df_stack_wshut f \<or> df_stack_closed f \<longrightarrow> k = 0 \<Longrightarrow>
     dfstep R f (f\<lparr>df_out := df_out f @ take k b, df_down := DownCopied\<rparr>)"
| d_end: "df_down f = DownCopied \<Longrightarrow>
     dfstep R f (f\<lparr>df_stack_wshut := df_stack_wshut f \<or> df_duplex f, df_pipe := fst (pipe_CloseRead (df_pipe f)),
       df_down := DownEnded\<rparr>)"
| h_done: "df_main f = Waiting \<Longrightarrow> df_up f = UpEnded \<or> df_down f = DownEnded \<Longrightarrow> dfstep R f (f\<lparr>df_main := ClosingOut\<rparr>)"
| h_close_out: "df_main f = ClosingOut \<Longrightarrow>
     dfstep R f (f\<lparr>df_main := ClosingStack, df_pipe := fst (pipe_Close (df_pipe f))\<rparr>)"
| h_close_stack: "df_main f = ClosingStack \<Longrightarrow> dfstep R f (f\<lparr>df_main := Returned, df_stack_closed := True\<rparr>)"

inductive_cases dfstepE: "dfstep R f f'"

text \<open>The flows that start with a new pipe, for a client that sends \<open>src\<close>.\<close>

inductive dfreach :: "answer_rel \<Rightarrow> source \<Rightarrow> dns_flow \<Rightarrow> bool" for R :: answer_rel and src :: source where
  dr_start: "newPipeConn False False = Inr pipe \<Longrightarrow> dfreach R src (dns_flow_start duplex src pipe)"
| dr_step: "dfreach R src f \<Longrightarrow> dfstep R f f' \<Longrightarrow> dfreach R src f'"

subsection \<open>Every flow comes to its end\<close>

text \<open>
  The steps that are left. A frame has at most 65537 bytes, so that a query costs at most \<open>job_cost\<close>; a byte of the client
  costs more, as it may be the one that lets \<open>Accept\<close> start a query.
\<close>

definition job_cost :: nat where "job_cost = 131090"
definition byte_cost :: nat where "byte_cost = job_cost + 10"

fun dns_job_work :: "job \<Rightarrow> nat" where
  "dns_job_work (JQuery q) = job_cost"
| "dns_job_work (JWrite q resp e) = job_cost - 1"
| "dns_job_work JClose = 1"

fun up_work :: "up_pc \<Rightarrow> nat" where
  "up_work UpRead = 3"
| "up_work (UpWriting d er) = byte_cost * length d + 4"
| "up_work UpCopied = 1"
| "up_work UpEnded = 0"

fun acc_work :: "acc_pc \<Rightarrow> nat" where
  "acc_work AccLength = 2"
| "acc_work (AccQuery n) = job_cost + 5"
| "acc_work AccClosing = 1"
| "acc_work AccEnded = 0"

fun down_work :: "down_pc \<Rightarrow> nat" where
  "down_work DownRead = 2"
| "down_work (DownWriting b) = 3"
| "down_work DownCopied = 1"
| "down_work DownEnded = 0"

fun main_work :: "handler_pc \<Rightarrow> nat" where
  "main_work Waiting = 3"
| "main_work ClosingOut = 2"
| "main_work ClosingStack = 1"
| "main_work Returned = 0"

definition write_work :: "reply_write option \<Rightarrow> nat" where
  "write_work w = (case w of None \<Rightarrow> 0 | Some w \<Rightarrow> 2 * length (rw_left w) + 2)"

definition src_work :: "source \<Rightarrow> nat" where
  "src_work src = (byte_cost + 2) * length (concat (map fst src)) + length src"

definition dns_flow_work :: "dns_flow \<Rightarrow> nat" where
  "dns_flow_work f = src_work (df_in f) + up_work (df_up f) + acc_work (df_acc f) + sum_list (map dns_job_work (df_jobs f))
     + write_work (df_write f) + down_work (df_down f) + main_work (df_main f)"

lemmas work_defs = dns_flow_work_def write_work_def job_cost_def byte_cost_def

lemma pipe_ReadFrom_turn_work:
  assumes "pipe_ReadFrom_turn src = (src', up)"
  shows "src_work src' + up_work up < src_work src + 3"
proof -
  obtain d er where r: "src_read 32768 src = (d, er, src')" "up = (if d \<noteq> [] then UpWriting d er else after_write er)"
    using assms by (auto simp: pipe_ReadFrom_turn_def split: prod.splits)
  show ?thesis
  proof (cases src)
    case Nil
    then show ?thesis using r by (auto simp: src_read_def after_write_def src_work_def)
  next
    case (Cons p rest)
    obtain b e where p: "p = (b, e)" by (cases p)
    show ?thesis
    proof (cases "length b \<le> 32768")
      case True
      then have "d = b" "er = e" "src' = rest" using r Cons p by (auto simp: src_read_def)
      then show ?thesis
        using r(2) Cons p by (cases "b = []") (auto simp: src_work_def after_write_def algebra_simps split: option.split)
    next
      case False
      then have d: "d = take 32768 b" "er = None" "src' = (drop 32768 b, e) # rest" "d \<noteq> []"
        using r Cons p by (auto simp: src_read_def)
      define n m l where "n = length d" "m = length (drop 32768 b)" "l = length (concat (map fst rest))"
      have "length b = n + m" using d(1) by (simp add: n_m_l_def)
      then have "src_work src = (byte_cost + 2) * (n + m + l) + Suc (length rest)"
        and "src_work src' = (byte_cost + 2) * (m + l) + Suc (length rest)"
        using Cons p d(3) by (simp_all add: src_work_def n_m_l_def del: length_drop)
      moreover have "up_work up = byte_cost * n + 4" "0 < n" using r(2) d(2,4) by (simp_all add: n_m_l_def)
      ultimately show ?thesis by (simp add: algebra_simps)
    qed
  qed
qed

lemma accept_read_work:
  assumes "acc_reading acc" "accept_read acc (x # d) = (acc', left, q)"
  shows "acc_work acc' + byte_cost * length left + sum_list (map dns_job_work (start_job q))
    < acc_work acc + byte_cost * length (x # d)"
proof (cases acc)
  case AccLength
  then show ?thesis
    using assms by (cases d) (auto simp: start_job_def byte_cost_def job_cost_def split: if_splits)
next
  case (AccQuery n)
  have "length left \<le> length (x # d)" using assms AccQuery by (auto split: if_splits)
  then have "byte_cost * length left \<le> byte_cost * length (x # d)" by (rule mult_le_mono2)
  moreover have "acc_work acc' \<le> 2" "sum_list (map dns_job_work (start_job q)) \<le> job_cost"
    using assms(2) AccQuery by (auto simp: start_job_def split: if_splits)
  moreover have "acc_work acc = job_cost + 5" using AccQuery by simp
  ultimately show ?thesis by linarith
qed (use assms in \<open>auto simp: acc_reading_def\<close>)

lemma dfstep_work: "dfstep R f f' \<Longrightarrow> dns_flow_work f' < dns_flow_work f"
proof (induction rule: dfstep.induct)
  case (u_read f src up)
  then show ?case using pipe_ReadFrom_turn_work [OF u_read(3)] by (simp add: dns_flow_work_def)
next
  case (a_read f x d er acc left q)
  then show ?case using accept_read_work [OF a_read(1,4)] by (simp add: dns_flow_work_def)
next
  case (g_write f xs q resp e ys)
  then have "length (the_bytes resp) \<le> 65535" by (simp add: no_reply_def)
  then show ?case using g_write by (simp add: work_defs)
next
  case (d_read f w)
  then have "rw_left w \<noteq> []" by simp
  then show ?case using d_read by (cases "rw_left w") (auto simp: work_defs)
next
  case (a_read_closed f)
  then show ?case by (cases "df_acc f") (auto simp: work_defs acc_reading_def)
qed (auto simp: work_defs after_write_def check_job_def split: option.splits)

text \<open>Who has ended has closed its end; the handler closes both, and the client's connection last.\<close>

definition ends_ok :: "dns_flow \<Rightarrow> bool" where
  "ends_ok f \<longleftrightarrow> (df_up f = UpEnded \<longrightarrow> pc_local_closed (df_pipe f)) \<and> (df_down f = DownEnded \<longrightarrow> pc_remote_closed (df_pipe f))
     \<and> (df_acc f = AccEnded \<longrightarrow> pc_remote_closed (df_pipe f))
     \<and> (df_main f \<in> {ClosingStack, Returned} \<longrightarrow> pc_local_closed (df_pipe f) \<and> pc_remote_closed (df_pipe f))
     \<and> (df_main f = Returned \<longleftrightarrow> df_stack_closed f)
     \<and> (df_main f \<noteq> Waiting \<longrightarrow> df_up f = UpEnded \<or> df_down f = DownEnded)"

lemmas pipe_defs = pipe_CloseRead_def pipe_CloseWrite_def pipe_Close_def pipe_closed_def

lemma accept_read_reading: "acc_reading acc \<Longrightarrow> accept_read acc d = (acc', left, q) \<Longrightarrow> acc' \<noteq> AccEnded"
  by (cases acc) (auto simp: acc_reading_def split: if_splits)

lemma ends_ok_step: "dfstep R f f' \<Longrightarrow> ends_ok f \<Longrightarrow> ends_ok f'"
proof (induction rule: dfstep.induct)
  case (u_read f src up)
  then have "up \<noteq> UpEnded" by (auto simp: pipe_ReadFrom_turn_def after_write_def split: prod.splits option.splits if_splits)
  then show ?case using u_read by (auto simp: ends_ok_def)
next
  case (u_written f er)
  have "after_write er \<noteq> UpEnded" by (simp add: after_write_def split: option.split)
  then show ?case using u_written by (auto simp: ends_ok_def)
next
  case (a_read f x d er acc left q)
  then show ?case using accept_read_reading [OF a_read(1,4)] by (auto simp: ends_ok_def)
qed (auto simp: ends_ok_def pipe_defs)

lemma dfreach_ends: "dfreach R src f \<Longrightarrow> ends_ok f"
proof (induction rule: dfreach.induct)
  case (dr_start pipe duplex)
  show ?case by (simp add: ends_ok_def dns_flow_start_def)
next
  case (dr_step f f')
  then show ?case using ends_ok_step by blast
qed

definition dns_flow_over :: "dns_flow \<Rightarrow> bool" where
  "dns_flow_over f \<longleftrightarrow> df_up f = UpEnded \<and> df_acc f = AccEnded \<and> df_jobs f = [] \<and> df_write f = None
     \<and> df_down f = DownEnded \<and> df_main f = Returned"

lemma up_moves: "ends_ok f \<Longrightarrow> df_up f \<noteq> UpEnded \<Longrightarrow> (\<And>f'. \<not> dfstep R f f') \<Longrightarrow>
    \<not> pipe_closed (df_pipe f) \<and> \<not> acc_reading (df_acc f)"
proof (cases "df_up f")
  case UpRead
  moreover obtain src up where "pipe_ReadFrom_turn (df_in f) = (src, up)" by fastforce
  moreover assume "\<And>f'. \<not> dfstep R f f'"
  ultimately show ?thesis using u_read [of f src up R] u_read_closed [of f R] by blast
next
  case (UpWriting d er)
  assume none: "\<And>f'. \<not> dfstep R f f'"
  obtain x d' where d: "d = x # d'" using u_written [of f er R] none UpWriting by (cases d) auto
  obtain acc left q where "accept_read (df_acc f) (x # d') = (acc, left, q)" by (metis prod_cases3)
  then show ?thesis
    using none u_write_closed [of f x d' er R] a_read [of f x d' er acc left q R] UpWriting d by blast
next
  case UpCopied
  assume "\<And>f'. \<not> dfstep R f f'"
  then show ?thesis using u_end [OF UpCopied] by blast
qed simp

lemma acc_moves:
  assumes "ends_ok f" and "\<And>f'. \<not> dfstep R f f'"
  shows "df_up f = UpEnded \<and> df_acc f = AccEnded"
proof -
  have acc: "df_acc f \<noteq> AccClosing" using a_end assms(2) by blast
  have up: "df_up f = UpEnded"
  proof (rule ccontr)
    assume up: "df_up f \<noteq> UpEnded"
    from up_moves [OF assms(1) up assms(2)] have "\<not> pipe_closed (df_pipe f)" "\<not> acc_reading (df_acc f)" by simp_all
    then have "df_acc f = AccEnded" using acc by (cases "df_acc f") (auto simp: acc_reading_def)
    then show False using assms(1) \<open>\<not> pipe_closed (df_pipe f)\<close> by (simp add: ends_ok_def pipe_closed_def)
  qed
  then have "pipe_closed (df_pipe f)" using assms(1) by (simp add: ends_ok_def pipe_closed_def)
  then have "\<not> acc_reading (df_acc f)" using a_read_closed assms(2) by blast
  then show ?thesis using acc up by (cases "df_acc f") (auto simp: acc_reading_def)
qed

text \<open>The relay to the client and the handler, once the pipe is closed and the other relay has ended.\<close>

lemma down_moves:
  assumes "\<And>f'. \<not> dfstep R f f'" and "pipe_closed (df_pipe f)"
  shows "df_down f = DownEnded"
proof (cases "df_down f")
  case DownRead
  then show ?thesis using d_read_closed [OF DownRead assms(2), of R] assms(1) by blast
next
  case (DownWriting b)
  then show ?thesis using d_write_failed [OF DownWriting, of 0 R] assms(1) by blast
next
  case DownCopied
  then show ?thesis using d_end assms(1) by blast
qed

lemma main_moves:
  assumes "\<And>f'. \<not> dfstep R f f'" and "df_up f = UpEnded"
  shows "df_main f = Returned"
proof (cases "df_main f")
  case Waiting
  then show ?thesis using h_done [OF Waiting, of R] assms by blast
next
  case ClosingOut
  then show ?thesis using h_close_out [OF ClosingOut, of R] assms(1) by blast
next
  case ClosingStack
  then show ?thesis using h_close_stack [OF ClosingStack, of R] assms(1) by blast
qed

context answers_come
begin

lemma dns_flow_moves:
  assumes "usable r" and "dfreach (R r) src f" and "\<not> dns_flow_over f"
  shows "\<exists>f'. dfstep (R r) f f'"
proof (rule ccontr)
  assume "\<not> (\<exists>f'. dfstep (R r) f f')"
  then have none: "\<not> dfstep (R r) f f'" for f' by blast
  note ends = dfreach_ends [OF assms(2)]
  note acc = acc_moves [OF ends none]
  then have closed: "pipe_closed (df_pipe f)" using ends by (simp add: ends_ok_def pipe_closed_def)
  have wr: "df_write f = None"
    using none g_written [of f _ "R r"] g_write_closed [of f _ "R r"] closed by (cases "df_write f") auto
  have jobs: "df_jobs f = []"
  proof (cases "df_jobs f")
    case (Cons j js)
    then have eq: "df_jobs f = [] @ j # js" by simp
    show ?thesis
    proof (cases j)
      case (JQuery q)
      obtain resp e where "R r q resp e" using answer_exists [OF assms(1)] by blast
      then show ?thesis using none g_query eq JQuery by blast
    next
      case (JWrite q resp e)
      then show ?thesis using none g_none g_write [OF _ _ wr] eq by blast
    next
      case JClose
      then show ?thesis using none g_close eq by blast
    qed
  qed simp
  have "df_down f = DownEnded" "df_main f = Returned" using down_moves [OF none closed] main_moves [OF none] acc by simp_all
  then show False using assms(3) acc wr jobs by (simp add: dns_flow_over_def)
qed

text \<open>So a flow can only end over, and does end: there is a run to its end, and none is longer than \<open>dns_flow_work\<close>.\<close>

lemma dns_flow_runs_out:
  assumes "usable r"
  shows "dfreach (R r) src f \<Longrightarrow> \<exists>f'. (dfstep (R r))\<^sup>*\<^sup>* f f' \<and> dns_flow_over f'"
proof (induction "dns_flow_work f" arbitrary: f rule: less_induct)
  case less
  show ?case
  proof (cases "dns_flow_over f")
    case False
    then obtain f1 where f1: "dfstep (R r) f f1" using dns_flow_moves [OF assms less.prems] by blast
    from less.hyps [OF dfstep_work [OF f1] dr_step [OF less.prems f1]] f1 show ?thesis
      by (meson converse_rtranclp_into_rtranclp)
  qed blast
qed

end

subsection \<open>What passes\<close>

text \<open>
  Upwards: the bytes that the relay has read or can still read and that \<open>Accept\<close> has not taken; the part of a frame that
  \<open>Accept\<close> stops at; and what it means that \<open>qs\<close> are the queries that \<open>Accept\<close> has taken from a client that sends
  \<open>sent\<close>: their frames, with the part of the next one that has been read, are all that is no longer to be read.
\<close>

definition unread :: "dns_flow \<Rightarrow> bytes" where
  "unread f = (case df_up f of UpRead \<Rightarrow> src_data (df_in f)
     | UpWriting d er \<Rightarrow> d @ (if er = None then src_data (df_in f) else []) | _ \<Rightarrow> [])"

lemma unread_fields [simp]:
  "unread (f\<lparr>df_pipe := p\<rparr>) = unread f" "unread (f\<lparr>df_acc := acc\<rparr>) = unread f" "unread (f\<lparr>df_jobs := js\<rparr>) = unread f"
  "unread (f\<lparr>df_write := w\<rparr>) = unread f" "unread (f\<lparr>df_down := d\<rparr>) = unread f" "unread (f\<lparr>df_out := b\<rparr>) = unread f"
  "unread (f\<lparr>df_main := m\<rparr>) = unread f" "unread (f\<lparr>df_stack_wshut := x\<rparr>) = unread f" "unread (f\<lparr>df_stack_closed := x\<rparr>) = unread f"
  by (simp_all add: unread_def split: up_pc.split)

definition cut_frame :: "bytes \<Rightarrow> bool" where
  "cut_frame part \<longleftrightarrow> length part < 2 \<or> length part < 2 + unat (be16 part)"

definition frames_taken :: "acc_pc \<Rightarrow> bytes list \<Rightarrow> bytes \<Rightarrow> bool" where
  "frames_taken acc qs taken \<longleftrightarrow> (case acc of AccLength \<Rightarrow> taken = concat (map frame qs)
     | AccQuery n \<Rightarrow> \<exists>v. n = unat (v :: u16) \<and> taken = concat (map frame qs) @ enc16 v
     | _ \<Rightarrow> \<exists>part. taken = concat (map frame qs) @ part \<and> cut_frame part)"

definition accepts :: "bytes \<Rightarrow> bytes list \<Rightarrow> dns_flow \<Rightarrow> bool" where
  "accepts sent qs f \<longleftrightarrow> (\<exists>taken. frames_taken (df_acc f) qs taken \<and> sent = taken @ unread f)"

text \<open>As long as the pipe is open nothing is lost on the way up; when it is closed, what was taken stays.\<close>

definition up_inv :: "bytes \<Rightarrow> bytes list \<Rightarrow> dns_flow \<Rightarrow> bool" where
  "up_inv sent qs f \<longleftrightarrow> (\<forall>q\<in>set qs. length q < 65536) \<and> prefix (concat (map frame qs)) sent
     \<and> (pipe_closed (df_pipe f) \<or> accepts sent qs f)"

text \<open>Downwards: what the client got, with what the relay holds and what the current write has left, are the answers \<open>ps\<close>.\<close>

definition down_pending :: "dns_flow \<Rightarrow> bytes" where
  "down_pending f = (case df_down f of DownWriting b \<Rightarrow> b | _ \<Rightarrow> [])"

definition write_left :: "dns_flow \<Rightarrow> bytes" where
  "write_left f = (case df_write f of None \<Rightarrow> [] | Some w \<Rightarrow> rw_left w)"

definition down_going :: "dns_flow \<Rightarrow> bool" where
  "down_going f \<longleftrightarrow> \<not> pipe_closed (df_pipe f) \<and> (case df_down f of DownRead \<Rightarrow> True | DownWriting b \<Rightarrow> True | _ \<Rightarrow> False)"

definition down_inv :: "(bytes \<times> bytes) list \<Rightarrow> dns_flow \<Rightarrow> bool" where
  "down_inv ps f \<longleftrightarrow> prefix (df_out f @ down_pending f) (concat (map (frame \<circ> snd) ps))
     \<and> (down_going f \<longrightarrow> df_out f @ down_pending f @ write_left f = concat (map (frame \<circ> snd) ps))"

text \<open>The queries are those answered and those of the goroutines, unless the pipe is closed or about to be.\<close>

definition served :: "(bytes \<times> bytes) list \<Rightarrow> job list \<Rightarrow> bytes multiset" where
  "served ps js = mset (map fst ps) + mset (job_queries js)"

definition reply_ok :: "answer_rel \<Rightarrow> bytes \<times> bytes \<Rightarrow> bool" where
  "reply_ok R p = (case p of (q, b) \<Rightarrow> length b \<le> 65535 \<and> (\<exists>e. R q (Some b) e))"

definition waiting_ok :: "answer_rel \<Rightarrow> job \<Rightarrow> bool" where
  "waiting_ok R j = (case j of JWrite q resp e \<Rightarrow> R q resp e | _ \<Rightarrow> True)"

definition jobs_inv :: "answer_rel \<Rightarrow> bytes list \<Rightarrow> (bytes \<times> bytes) list \<Rightarrow> dns_flow \<Rightarrow> bool" where
  "jobs_inv R qs ps f \<longleftrightarrow> (\<forall>p\<in>set ps. reply_ok R p) \<and> (\<forall>j\<in>set (df_jobs f). waiting_ok R j)
     \<and> served ps (df_jobs f) \<subseteq># mset qs
     \<and> (pipe_closed (df_pipe f) \<or> JClose \<in> set (df_jobs f) \<or> served ps (df_jobs f) = mset qs)"

text \<open>Nothing is under way on the pipe's remote end, and the pipe is open.\<close>

definition dns_quiet :: "dns_flow \<Rightarrow> bool" where
  "dns_quiet f \<longleftrightarrow> \<not> pipe_closed (df_pipe f) \<and> df_jobs f = [] \<and> df_write f = None \<and> df_down f = DownRead"

lemma unread_turn:
  assumes "pipe_ReadFrom_turn (df_in f) = (src, up)" and "df_up f = UpRead"
  shows "unread (f\<lparr>df_in := src, df_up := up\<rparr>) = unread f"
proof -
  obtain d er where r: "src_read 32768 (df_in f) = (d, er, src)" "up = (if d \<noteq> [] then UpWriting d er else after_write er)"
    using assms(1) by (auto simp: pipe_ReadFrom_turn_def split: prod.splits)
  then show ?thesis
    using src_read_data [OF r(1)] assms(2)
    by (cases "d = []") (auto simp: unread_def after_write_def split: option.splits)
qed

lemma frame_split: "length q = unat v \<Longrightarrow> frame q = enc16 v @ q"
  by (simp add: frame_def)

lemma frames_taken_read:
  assumes "acc_reading acc" and "accept_read acc d = (acc', left, q)" and "frames_taken acc qs taken"
  shows "frames_taken acc' (qs @ (case q of None \<Rightarrow> [] | Some q \<Rightarrow> [q])) (taken @ take (length d - length left) d)
    \<and> d = take (length d - length left) d @ left \<and> (\<forall>p. q = Some p \<longrightarrow> length p < 65536)"
proof (cases acc)
  case AccLength
  have "take 2 d = enc16 (be16 d)" if "\<not> length d < 2" using enc16_be16 [of d] that by simp
  then show ?thesis
    using assms(2,3) AccLength append_take_drop_id [of 2 d] by (auto simp: frames_taken_def cut_frame_def split: if_splits)
next
  case (AccQuery n)
  then obtain v :: u16 where v: "n = unat v" "taken = concat (map frame qs) @ enc16 v"
    using assms(3) by (auto simp: frames_taken_def)
  have "unat v < 65536" using unsigned_less [of v] by simp
  then show ?thesis
    using assms(2) AccQuery v frame_split [of "take n d" v]
    by (auto simp: frames_taken_def cut_frame_def min_def split: if_splits intro!: exI [of _ "enc16 v @ d"])
qed (use assms(1) in \<open>auto simp: acc_reading_def\<close>)

lemma frames_taken_prefix: "frames_taken acc qs taken \<Longrightarrow> prefix (concat (map frame qs)) taken"
  by (auto simp: frames_taken_def split: acc_pc.splits)

lemma up_inv_read:
  assumes "acc_reading (df_acc f)" and "\<not> pipe_closed (df_pipe f)" and "df_up f = UpWriting d er"
    and "accept_read (df_acc f) d = (acc, left, q)" and "up_inv sent qs f"
  shows "up_inv sent (qs @ (case q of None \<Rightarrow> [] | Some q \<Rightarrow> [q])) (f\<lparr>df_up := UpWriting left er, df_acc := acc, df_jobs := js\<rparr>)"
    (is "up_inv sent ?qs ?f")
proof -
  obtain taken where t: "frames_taken (df_acc f) qs taken" "sent = taken @ unread f"
    using assms(2,5) by (auto simp: up_inv_def accepts_def)
  let ?taken = "taken @ take (length d - length left) d"
  note read = frames_taken_read [OF assms(1,4) t(1)]
  have "d @ xs = take (length d - length left) d @ left @ xs" for xs
    using arg_cong [of _ _ "\<lambda>d. d @ xs", OF conjunct1 [OF conjunct2 [OF read]]] by simp
  then have sent: "sent = ?taken @ unread ?f" using t(2) assms(3) by (simp add: unread_def)
  then have "prefix ?taken sent" by (metis prefixI)
  then have "prefix (concat (map frame ?qs)) sent"
    using frames_taken_prefix [OF conjunct1 [OF read]] prefix_order.order_trans by blast
  moreover have "accepts sent ?qs ?f" using read sent unfolding accepts_def by auto
  moreover have "\<forall>q\<in>set ?qs. length q < 65536" using read assms(5) by (auto simp: up_inv_def split: option.splits)
  ultimately show ?thesis by (simp add: up_inv_def)
qed

text \<open>Steps that leave one direction as it is, or let it end.\<close>

lemma up_inv_keep:
  assumes "up_inv sent qs f" and "pipe_closed (df_pipe f) \<Longrightarrow> pipe_closed (df_pipe f')"
    and "pipe_closed (df_pipe f') \<or> unread f' = unread f \<and> df_acc f' = df_acc f"
  shows "up_inv sent qs f'"
  using assms by (auto simp: up_inv_def accepts_def)

lemma down_inv_keep:
  assumes "down_inv ps f" and "df_out f' = df_out f" and "down_pending f' = down_pending f" and "down_going f' \<Longrightarrow> down_going f"
    and "down_going f' \<Longrightarrow> write_left f' = write_left f"
  shows "down_inv ps f'"
  using assms by (auto simp: down_inv_def)

lemma jobs_inv_keep:
  assumes "jobs_inv R qs ps f" and "df_jobs f' = df_jobs f" and "pipe_closed (df_pipe f) \<Longrightarrow> pipe_closed (df_pipe f')"
  shows "jobs_inv R qs ps f'"
  using assms by (auto simp: jobs_inv_def)

definition flow_inv :: "answer_rel \<Rightarrow> bytes \<Rightarrow> dns_flow \<Rightarrow> bool" where
  "flow_inv R sent f \<longleftrightarrow> (\<exists>qs ps. up_inv sent qs f \<and> down_inv ps f \<and> jobs_inv R qs ps f)"

lemmas down_defs = down_pending_def write_left_def down_going_def

lemma served_append [simp]: "served (ps @ ps') js = mset (map fst ps') + served ps js"
  by (simp add: served_def)

lemma served_jobs [simp]: "served ps (xs @ ys) = served ps xs + mset (job_queries ys)"
  by (simp add: served_def)

lemma job_queries_check [simp]: "job_queries (check_job e) = []"
  by (simp add: check_job_def)

text \<open>The steps of the goroutines, which leave the upward direction alone.\<close>

lemma jobs_inv_step:
  assumes "jobs_inv R qs ps f" and "\<forall>p\<in>set ps'. reply_ok R p" and "\<forall>j\<in>set js. j \<in> set (df_jobs f) \<or> waiting_ok R j"
    and "served (ps @ ps') js \<subseteq># served ps (df_jobs f)"
    and "pipe_closed (df_pipe f) \<Longrightarrow> pipe_closed (df_pipe f')" and "df_jobs f' = js"
    and "pipe_closed (df_pipe f') \<or> JClose \<in> set js \<or> JClose \<notin> set (df_jobs f) \<and> served (ps @ ps') js = served ps (df_jobs f)"
  shows "jobs_inv R qs (ps @ ps') f'"
proof -
  have "served (ps @ ps') js \<subseteq># mset qs"
    using assms(1,4) subset_mset.order_trans by (auto simp: jobs_inv_def simp del: served_append)
  then show ?thesis using assms by (auto simp: jobs_inv_def simp del: served_append)
qed

context dns_answers
begin

text \<open>\<open>forwardQuery\<close> starts its write: one more frame, behind the ones before.\<close>

lemma flow_inv_write:
  assumes "usable r" and "up_inv sent qs f" and "down_inv ps f" and inv: "jobs_inv (R r) qs ps f"
    and jobs: "df_jobs f = xs @ JWrite q resp e # ys" and reply: "\<not> no_reply resp e" and none: "df_write f = None"
    and f': "f' = f\<lparr>df_jobs := xs @ ys, df_write := Some \<lparr>rw_query = q, rw_left = frame (the_bytes resp), rw_err = e\<rparr>\<rparr>"
  shows "flow_inv (R r) sent f'"
proof -
  have R: "R r q resp e" using inv jobs by (auto simp: jobs_inv_def waiting_ok_def)
  then obtain b where b: "resp = Some b" using reply_frame [OF assms(1) R] reply by (auto simp: no_reply_def)
  then have ok: "reply_ok (R r) (q, b)" using R reply by (auto simp: reply_ok_def no_reply_def the_bytes_def)
  have "up_inv sent qs f'" by (rule up_inv_keep [OF assms(2)]) (simp_all add: f')
  moreover have "down_inv (ps @ [(q, b)]) f'"
    using assms(3) none b by (auto simp: f' down_inv_def down_defs the_bytes_def)
  moreover have "jobs_inv (R r) qs (ps @ [(q, b)]) f'"
    by (rule jobs_inv_step [OF inv, where js = "xs @ ys"]) (use ok jobs inv in \<open>auto simp: f' served_def jobs_inv_def\<close>)
  ultimately show ?thesis unfolding flow_inv_def by blast
qed

lemma flow_inv_read:
  assumes "up_inv sent qs f" and "down_inv ps f" and "jobs_inv (R r) qs ps f"
    and "acc_reading (df_acc f)" and "\<not> pipe_closed (df_pipe f)" and "df_up f = UpWriting (x # d) er"
    and "accept_read (df_acc f) (x # d) = (acc, left, q)"
  shows "flow_inv (R r) sent (f\<lparr>df_up := UpWriting left er, df_acc := acc, df_jobs := df_jobs f @ start_job q\<rparr>)" (is "flow_inv _ _ ?f")
proof -
  let ?qs = "qs @ (case q of None \<Rightarrow> [] | Some q \<Rightarrow> [q])"
  have "up_inv sent ?qs ?f" by (rule up_inv_read [OF assms(4-7,1)])
  moreover have "down_inv ps ?f" by (rule down_inv_keep [OF assms(2)]) (simp_all add: down_defs)
  moreover have "jobs_inv (R r) ?qs ps ?f" using assms(3) by (cases q) (auto simp: jobs_inv_def start_job_def waiting_ok_def)
  ultimately show ?thesis unfolding flow_inv_def by blast
qed

text \<open>A step of a goroutine or of the handler that leaves the bytes on their way alone; one of the relay to the client.\<close>

lemma jobs_inv_goroutine:
  assumes "jobs_inv (R r) qs ps f" and "dfstep (R r) f f'" and "df_jobs f' \<noteq> df_jobs f" and "df_acc f' = df_acc f"
    and "df_write f' = None \<or> df_write f' = df_write f"
  shows "jobs_inv (R r) qs ps f'"
  using assms(2)
proof (cases rule: dfstep.cases)
  case (a_read x d er acc left q)
  then show ?thesis using assms(3,4) by (cases "df_acc f") (auto simp: start_job_def acc_reading_def split: if_splits)
next
  case (g_none xs q resp e ys)
  show ?thesis
    by (rule jobs_inv_step [OF assms(1), of "[]" "xs @ JClose # ys", simplified]) (use g_none in \<open>auto simp: waiting_ok_def served_def\<close>)
next
  case (g_write xs q resp e ys)
  then show ?thesis using assms(5) by simp
next
  case (g_close xs ys)
  show ?thesis
    by (rule jobs_inv_step [OF assms(1), of "[]" "xs @ ys", simplified])
      (use g_close in \<open>auto simp: waiting_ok_def served_def pipe_closed_def\<close>)
qed (use assms in \<open>auto simp: jobs_inv_def waiting_ok_def served_def check_job_def start_job_def\<close>)

lemma flow_inv_step:
  assumes "usable r" and "dfstep (R r) f f'" and "flow_inv (R r) sent f" and "ends_ok f"
  shows "flow_inv (R r) sent f'"
proof -
  obtain qs ps where up: "up_inv sent qs f" and down: "down_inv ps f" and jobs: "jobs_inv (R r) qs ps f"
    using assms(3) by (auto simp: flow_inv_def)
  have both: ?thesis if "up_inv sent qs f'" "down_inv ps f'" "jobs_inv (R r) qs ps f'"
    using that unfolding flow_inv_def by blast
  note ukeep = up_inv_keep [OF up] and dkeep = down_inv_keep [OF down] and jkeep = jobs_inv_keep [OF jobs]
  have keep: ?thesis if "pipe_closed (df_pipe f') \<or> unread f' = unread f \<and> df_acc f' = df_acc f" "df_out f' = df_out f" "down_pending f' = down_pending f"
    "down_going f' \<Longrightarrow> down_going f \<and> write_left f' = write_left f"
    "df_jobs f' = df_jobs f \<or> df_acc f' = df_acc f \<and> (df_write f' = None \<or> df_write f' = df_write f)" "pipe_closed (df_pipe f) \<Longrightarrow> pipe_closed (df_pipe f')"
    using that jkeep [of f'] jobs_inv_goroutine [OF jobs assms(2)] by (intro both ukeep dkeep) auto
  show ?thesis
    using assms(2)
  proof (cases rule: dfstep.cases)
    case (u_read src up')
    then show ?thesis
      using unread_turn [OF u_read(4,2)] by (intro both ukeep dkeep jkeep) (simp_all add: down_defs)
  next
    case u_read_closed
    then have "pipe_closed (df_pipe f)" using assms(4) by (auto simp: ends_ok_def pipe_closed_def)
    then show ?thesis using u_read_closed by (intro keep) (simp_all add: down_defs)
  next
    case (u_written er)
    have "unread f' = unread f" using u_written by (auto simp: unread_def after_write_def split: option.splits)
    then show ?thesis using u_written by (intro keep) (simp_all add: down_defs)
  next
    case (a_read x d er acc left q)
    then show ?thesis using flow_inv_read [OF up down jobs] by blast
  next
    case (g_write xs q resp e ys)
    then show ?thesis using flow_inv_write [OF assms(1) up down jobs] by blast
  next
    case (d_read w)
    have "prefix (df_out f @ take 32768 (rw_left w)) (df_out f @ rw_left w)" by (simp add: take_is_prefix)
    moreover have "df_out f @ rw_left w = concat (map (frame \<circ> snd) ps)" using down d_read by (simp add: down_inv_def down_defs)
    ultimately have "down_inv ps f'" using d_read by (simp add: down_inv_def down_defs)
    then show ?thesis using d_read by (intro both ukeep jkeep) simp_all
  next
    case (d_write b)
    then show ?thesis using down by (intro both ukeep jkeep) (auto simp: down_inv_def down_defs)
  next
    case (d_write_failed b k)
    have "prefix (df_out f @ take k b) (df_out f @ b)" by (simp add: take_is_prefix)
    then have "down_inv ps f'"
      using down d_write_failed prefix_order.order_trans by (fastforce simp: down_inv_def down_defs)
    then show ?thesis using d_write_failed by (intro both ukeep jkeep) simp_all
  qed (rule keep; auto simp: down_defs pipe_defs)+
qed

lemma dfreach_inv:
  assumes "usable r"
  shows "dfreach (R r) src f \<Longrightarrow> flow_inv (R r) (src_data src) f"
proof (induction rule: dfreach.induct)
  case (dr_start pipe duplex)
  have "up_inv (src_data src) [] (dns_flow_start duplex src pipe)" "down_inv [] (dns_flow_start duplex src pipe)"
    "jobs_inv (R r) [] [] (dns_flow_start duplex src pipe)"
    by (simp_all add: up_inv_def accepts_def frames_taken_def unread_def down_inv_def down_defs jobs_inv_def served_def dns_flow_start_def)
  then show ?case unfolding flow_inv_def by blast
next
  case (dr_step f f')
  then show ?case using flow_inv_step [OF assms] dfreach_ends by blast
qed

text \<open>
  What the client gets. While the pipe is open \<open>qs\<close> are exactly the queries that \<open>Accept\<close> has taken, and each of them is
  answered or with its goroutine, unless one has failed.
\<close>

lemma dns_flow_stream:
  assumes "usable r" and "dfreach (R r) src f"
  shows "\<exists>qs ps. (\<forall>q\<in>set qs. length q < 65536) \<and> prefix (concat (map frame qs)) (src_data src)
    \<and> (\<not> pipe_closed (df_pipe f) \<longrightarrow> accepts (src_data src) qs f)
    \<and> prefix (df_out f) (concat (map (frame \<circ> snd) ps))
    \<and> (\<forall>(q, b)\<in>set ps. be16 b = be16 q \<and> length b \<le> 65535 \<and> (\<exists>e. R r q (Some b) e))
    \<and> mset (map fst ps) \<subseteq># mset qs
    \<and> (\<not> pipe_closed (df_pipe f) \<longrightarrow> JClose \<notin> set (df_jobs f) \<longrightarrow> mset (map fst ps) + mset (job_queries (df_jobs f)) = mset qs)
    \<and> (dns_quiet f \<longrightarrow> df_out f = concat (map (frame \<circ> snd) ps) \<and> mset (map fst ps) = mset qs)"
proof -
  obtain qs ps where up: "up_inv (src_data src) qs f" and down: "down_inv ps f" and jobs: "jobs_inv (R r) qs ps f"
    using dfreach_inv [OF assms] by (auto simp: flow_inv_def)
  have 1: "\<forall>q\<in>set qs. length q < 65536" "prefix (concat (map frame qs)) (src_data src)"
      "\<not> pipe_closed (df_pipe f) \<longrightarrow> accepts (src_data src) qs f"
    using up by (auto simp: up_inv_def)
  have 2: "prefix (df_out f) (concat (map (frame \<circ> snd) ps))"
    using down append_prefixD by (fastforce simp: down_inv_def)
  have 3: "\<forall>(q, b)\<in>set ps. be16 b = be16 q \<and> length b \<le> 65535 \<and> (\<exists>e. R r q (Some b) e)"
    using jobs answer_id [OF assms(1)] by (fastforce simp: jobs_inv_def reply_ok_def)
  have "mset (map fst ps) \<subseteq># served ps (df_jobs f)" by (simp add: served_def)
  then have 4: "mset (map fst ps) \<subseteq># mset qs"
    using jobs subset_mset.order_trans by (auto simp: jobs_inv_def)
  have 5: "\<not> pipe_closed (df_pipe f) \<longrightarrow> JClose \<notin> set (df_jobs f) \<longrightarrow> mset (map fst ps) + mset (job_queries (df_jobs f)) = mset qs"
    using jobs by (auto simp: jobs_inv_def served_def)
  have 6: "dns_quiet f \<longrightarrow> df_out f = concat (map (frame \<circ> snd) ps) \<and> mset (map fst ps) = mset qs"
    using down jobs by (auto simp: dns_quiet_def down_inv_def down_defs jobs_inv_def served_def)
  show ?thesis using 1 2 3 4 5 6 by (intro exI [of _ qs] exI [of _ ps] conjI)
qed

end

subsection \<open>After the client's end\<close>

lemma dfstep_closed:
  assumes "dfstep R f f'" and "pipe_closed (df_pipe f)"
  shows "pipe_closed (df_pipe f') \<and> prefix (df_out f' @ down_pending f') (df_out f @ down_pending f)"
  using assms by (induction rule: dfstep.induct) (auto simp: down_pending_def pipe_defs take_is_prefix)

text \<open>Once an end of the pipe is closed, the client gets at most what the relay has already taken out of it.\<close>

lemma closed_run:
  "(dfstep R)\<^sup>*\<^sup>* f f' \<Longrightarrow> pipe_closed (df_pipe f) \<Longrightarrow>
     pipe_closed (df_pipe f') \<and> prefix (df_out f' @ down_pending f') (df_out f @ down_pending f)"
proof (induction rule: rtranclp_induct)
  case (step g h)
  then show ?case using dfstep_closed [OF step.hyps(2)] prefix_order.order_trans by blast
qed simp

subsection \<open>One query\<close>

text \<open>A client that sends one query, in one segment, has it accepted; \<open>er\<close> comes with the segment.\<close>

definition accepted_flow :: "pipeConn \<Rightarrow> bytes \<Rightarrow> goerr option \<Rightarrow> dns_flow" where
  "accepted_flow pipe q er = (dns_flow_start False [] pipe)\<lparr>df_up := UpWriting [] er, df_jobs := [JQuery q]\<rparr>"

lemma query_accepted:
  assumes "q \<noteq> []" and "length (frame q) \<le> 32768" and "newPipeConn False False = Inr pipe"
  shows "dfreach R [(frame q, er)] (accepted_flow pipe q er)"
proof -
  let ?f0 = "dns_flow_start False [(frame q, er)] pipe"
  let ?f1 = "?f0\<lparr>df_in := [], df_up := UpWriting (frame q) er\<rparr>"
  let ?f2 = "?f1\<lparr>df_up := UpWriting q er, df_acc := AccQuery (length q)\<rparr>"
  let ?f3 = "?f2\<lparr>df_up := UpWriting [] er, df_acc := AccLength, df_jobs := [JQuery q]\<rparr>"
  have open_pipe: "\<not> pipe_closed pipe" using assms(3) by (auto simp: newPipeConn_def pipe_closed_def)
  obtain x d where fr: "frame q = x # d" by (cases "frame q") (auto simp: frame_def enc16_def)
  have be: "be16 (x # d) = of_nat (length q)" using fr by (simp add: frame_def flip: fr)
  have lq: "length q < 65536" using assms(2) by simp
  then have read: "accept_read AccLength (x # d) = (AccQuery (length q), q, None)"
    using be fr by (auto simp: frame_def simp flip: fr)
  have 0: "dfreach R [(frame q, er)] ?f0" by (rule dr_start [OF assms(3)])
  have "pipe_ReadFrom_turn (df_in ?f0) = ([], UpWriting (frame q) er)"
    using assms(2) by (auto simp: pipe_ReadFrom_turn_def src_read_def dns_flow_start_def fr)
  from u_read [OF _ _ this, of R] have 1: "dfstep R ?f0 ?f1" by (simp add: dns_flow_start_def)
  have 2: "dfstep R ?f1 ?f2"
    using a_read [of ?f1 x d er "AccQuery (length q)" q None R] read open_pipe fr
    by (simp add: dns_flow_start_def acc_reading_def start_job_def)
  obtain y q' where q: "q = y # q'" using assms(1) by (cases q) auto
  have 3: "dfstep R ?f2 ?f3"
    using a_read [of ?f2 y q' er AccLength "[]" "Some q" R] open_pipe q
    by (simp add: dns_flow_start_def acc_reading_def start_job_def)
  note st = dr_step [of R "[(frame q, er)]"]
  have "dfreach R [(frame q, er)] ?f3" by (rule st [OF st [OF st [OF 0 1] 2] 3])
  then show ?thesis by (simp add: accepted_flow_def dns_flow_start_def)
qed

text \<open>If it goes on listening, its answer comes back, and the flow stays open.\<close>

lemma one_query_run:
  assumes "R q (Some b) None" and "q \<noteq> []" and "length (frame q) \<le> 32768" and "length (frame b) \<le> 32768"
    and "newPipeConn False False = Inr pipe"
  shows "\<exists>f. dfreach R [(frame q, None)] f \<and> df_out f = frame b \<and> \<not> pipe_closed (df_pipe f) \<and> df_up f = UpWriting [] None
    \<and> df_down f = DownRead"
proof -
  let ?f3 = "accepted_flow pipe q None"
  let ?f4 = "?f3\<lparr>df_jobs := [JWrite q (Some b) None]\<rparr>"
  let ?w = "\<lparr>rw_query = q, rw_left = frame b, rw_err = None\<rparr>"
  let ?f5 = "?f4\<lparr>df_jobs := [], df_write := Some ?w\<rparr>"
  let ?f6 = "?f5\<lparr>df_down := DownWriting (frame b), df_write := Some (?w\<lparr>rw_left := []\<rparr>)\<rparr>"
  let ?f7 = "?f6\<lparr>df_out := frame b, df_down := DownRead\<rparr>"
  have open_pipe: "\<not> pipe_closed pipe" using assms(5) by (auto simp: newPipeConn_def pipe_closed_def)
  have fields: "df_pipe ?f3 = pipe" "df_jobs ?f3 = [JQuery q]" "df_write ?f3 = None" "df_down ?f3 = DownRead"
    "df_out ?f3 = []" "\<not> df_stack_wshut ?f3" "\<not> df_stack_closed ?f3" "df_up ?f3 = UpWriting [] None"
    by (simp_all add: accepted_flow_def dns_flow_start_def)
  have 4: "dfstep R ?f3 ?f4"
    using g_query [of ?f3 "[]" q "[]" R "Some b" None] assms(1) fields by simp
  have 5: "dfstep R ?f4 ?f5"
    using g_write [of ?f4 "[]" q "Some b" None "[]" R] assms(4) fields by (simp add: no_reply_def the_bytes_def)
  have ne: "frame b \<noteq> []" by (simp add: frame_def enc16_def)
  have 6: "dfstep R ?f5 ?f6"
    using d_read [of ?f5 ?w R] assms(4) open_pipe ne fields by simp
  have 7: "dfstep R ?f6 ?f7" using d_write [of ?f6 "frame b" R] fields by simp
  note st = dr_step [of R "[(frame q, None)]"]
  have "dfreach R [(frame q, None)] ?f7" by (rule st [OF st [OF st [OF st [OF query_accepted [OF assms(2,3,5)] 4] 5] 6] 7])
  then show ?thesis using open_pipe fields by (intro exI [of _ ?f7]) simp
qed

text \<open>If it shuts down its sending side with the query, the relay ends while the query is with the resolver.\<close>

lemma half_closed_run:
  assumes "q \<noteq> []" and "length (frame q) \<le> 32768" and "newPipeConn False False = Inr pipe"
  shows "\<exists>f. dfreach R [(frame q, Some e)] f \<and> df_up f = UpEnded \<and> df_jobs f = [JQuery q] \<and> df_out f = [] \<and> df_down f = DownRead"
proof -
  let ?f3 = "accepted_flow pipe q (Some e)"
  let ?f4 = "?f3\<lparr>df_up := UpCopied\<rparr>"
  let ?f5 = "?f4\<lparr>df_pipe := fst (pipe_CloseWrite pipe), df_up := UpEnded\<rparr>"
  have 4: "dfstep R ?f3 ?f4"
    using u_written [of ?f3 "Some e" R] by (simp add: accepted_flow_def dns_flow_start_def after_write_def)
  have 5: "dfstep R ?f4 ?f5" using u_end [of ?f4 R] by (simp add: accepted_flow_def dns_flow_start_def)
  note st = dr_step [of R "[(frame q, Some e)]"]
  have "dfreach R [(frame q, Some e)] ?f5" by (rule st [OF st [OF query_accepted [OF assms] 4] 5])
  then show ?thesis by (intro exI [of _ ?f5]) (simp add: accepted_flow_def dns_flow_start_def)
qed

end
