(* ===== verification/App.thy ===== *)
theory App
  imports DohResolver DotResolver Transport
begin

section \<open>Engine, sessions and the Android bridge (core, app/session, infra/android, main, common/tun)\<close>

text \<open>
  The life of a tunnel: the TUN descriptor is duplicated, an engine with its two transports and the
  netstack device is built on it, a session wraps the engine, and the bridge keeps the sessions under
  handles. gVisor and the operating system are arguments (\<open>conn_env\<close>): the descriptor that \<open>dup\<close> gives, the
  results of the netstack calls. The open descriptors are part of the state, so that leaks can be stated.
\<close>

subsection \<open>Descriptors (common/tun/device.go)\<close>

text \<open>
  The open descriptors. \<open>fd_misses\<close> is no state of the code: it keeps the calls of \<open>Close\<close> for a descriptor that is not
  open (\<open>os.ErrClosed\<close>, which the code drops), so that a second close can be stated.
\<close>

record fds =
  fd_open :: "nat set"
  fd_misses :: "nat list"

definition open_fds :: "nat set \<Rightarrow> fds" where
  "open_fds os = \<lparr>fd_open = os, fd_misses = []\<rparr>"

definition MakeTunDeviceFromFD :: "int \<Rightarrow> goerr + nat \<Rightarrow> fds \<Rightarrow> fds \<times> (goerr + nat)" where
  "MakeTunDeviceFromFD fd dup os =
     (if fd < 0 then (os, Inl (EMsg ''must provide a valid TUN file descriptor''))
      else case dup of
        Inl err \<Rightarrow> (os, Inl err)
      | Inr newfd \<Rightarrow> (os\<lparr>fd_open := insert newfd (fd_open os)\<rparr>, Inr newfd))"

definition file_Close :: "nat \<Rightarrow> fds \<Rightarrow> fds" where
  "file_Close fd os =
     (if fd \<in> fd_open os then os\<lparr>fd_open := fd_open os - {fd}\<rparr> else os\<lparr>fd_misses := fd_misses os @ [fd]\<rparr>)"

subsection \<open>The netstack device (transport/stack/device.go)\<close>

definition nicID :: nat where "nicID = 1"
definition defaultMTU :: nat where "defaultMTU = 1500"
definition DefaultMTU :: nat where "DefaultMTU = defaultMTU"
definition vpnClientIPv4 :: string where "vpnClientIPv4 = ''10.111.222.1''"
definition vpnPrefixLen :: nat where "vpnPrefixLen = 24"

text \<open>The netstack as \<open>NewDevice\<close> sets it up: its link, its address, where it routes, the forwarders registered.\<close>

record stack_config =
  sc_fd :: nat
  sc_mtu :: nat
  sc_nic :: nat
  sc_addr :: ip
  sc_prefixLen :: nat
  sc_routes :: "(string \<times> nat) list"
  sc_spoofing :: bool
  sc_promiscuous :: bool
  sc_tcp_forwarder :: "(nat \<times> nat) option"
  sc_udp_forwarder :: bool

record device =
  dv_stack :: "stack_config option"
  dv_tun :: "nat option"

text \<open>
  The results of \<open>fdbased.New\<close>, \<open>CreateNIC\<close>, \<open>AddProtocolAddress\<close>, \<open>SetSpoofing\<close> and \<open>SetPromiscuousMode\<close>; the first error
  ends \<open>NewDevice\<close> (and leaves the netstack made so far to itself).
\<close>

record stack_results =
  sr_fdbased :: "goerr option"
  sr_CreateNIC :: "goerr option"
  sr_AddProtocolAddress :: "goerr option"
  sr_SetSpoofing :: "goerr option"
  sr_SetPromiscuousMode :: "goerr option"

definition clientAddr :: ip where
  "clientAddr = (case ParseIP vpnClientIPv4 of None \<Rightarrow> [] | Some a \<Rightarrow> (case To4 a of None \<Rightarrow> [] | Some b \<Rightarrow> b))"

text \<open>The forwarder of a transport protocol; that of TCP with its receive window and its bound on half-open connections.\<close>

definition registerTCPForwarder :: "stack_config \<Rightarrow> stack_config" where
  "registerTCPForwarder s = s\<lparr>sc_tcp_forwarder := Some (256 * 1024, 65535)\<rparr>"

definition registerUDPForwarder :: "stack_config \<Rightarrow> stack_config" where
  "registerUDPForwarder s = s\<lparr>sc_udp_forwarder := True\<rparr>"

definition NewDevice :: "stack_results \<Rightarrow> nat \<Rightarrow> nat \<Rightarrow> goerr + device" where
  "NewDevice sr tunFile mtu =
     (let mtu' = (if mtu = 0 then defaultMTU else mtu) in
      case sr_fdbased sr of Some e \<Rightarrow> Inl (EWrap ''fdbased.New'' e)
      | None \<Rightarrow>
     (case sr_CreateNIC sr of Some e \<Rightarrow> Inl (EMsg ''CreateNIC'')
      | None \<Rightarrow>
     (case sr_AddProtocolAddress sr of Some e \<Rightarrow> Inl (EMsg ''AddProtocolAddress'')
      | None \<Rightarrow>
     (case sr_SetSpoofing sr of Some e \<Rightarrow> Inl (EMsg ''SetSpoofing'')
      | None \<Rightarrow>
     (case sr_SetPromiscuousMode sr of Some e \<Rightarrow> Inl (EMsg ''SetPromiscuousMode'')
      | None \<Rightarrow>
          let s = \<lparr>sc_fd = tunFile, sc_mtu = mtu', sc_nic = nicID, sc_addr = clientAddr, sc_prefixLen = vpnPrefixLen,
                sc_routes = [(''0.0.0.0/0'', nicID)], sc_spoofing = True, sc_promiscuous = True,
                sc_tcp_forwarder = None, sc_udp_forwarder = False\<rparr>
          in Inr \<lparr>dv_stack = Some (registerUDPForwarder (registerTCPForwarder s)), dv_tun = Some tunFile\<rparr>)))))"

lemma clientAddr_eq: "clientAddr = [10, 111, 222, 1]"
  by code_simp

definition device_Close :: "device \<Rightarrow> fds \<Rightarrow> device \<times> fds" where
  "device_Close d os =
     (d\<lparr>dv_stack := None, dv_tun := None\<rparr>, case dv_tun d of None \<Rightarrow> os | Some fd \<Rightarrow> file_Close fd os)"

subsection \<open>The engine (core/engine.go)\<close>

text \<open>A resolver of either kind, as a value of the interface \<open>doh.Resolver\<close>.\<close>

datatype any_resolver = DoH resolver | DoT dot_resolver

record engine =
  en_cancelled :: bool
  en_device :: "device option"
  en_outbound :: "any_resolver OutboundDialer"
  en_udpNat :: "any_resolver UdpNat"
  en_tun :: nat

text \<open>
  \<open>fakeUDP\<close> is the result of \<open>net.ResolveUDPAddr\<close> for the fake DNS address; the TUN device is always an
  \<open>*os.File\<close> here, as its only maker returns one.
\<close>

definition NewEngine :: "goerr + addr_port \<Rightarrow> any_resolver option \<Rightarrow> nat \<Rightarrow> Protector option \<Rightarrow> bool
    \<Rightarrow> stack_results \<Rightarrow> goerr + engine" where
  "NewEngine fakeUDP resolver tun protector listener sr =
     (if \<not> listener then Inl (EMsg ''listener is required'')
      else case fakeUDP of
        Inl err \<Rightarrow> Inl (EWrap ''failed to resolve fakedns'' err)
      | Inr addr \<Rightarrow>
     (case NewOutboundDialer addr resolver protector listener of
        Inl err \<Rightarrow> Inl err
      | Inr outbound \<Rightarrow>
     (case NewUdpNat addr resolver protector listener of
        Inl err \<Rightarrow> Inl err
      | Inr udpNat \<Rightarrow>
     (case NewDevice sr tun DefaultMTU of
        Inl err \<Rightarrow> Inl (EWrap ''failed to create netstack device'' err)
      | Inr dev \<Rightarrow> Inr \<lparr>en_cancelled = False, en_device = Some dev, en_outbound = outbound,
          en_udpNat = udpNat, en_tun = tun\<rparr>))))"

definition SetDNS :: "any_resolver option \<Rightarrow> engine \<Rightarrow> engine" where
  "SetDNS resolver e = e\<lparr>en_outbound := fst (od_SetDNS resolver (en_outbound e)),
     en_udpNat := fst (un_SetDNS resolver (en_udpNat e))\<rparr>"

definition engine_Disconnect :: "engine \<Rightarrow> fds \<Rightarrow> engine \<times> fds" where
  "engine_Disconnect e os =
     (let e1 = e\<lparr>en_cancelled := True\<rparr> in
      case en_device e1 of
        Some d \<Rightarrow> (e1\<lparr>en_device := None\<rparr>, snd (device_Close d os))
      | None \<Rightarrow> (e1, file_Close (en_tun e1) os))"

subsection \<open>Sessions (app/session)\<close>

record conn_env =
  ce_parse_doh :: "string \<Rightarrow> goerr + url_parts"
  ce_parse_dot :: "string \<Rightarrow> goerr + dot_url"
  ce_lookup :: "string \<Rightarrow> ip list \<times> goerr option"
  ce_dup :: "goerr + nat"
  ce_resolve :: "string \<Rightarrow> goerr + addr_port"
  ce_stack :: stack_results

definition bootstrap_ips :: "string \<Rightarrow> string list" where
  "bootstrap_ips ipsStr = (if 0 < length ipsStr then split_on (CHR '','') ipsStr else [])"

definition NewDoHServer :: "conn_env \<Rightarrow> string \<Rightarrow> string \<Rightarrow> bool \<Rightarrow> goerr + any_resolver" where
  "NewDoHServer ce url ipsStr listener =
     (case NewResolver (ce_parse_doh ce) (ce_lookup ce) url (bootstrap_ips ipsStr) listener of
        Inl err \<Rightarrow> Inl err | Inr t \<Rightarrow> Inr (DoH t))"

definition NewDoTServer :: "conn_env \<Rightarrow> string \<Rightarrow> string \<Rightarrow> bool \<Rightarrow> goerr + any_resolver" where
  "NewDoTServer ce url ipsStr listener =
     (case dot_NewResolver (ce_parse_dot ce) (ce_lookup ce) url (bootstrap_ips ipsStr) listener of
        Inl err \<Rightarrow> Inl err | Inr t \<Rightarrow> Inr (DoT t))"

text \<open>\<open>SetDoHServer\<close> and \<open>SetDoTServer\<close>; a nil server changes nothing.\<close>

definition SetServer :: "any_resolver option \<Rightarrow> engine \<Rightarrow> engine" where
  "SetServer svr s = (case svr of None \<Rightarrow> s | Some r \<Rightarrow> SetDNS (Some r) s)"

definition connectSessionWithResolver :: "conn_env \<Rightarrow> int \<Rightarrow> string \<Rightarrow> any_resolver \<Rightarrow> Protector option \<Rightarrow> bool
    \<Rightarrow> fds \<Rightarrow> fds \<times> (goerr + engine)" where
  "connectSessionWithResolver ce fd fakedns r protector listener os =
     (case MakeTunDeviceFromFD fd (ce_dup ce) os of
        (os1, Inl err) \<Rightarrow> (os1, Inl err)
      | (os1, Inr tunDev) \<Rightarrow>
          (case NewEngine (ce_resolve ce fakedns) (Some r) tunDev protector listener (ce_stack ce) of
             Inl err \<Rightarrow> (file_Close tunDev os1, Inl err)
           | Inr engine \<Rightarrow> (os1, Inr engine)))"

text \<open>\<open>ConnectSessionDoH\<close> and \<open>ConnectSessionDoT\<close>.\<close>

definition ConnectSession :: "conn_env \<Rightarrow> int \<Rightarrow> string \<Rightarrow> any_resolver option \<Rightarrow> Protector option \<Rightarrow> bool
    \<Rightarrow> fds \<Rightarrow> fds \<times> (goerr + engine)" where
  "ConnectSession ce fd fakedns dns protector listener os =
     (case dns of
        None \<Rightarrow> (os, Inl (EMsg ''dns must not be nil''))
      | Some r \<Rightarrow> connectSessionWithResolver ce fd fakedns r protector listener os)"

subsection \<open>The bridge (infra/android/bridge.go)\<close>

record bridge =
  br_sessions :: "i32 \<Rightarrow> engine option"
  br_nextHandle :: i32
  br_fds :: fds

definition br_init :: "nat set \<Rightarrow> bridge" where
  "br_init os = \<lparr>br_sessions = Map.empty, br_nextHandle = 1, br_fds = open_fds os\<rparr>"

text \<open>What \<open>ConnectDoH\<close> and \<open>ConnectDoT\<close> do with the server they made, or failed to make.\<close>

definition connect_with :: "conn_env \<Rightarrow> int \<Rightarrow> string \<Rightarrow> goerr + any_resolver \<Rightarrow> Protector \<Rightarrow> bridge
    \<Rightarrow> bridge \<times> i32 \<times> goerr option" where
  "connect_with ce tunFd fakeDns server protector b =
     (case server of
        Inl err \<Rightarrow> (b, 0, Some err)
      | Inr s \<Rightarrow>
          (case ConnectSession ce tunFd fakeDns (Some s) (Some protector) True (br_fds b) of
             (os, Inl err) \<Rightarrow> (b\<lparr>br_fds := os\<rparr>, 0, Some err)
           | (os, Inr sess) \<Rightarrow>
               let handle = br_nextHandle b + 1 in
               (b\<lparr>br_sessions := (br_sessions b)(handle \<mapsto> sess), br_nextHandle := handle, br_fds := os\<rparr>,
                handle, None)))"

definition ConnectDoH :: "conn_env \<Rightarrow> Protector \<Rightarrow> int \<Rightarrow> string \<Rightarrow> string \<Rightarrow> string \<Rightarrow> bridge
    \<Rightarrow> bridge \<times> i32 \<times> goerr option" where
  "ConnectDoH ce pr tunFd fakeDns url bootstrapIPs b =
     connect_with ce tunFd fakeDns (NewDoHServer ce url bootstrapIPs True) pr b"

definition ConnectDoT :: "conn_env \<Rightarrow> Protector \<Rightarrow> int \<Rightarrow> string \<Rightarrow> string \<Rightarrow> string \<Rightarrow> bridge
    \<Rightarrow> bridge \<times> i32 \<times> goerr option" where
  "ConnectDoT ce pr tunFd fakeDns hostname bootstrapIPs b =
     connect_with ce tunFd fakeDns (NewDoTServer ce hostname bootstrapIPs True) pr b"

definition br_Disconnect :: "i32 \<Rightarrow> bridge \<Rightarrow> bridge" where
  "br_Disconnect handle b =
     (case br_sessions b handle of
        None \<Rightarrow> b
      | Some sess \<Rightarrow> b\<lparr>br_sessions := (br_sessions b)(handle := None),
          br_fds := snd (engine_Disconnect sess (br_fds b))\<rparr>)"

definition set_server_with :: "i32 \<Rightarrow> goerr + any_resolver \<Rightarrow> bridge \<Rightarrow> bridge \<times> goerr option" where
  "set_server_with handle server b =
     (case br_sessions b handle of
        None \<Rightarrow> (b, Some (EMsg ''session not found''))
      | Some sess \<Rightarrow>
          (case server of
             Inl err \<Rightarrow> (b, Some err)
           | Inr s \<Rightarrow> (b\<lparr>br_sessions := (br_sessions b)(handle \<mapsto> SetServer (Some s) sess)\<rparr>, None)))"

definition br_SetDoHServer :: "conn_env \<Rightarrow> i32 \<Rightarrow> string \<Rightarrow> string \<Rightarrow> bridge \<Rightarrow> bridge \<times> goerr option" where
  "br_SetDoHServer ce handle url bootstrapIPs b = set_server_with handle (NewDoHServer ce url bootstrapIPs True) b"

definition br_SetDoTServer :: "conn_env \<Rightarrow> i32 \<Rightarrow> string \<Rightarrow> string \<Rightarrow> bridge \<Rightarrow> bridge \<times> goerr option" where
  "br_SetDoTServer ce handle hostname bootstrapIPs b =
     set_server_with handle (NewDoTServer ce hostname bootstrapIPs True) b"

text \<open>The exported functions of \<open>main.go\<close>: a status, and the handle written through the pointer on success.\<close>

definition localdnsConnectDoH :: "conn_env \<Rightarrow> Protector \<Rightarrow> int \<Rightarrow> string \<Rightarrow> string \<Rightarrow> string \<Rightarrow> bridge
    \<Rightarrow> bridge \<times> int \<times> i32 option" where
  "localdnsConnectDoH ce pr tunFd fakeDns url bootstrapIPs b =
     (case ConnectDoH ce pr tunFd fakeDns url bootstrapIPs b of
        (b', handle, Some err) \<Rightarrow> (b', - 1, None)
      | (b', handle, None) \<Rightarrow> (b', 0, Some handle))"

definition localdnsConnectDoT :: "conn_env \<Rightarrow> Protector \<Rightarrow> int \<Rightarrow> string \<Rightarrow> string \<Rightarrow> string \<Rightarrow> bridge
    \<Rightarrow> bridge \<times> int \<times> i32 option" where
  "localdnsConnectDoT ce pr tunFd fakeDns hostname bootstrapIPs b =
     (case ConnectDoT ce pr tunFd fakeDns hostname bootstrapIPs b of
        (b', handle, Some err) \<Rightarrow> (b', - 1, None)
      | (b', handle, None) \<Rightarrow> (b', 0, Some handle))"

definition localdnsDisconnect :: "i32 \<Rightarrow> bridge \<Rightarrow> bridge" where
  "localdnsDisconnect handle b = br_Disconnect handle b"

definition localdnsSetDoHServer :: "conn_env \<Rightarrow> i32 \<Rightarrow> string \<Rightarrow> string \<Rightarrow> bridge \<Rightarrow> bridge \<times> int" where
  "localdnsSetDoHServer ce handle url bootstrapIPs b =
     (case br_SetDoHServer ce handle url bootstrapIPs b of
        (b', Some err) \<Rightarrow> (b', - 1) | (b', None) \<Rightarrow> (b', 0))"

definition localdnsSetDoTServer :: "conn_env \<Rightarrow> i32 \<Rightarrow> string \<Rightarrow> string \<Rightarrow> bridge \<Rightarrow> bridge \<times> int" where
  "localdnsSetDoTServer ce handle hostname bootstrapIPs b =
     (case br_SetDoTServer ce handle hostname bootstrapIPs b of
        (b', Some err) \<Rightarrow> (b', - 1) | (b', None) \<Rightarrow> (b', 0))"

subsection \<open>The host name of a query\<close>

text \<open>
  The label loop of \<open>extractHostname\<close>, on the bytes from \<open>offset\<close> on; it does not follow compression
  pointers, and a label that runs past the end stops it.
\<close>

function label_loop :: "bytes \<Rightarrow> string list" where
  "label_loop [] = []"
| "label_loop (b # r) =
     (let len = unat b in
      if len = 0 then []
      else if length r < len then []
      else map (\<lambda>x. char_of (unat x)) (take len r) # label_loop (drop len r))"
  by pat_completeness auto
termination by (relation "measure length") auto

definition extractHostname :: "bytes \<Rightarrow> string" where
  "extractHostname query =
     (if length query < 13 then []
      else join_with CHR ''.'' (label_loop (drop 12 query)))"

text \<open>A C string that may be nil, as a Go string; the protector over the two JNI functions.\<close>

definition goString :: "string option \<Rightarrow> string" where
  "goString str = (case str of None \<Rightarrow> [] | Some s \<Rightarrow> s)"

definition jniProtector :: "(i32 \<Rightarrow> int) \<Rightarrow> string option \<Rightarrow> Protector" where
  "jniProtector localdns_jni_protect localdns_jni_get_resolvers =
     \<lparr>pr_Protect = (\<lambda>socket. localdns_jni_protect socket \<noteq> 0), pr_GetResolvers = goString localdns_jni_get_resolvers\<rparr>"

text \<open>
  What the application reads of a query's summary, with the latency in nanoseconds (the code has it in
  seconds, as a float); a status is an int.
\<close>

fun DoHStatus :: "dstatus \<Rightarrow> int" where
  "DoHStatus Complete = 0"
| "DoHStatus SendFailed = 1"
| "DoHStatus HTTPError = 2"
| "DoHStatus BadQuery = 3"
| "DoHStatus BadResponse = 4"
| "DoHStatus InternalError = 5"

definition GetQuery :: "Summary \<Rightarrow> bytes" where "GetQuery s = sm_Query s"
definition GetResponse :: "Summary \<Rightarrow> bytes option" where "GetResponse s = sm_Response s"
definition GetServer :: "Summary \<Rightarrow> string" where "GetServer s = sm_Server s"
definition GetStatus :: "Summary \<Rightarrow> int" where "GetStatus s = DoHStatus (sm_Status s)"
definition GetHTTPStatus :: "Summary \<Rightarrow> nat" where "GetHTTPStatus s = sm_HTTPStatus s"
definition GetLatency :: "Summary \<Rightarrow> duration" where "GetLatency s = sm_Latency s"

text \<open>\<open>OnResponse\<close> of the bridge's listener, up to the JNI call; \<open>millis\<close> is \<open>int64(seconds * 1000)\<close>.\<close>

definition jni_OnResponse :: "(duration \<Rightarrow> i64) \<Rightarrow> Summary option \<Rightarrow> (string \<times> i64 \<times> int) option" where
  "jni_OnResponse millis summary =
     map_option (\<lambda>s. (extractHostname (GetQuery s), millis (GetLatency s), GetStatus s)) summary"

subsection \<open>Properties: the host name\<close>

definition wire_label :: "string \<Rightarrow> bytes" where
  "wire_label l = of_nat (length l) # map (\<lambda>c. of_nat (of_char c)) l"

lemma char_roundtrip: "char_of (unat (of_nat (of_char c) :: byte)) = c"
proof -
  have "of_char c < (256 :: nat)" by simp
  then have "unat (of_nat (of_char c) :: byte) = of_char c" by (simp add: unat_of_nat)
  then show ?thesis by simp
qed

lemma label_loop_wire:
  "\<forall>l\<in>set ls. l \<noteq> [] \<and> length l < 256 \<Longrightarrow> label_loop (concat (map wire_label ls) @ 0 # rest) = ls"
proof (induction ls)
  case (Cons l ls)
  have "unat (of_nat (length l) :: byte) = length l" using Cons.prems by (simp add: unat_of_nat)
  then show ?case using Cons by (simp add: wire_label_def Let_def char_roundtrip comp_def)
qed simp

text \<open>
  The bridge reports the name that was asked for: from a query whose question starts with the labels
  of a name, uncompressed, \<open>extractHostname\<close> gives the labels joined by dots.
\<close>

theorem extractHostname_name:
  assumes "length hdr = 12" and "ls \<noteq> []" and "\<forall>l\<in>set ls. l \<noteq> [] \<and> length l < 256"
  shows "extractHostname (hdr @ concat (map wire_label ls) @ 0 # rest) = join_with CHR ''.'' ls"
  using assms label_loop_wire [OF assms(3), of rest] by (simp add: extractHostname_def)

theorem extractHostname_name_witness:
  "extractHostname ([0, 0, 1, 0, 0, 1, 0, 0, 0, 0, 0, 0] @ concat (map wire_label [''youtube'', ''com'']) @ 0 # [0, 1, 0, 1])
     = join_with CHR ''.'' [''youtube'', ''com'']"
  by (rule extractHostname_name) simp_all

subsection \<open>Properties: sessions and descriptors\<close>

lemma NewEngine_ok:
  assumes "NewEngine fakeUDP resolver tun protector listener sr = Inr e"
  shows "en_tun e = tun \<and> (\<exists>d. en_device e = Some d \<and> dv_tun d = Some tun) \<and> \<not> en_cancelled e
    \<and> od_dns (en_outbound e) = un_dns (en_udpNat e) \<and> resolver = Some (un_dns (en_udpNat e))
    \<and> od_fakeDNSAddr (en_outbound e) = un_fakeDNSAddr (en_udpNat e)
    \<and> od_dialer (en_outbound e) = MakeDialer protector \<and> un_dialer (en_udpNat e) = MakeDialer protector"
  using assms
  by (auto simp: NewEngine_def NewOutboundDialer_def NewUdpNat_def NewDevice_def Let_def
      split: if_splits sum.splits option.splits)

text \<open>A session in the table: its device holds its descriptor, both transports use one resolver and
  a dialer that protects its sockets.\<close>

definition session_ok :: "engine \<Rightarrow> bool" where
  "session_ok e \<longleftrightarrow> (\<exists>d. en_device e = Some d \<and> dv_tun d = Some (en_tun e))
     \<and> od_dns (en_outbound e) = un_dns (en_udpNat e)
     \<and> od_fakeDNSAddr (en_outbound e) = un_fakeDNSAddr (en_udpNat e)
     \<and> (\<exists>pr. od_dialer (en_outbound e) = MakeDialer (Some pr) \<and> un_dialer (en_udpNat e) = MakeDialer (Some pr))"

lemma ConnectSession_result:
  assumes "ConnectSession ce fd fakedns dns (Some pr) listener os = (os', res)"
    and "\<forall>n. ce_dup ce = Inr n \<longrightarrow> n \<notin> fd_open os"
  shows "case res of
      Inl err \<Rightarrow> os' = os
    | Inr e \<Rightarrow> session_ok e \<and> en_tun e \<notin> fd_open os
        \<and> os' = os\<lparr>fd_open := insert (en_tun e) (fd_open os)\<rparr> \<and> dns = Some (un_dns (en_udpNat e))"
proof (cases dns)
  case None
  then show ?thesis using assms(1) by (auto simp: ConnectSession_def)
next
  case (Some r)
  show ?thesis
  proof (cases "MakeTunDeviceFromFD fd (ce_dup ce) os")
    case (Pair os1 tun)
    show ?thesis
    proof (cases tun)
      case (Inl err)
      then show ?thesis
        using assms(1) Some Pair
        by (auto simp: ConnectSession_def connectSessionWithResolver_def MakeTunDeviceFromFD_def split: if_splits sum.splits)
    next
      case (Inr t)
      then have t: "t \<notin> fd_open os" "os1 = os\<lparr>fd_open := insert t (fd_open os)\<rparr>"
        using Pair assms(2) by (auto simp: MakeTunDeviceFromFD_def split: if_splits sum.splits)
      show ?thesis
      proof (cases "NewEngine (ce_resolve ce fakedns) (Some r) t (Some pr) listener (ce_stack ce)")
        case Left: (Inl err)
        then show ?thesis
          using assms(1) Some Pair Inr t by (auto simp: ConnectSession_def connectSessionWithResolver_def file_Close_def Left)
      next
        case Right: (Inr e)
        then have "res = Inr e" "os' = os1"
          using assms(1) Some Pair Inr by (simp_all add: ConnectSession_def connectSessionWithResolver_def)
        then show ?thesis using Some t NewEngine_ok [OF Right] by (auto simp: session_ok_def)
      qed
    qed
  qed
qed

text \<open>
  Histories of the bridge: calls of the exported functions, one after the other, with any results of the
  operating system; \<open>n\<close> counts the successful connects. A descriptor from \<open>dup\<close> is one that is not open.
\<close>

inductive breach :: "nat set \<Rightarrow> nat \<Rightarrow> bridge \<Rightarrow> bool" for base :: "nat set" where
  br_start: "breach base 0 (br_init base)"
| br_connect: "\<lbrakk>breach base n b; n < 4294967290; \<forall>fd. ce_dup ce = Inr fd \<longrightarrow> fd \<notin> fd_open (br_fds b);
     connect_with ce tunFd fakeDns server pr b = (b', h, e)\<rbrakk>
    \<Longrightarrow> breach base (if e = None then Suc n else n) b'"
| br_disconnect: "breach base n b \<Longrightarrow> breach base n (br_Disconnect h b)"
| br_set: "breach base n b \<Longrightarrow> breach base n (fst (set_server_with h server b))"

definition owned :: "bridge \<Rightarrow> nat set" where
  "owned b = {fd. \<exists>h s. br_sessions b h = Some s \<and> en_tun s = fd}"

definition br_inv :: "nat set \<Rightarrow> nat \<Rightarrow> bridge \<Rightarrow> bool" where
  "br_inv base n b \<longleftrightarrow> fd_open (br_fds b) = base \<union> owned b \<and> base \<inter> owned b = {} \<and> fd_misses (br_fds b) = []
     \<and> (\<forall>h s. br_sessions b h = Some s \<longrightarrow> session_ok s)
     \<and> (\<forall>h k s t. br_sessions b h = Some s \<and> br_sessions b k = Some t \<and> en_tun s = en_tun t \<longrightarrow> h = k)
     \<and> br_nextHandle b = of_nat (Suc n) \<and> n \<le> 4294967290
     \<and> (\<forall>h s. br_sessions b h = Some s \<longrightarrow> unat h \<le> Suc n)"

lemma br_inv_fresh:
  assumes "br_inv base n b" "n < 4294967290"
  shows "br_sessions b (br_nextHandle b + 1) = None" "unat (br_nextHandle b + 1) = Suc (Suc n)"
proof -
  have "br_nextHandle b + 1 = of_nat (Suc (Suc n))" using assms by (simp add: br_inv_def)
  moreover have "unat (of_nat (Suc (Suc n)) :: i32) = Suc (Suc n)" using assms(2) by (subst unat_of_nat) simp
  ultimately show u: "unat (br_nextHandle b + 1) = Suc (Suc n)" by simp
  show "br_sessions b (br_nextHandle b + 1) = None"
  proof (rule ccontr)
    assume "br_sessions b (br_nextHandle b + 1) \<noteq> None"
    then have "unat (br_nextHandle b + 1) \<le> Suc n" using assms(1) by (auto simp: br_inv_def)
    then show False using u by simp
  qed
qed

lemma connect_with_cases:
  assumes "connect_with ce tunFd fakeDns server pr b = (b', h, e)" "\<forall>fd. ce_dup ce = Inr fd \<longrightarrow> fd \<notin> fd_open (br_fds b)"
  shows "(e \<noteq> None \<and> b' = b) \<or> (\<exists>s. e = None \<and> h = br_nextHandle b + 1 \<and> session_ok s \<and> en_tun s \<notin> fd_open (br_fds b)
    \<and> server = Inr (un_dns (en_udpNat s))
    \<and> b' = b\<lparr>br_sessions := (br_sessions b)(h \<mapsto> s), br_nextHandle := h, br_fds := (br_fds b)\<lparr>fd_open := insert (en_tun s) (fd_open (br_fds b))\<rparr>\<rparr>)"
proof (cases server)
  case (Inl err)
  then show ?thesis using assms(1) by (auto simp: connect_with_def)
next
  case (Inr r)
  obtain os res where c: "ConnectSession ce tunFd fakeDns (Some r) (Some pr) True (br_fds b) = (os, res)"
    by (cases "ConnectSession ce tunFd fakeDns (Some r) (Some pr) True (br_fds b)")
  from ConnectSession_result [OF c assms(2)] show ?thesis
    using assms(1) Inr c by (cases res) (auto simp: connect_with_def Let_def)
qed

lemma br_inv_connect:
  assumes inv: "br_inv base n b" "n < 4294967290" and s: "session_ok s" "en_tun s \<notin> fd_open (br_fds b)"
  shows "br_inv base (Suc n) (b\<lparr>br_sessions := (br_sessions b)(br_nextHandle b + 1 \<mapsto> s),
    br_nextHandle := br_nextHandle b + 1, br_fds := (br_fds b)\<lparr>fd_open := insert (en_tun s) (fd_open (br_fds b))\<rparr>\<rparr>)"
proof -
  note fresh = br_inv_fresh [OF inv]
  let ?b = "b\<lparr>br_sessions := (br_sessions b)(br_nextHandle b + 1 \<mapsto> s),
    br_nextHandle := br_nextHandle b + 1, br_fds := (br_fds b)\<lparr>fd_open := insert (en_tun s) (fd_open (br_fds b))\<rparr>\<rparr>"
  have own: "owned ?b = insert (en_tun s) (owned b)"
  proof -
    have new: "br_sessions ?b h = Some t \<longleftrightarrow> h = br_nextHandle b + 1 \<and> t = s \<or> br_sessions b h = Some t" for h t
      using fresh(1) by auto
    show ?thesis unfolding owned_def new by blast
  qed
  have "k = br_nextHandle b + 1 \<and> t = s \<or> br_sessions b k = Some t \<and> en_tun t \<noteq> en_tun s \<and> unat k \<le> Suc n \<and> session_ok t"
    if "br_sessions ?b k = Some t" for k t
    using that inv(1) s(2) by (auto simp: br_inv_def owned_def split: if_splits)
  note sess = this
  have "h = k" if "br_sessions ?b h = Some x" "br_sessions ?b k = Some y" "en_tun x = en_tun y" for h k x y
    using sess [OF that(1)] sess [OF that(2)] that(3) inv(1) by (auto simp: br_inv_def)
  moreover have "session_ok t \<and> unat k \<le> Suc (Suc n)" if "br_sessions ?b k = Some t" for k t
    using sess [OF that] s(1) fresh(2) by auto
  moreover have "fd_open (br_fds ?b) = base \<union> owned ?b" "base \<inter> owned ?b = {}" "fd_misses (br_fds ?b) = []"
    using inv(1) s(2) unfolding own br_inv_def by auto
  moreover have "br_nextHandle ?b = of_nat (Suc (Suc n))" using inv(1) by (simp add: br_inv_def)
  ultimately show ?thesis using inv(2) unfolding br_inv_def by (simp del: fun_upd_apply of_nat_Suc)
qed

lemma br_inv_disconnect: "br_inv base n b \<Longrightarrow> br_inv base n (br_Disconnect h b)"
proof (cases "br_sessions b h")
  case (Some s)
  assume inv: "br_inv base n b"
  then have "session_ok s" "en_tun s \<in> fd_open (br_fds b)" using Some by (auto simp: br_inv_def owned_def)
  then have d: "snd (engine_Disconnect s (br_fds b)) = (br_fds b)\<lparr>fd_open := fd_open (br_fds b) - {en_tun s}\<rparr>"
    by (auto simp: session_ok_def engine_Disconnect_def device_Close_def file_Close_def Let_def)
  let ?b = "br_Disconnect h b"
  have sess: "br_sessions ?b k = Some t \<longleftrightarrow> k \<noteq> h \<and> br_sessions b k = Some t" for k t
    using Some by (simp add: br_Disconnect_def)
  have "owned ?b = owned b - {en_tun s}"
  proof -
    have "k \<noteq> h \<longleftrightarrow> en_tun t \<noteq> en_tun s" if "br_sessions b k = Some t" for k t
      using inv that Some unfolding br_inv_def by (metis option.inject)
    then show ?thesis unfolding owned_def sess using Some by blast
  qed
  moreover have "br_fds ?b = (br_fds b)\<lparr>fd_open := fd_open (br_fds b) - {en_tun s}\<rparr>" using Some d by (simp add: br_Disconnect_def)
  moreover have "en_tun s \<in> owned b" using Some by (auto simp: owned_def)
  ultimately show ?thesis
    using inv Some by (auto simp: br_inv_def sess) (simp_all add: br_Disconnect_def)
qed (simp add: br_Disconnect_def)

lemma SetServer_session:
  "session_ok s \<Longrightarrow> session_ok (SetServer svr s) \<and> en_tun (SetServer svr s) = en_tun s"
  by (auto simp: SetServer_def SetDNS_def session_ok_def od_SetDNS_def un_SetDNS_def split: option.splits)

lemma br_inv_set: "br_inv base n b \<Longrightarrow> br_inv base n (fst (set_server_with h server b))"
proof (cases "br_sessions b h")
  case (Some s)
  assume inv: "br_inv base n b"
  show ?thesis
  proof (cases server)
    case (Inr r)
    let ?s = "SetServer (Some r) s"
    have s: "session_ok ?s" "en_tun ?s = en_tun s" using inv Some SetServer_session [of s] by (auto simp: br_inv_def)
    let ?b = "b\<lparr>br_sessions := (br_sessions b)(h \<mapsto> ?s)\<rparr>"
    have old: "\<exists>u. br_sessions b k = Some u \<and> en_tun u = en_tun t \<and> session_ok t" if "br_sessions ?b k = Some t" for k t
      using that Some s inv by (auto simp: br_inv_def split: if_splits)
    have "owned ?b = owned b"
    proof -
      have "\<exists>k t. br_sessions ?b k = Some t \<and> en_tun t = en_tun u" if "br_sessions b k = Some u" for k u
        using that Some s by (cases "k = h") auto
      then show ?thesis using old unfolding owned_def by blast
    qed
    moreover have "h' = k" if "br_sessions ?b h' = Some x" "br_sessions ?b k = Some y" "en_tun x = en_tun y" for h' k x y
      using old [OF that(1)] old [OF that(2)] that(3) inv unfolding br_inv_def by metis
    moreover have "unat k \<le> Suc n" if "br_sessions ?b k = Some t" for k t
      using old [OF that] inv unfolding br_inv_def by metis
    ultimately have "br_inv base n ?b"
      using inv old unfolding br_inv_def by (simp del: fun_upd_apply) metis
    then show ?thesis using Some Inr by (simp add: set_server_with_def)
  qed (use inv Some in \<open>simp add: set_server_with_def\<close>)
qed (simp add: set_server_with_def)

lemma breach_inv: "breach base n b \<Longrightarrow> br_inv base n b"
proof (induction rule: breach.induct)
  case br_start
  then show ?case by (simp add: br_inv_def br_init_def open_fds_def owned_def)
next
  case (br_connect n b ce tunFd fakeDns server pr b' h e)
  from connect_with_cases [OF br_connect.hyps(4,3)] show ?case
    using br_inv_connect [OF br_connect.IH br_connect.hyps(2)] br_connect.IH by auto
next
  case (br_disconnect n b h)
  then show ?case by (simp add: br_inv_disconnect)
next
  case (br_set n b h server)
  then show ?case by (simp add: br_inv_set)
qed

text \<open>
  C12. No descriptor is leaked and none is closed twice: after any sequence of connects (also failed ones), disconnects and
  server changes, with up to 4294967290 successful connects, the open descriptors are those that were open at the start and
  one for each session in the table, no two sessions share one, and no \<open>Close\<close> was called for a descriptor that was not
  open.
\<close>

theorem bridge_descriptors:
  assumes "breach base n b"
  shows "fd_open (br_fds b) = base \<union> owned b \<and> base \<inter> owned b = {} \<and> fd_misses (br_fds b) = []
    \<and> (\<forall>h k s t. br_sessions b h = Some s \<and> br_sessions b k = Some t \<and> en_tun s = en_tun t \<longrightarrow> h = k)"
  using breach_inv [OF assms] by (simp add: br_inv_def)

text \<open>
  In every session of the table TCP and UDP queries go to the same resolver and recognise the same
  fake DNS address, whatever server changes it has seen; and both dial with the control function of one
  protector, so that no socket of the tunnel is routed back into it.
\<close>

theorem bridge_transports_agree:
  assumes "breach base n b" and "br_sessions b h = Some s"
  shows "od_dns (en_outbound s) = un_dns (en_udpNat s)
    \<and> od_fakeDNSAddr (en_outbound s) = un_fakeDNSAddr (en_udpNat s)
    \<and> (\<exists>pr. dl_Control (od_dialer (en_outbound s)) = Some (makeControl pr)
         \<and> dl_Control (un_dialer (en_udpNat s)) = Some (makeControl pr))"
proof -
  have "session_ok s" using breach_inv [OF assms(1)] assms(2) by (auto simp: br_inv_def)
  then show ?thesis by (auto simp: session_ok_def MakeDialer_def)
qed

text \<open>
  C35. A connect that succeeds returns a handle that was not in use (for the first four billion
  connects), under which the table now has a session on the new resolver, and the disconnect of that handle
  takes the table and the descriptors back to where they were; a connect that fails changes nothing.
\<close>

theorem bridge_connect_disconnect:
  assumes "breach base n b" and "n < 4294967290" and "\<forall>fd. ce_dup ce = Inr fd \<longrightarrow> fd \<notin> fd_open (br_fds b)"
    and "connect_with ce tunFd fakeDns server pr b = (b', h, e)"
  shows "if e = None
    then br_sessions b h = None \<and> (\<exists>s. br_sessions b' h = Some s \<and> server = Inr (un_dns (en_udpNat s)))
      \<and> br_sessions (br_Disconnect h b') = br_sessions b \<and> br_fds (br_Disconnect h b') = br_fds b
    else b' = b"
proof -
  have inv: "br_inv base n b" by (rule breach_inv [OF assms(1)])
  note fresh = br_inv_fresh [OF inv assms(2)]
  from connect_with_cases [OF assms(4,3)] show ?thesis
  proof (elim disjE exE conjE)
    fix s
    assume s: "e = None" "h = br_nextHandle b + 1" "session_ok s" "en_tun s \<notin> fd_open (br_fds b)"
      "server = Inr (un_dns (en_udpNat s))"
      "b' = b\<lparr>br_sessions := (br_sessions b)(h \<mapsto> s), br_nextHandle := h, br_fds := (br_fds b)\<lparr>fd_open := insert (en_tun s) (fd_open (br_fds b))\<rparr>\<rparr>"
    have "snd (engine_Disconnect s ((br_fds b)\<lparr>fd_open := insert (en_tun s) (fd_open (br_fds b))\<rparr>)) = br_fds b"
      using s(3,4) by (auto simp: session_ok_def engine_Disconnect_def device_Close_def file_Close_def Let_def)
    then show ?thesis using s fresh(1) by (auto simp: br_Disconnect_def)
  qed auto
qed

text \<open>A bridge with one DoT session, on descriptor 7 for the caller's 3.\<close>

definition sample_ce :: conn_env where
  "sample_ce = \<lparr>ce_parse_doh = (\<lambda>_. Inr sample_url), ce_parse_dot = (\<lambda>_. Inr sample_dot_url),
     ce_lookup = ne_lookup sample_host, ce_dup = Inr 7,
     ce_resolve = (\<lambda>_. Inr \<lparr>ap_Addr = Addr4 [10, 111, 222, 3], ap_Port = 53\<rparr>),
     ce_stack = \<lparr>sr_fdbased = None, sr_CreateNIC = None, sr_AddProtocolAddress = None, sr_SetSpoofing = None,
       sr_SetPromiscuousMode = None\<rparr>\<rparr>"

definition sample_session :: engine where
  "sample_session = \<lparr>en_cancelled = False,
     en_device = (case NewDevice (ce_stack sample_ce) 7 DefaultMTU of Inr d \<Rightarrow> Some d | Inl e \<Rightarrow> None),
     en_outbound = \<lparr>od_fakeDNSAddr = \<lparr>ap_Addr = Addr4 [10, 111, 222, 3], ap_Port = 53\<rparr>, od_dns = DoT sample_dot,
       od_dialer = MakeDialer (Some no_resolvers), od_listener = True\<rparr>,
     en_udpNat = \<lparr>un_fakeDNSAddr = \<lparr>ap_Addr = Addr4 [10, 111, 222, 3], ap_Port = 53\<rparr>, un_dns = DoT sample_dot,
       un_dialer = MakeDialer (Some no_resolvers), un_listener = True\<rparr>,
     en_tun = 7\<rparr>"

definition sample_bridge :: bridge where
  "sample_bridge = \<lparr>br_sessions = [2 \<mapsto> sample_session], br_nextHandle = 2, br_fds = open_fds {3, 7}\<rparr>"

lemma sample_connect:
  "connect_with sample_ce 3 ''10.111.222.3:53'' (Inr (DoT sample_dot)) no_resolvers (br_init {3}) = (sample_bridge, 2, None)"
  by (simp add: connect_with_def br_init_def ConnectSession_def connectSessionWithResolver_def MakeTunDeviceFromFD_def
      sample_ce_def NewEngine_def NewOutboundDialer_def NewUdpNat_def NewDevice_def sample_bridge_def sample_session_def
      open_fds_def Let_def insert_commute)

lemma sample_breach: "breach {3} (if (None :: goerr option) = None then Suc 0 else 0) sample_bridge"
  by (rule br_connect [OF br_start _ _ sample_connect]) (simp_all add: sample_ce_def br_init_def open_fds_def)

theorem bridge_descriptors_witness:
  "fd_open (br_fds (br_Disconnect 2 sample_bridge)) = {3} \<and> fd_misses (br_fds (br_Disconnect 2 sample_bridge)) = []"
proof -
  have "br_sessions (br_Disconnect 2 sample_bridge) = Map.empty"
    by (simp add: br_Disconnect_def sample_bridge_def fun_eq_iff)
  then have "owned (br_Disconnect 2 sample_bridge) = {}" by (simp add: owned_def)
  with bridge_descriptors [OF br_disconnect [OF sample_breach, of 2]] show ?thesis by simp
qed

theorem bridge_transports_agree_witness:
  "od_dns (en_outbound sample_session) = un_dns (en_udpNat sample_session)
    \<and> od_fakeDNSAddr (en_outbound sample_session) = un_fakeDNSAddr (en_udpNat sample_session)
    \<and> (\<exists>pr. dl_Control (od_dialer (en_outbound sample_session)) = Some (makeControl pr)
         \<and> dl_Control (un_dialer (en_udpNat sample_session)) = Some (makeControl pr))"
  by (rule bridge_transports_agree [OF sample_breach, of 2]) (simp add: sample_bridge_def)

theorem bridge_connect_disconnect_witness:
  "if (None :: goerr option) = None
    then br_sessions (br_init {3}) 2 = None
      \<and> (\<exists>s. br_sessions sample_bridge 2 = Some s \<and> Inr (DoT sample_dot) = (Inr (un_dns (en_udpNat s)) :: goerr + any_resolver))
      \<and> br_sessions (br_Disconnect 2 sample_bridge) = br_sessions (br_init {3})
      \<and> br_fds (br_Disconnect 2 sample_bridge) = br_fds (br_init {3})
    else sample_bridge = br_init {3}"
  by (rule bridge_connect_disconnect [OF br_start _ _ sample_connect]) (simp_all add: sample_ce_def br_init_def open_fds_def)

subsection \<open>Properties: the exported functions\<close>

text \<open>
  The exported connect functions tell success from failure by their status: 0 with the handle of a
  session in the table written, or -1 with nothing written and the bridge unchanged.
\<close>

theorem localdnsConnect_status:
  assumes "breach base n b" and "n < 4294967290" and "\<forall>fd. ce_dup ce = Inr fd \<longrightarrow> fd \<notin> fd_open (br_fds b)"
    and "localdnsConnectDoT ce pr tunFd fakeDns hostname bootstrapIPs b = (b', status, out)
       \<or> localdnsConnectDoH ce pr tunFd fakeDns hostname bootstrapIPs b = (b', status, out)"
  shows "status = 0 \<and> (\<exists>h. out = Some h \<and> br_sessions b h = None \<and> br_sessions b' h \<noteq> None)
    \<or> status = - 1 \<and> out = None \<and> b' = b"
proof -
  have inv: "br_inv base n b" by (rule breach_inv [OF assms(1)])
  have "\<exists>server h e. connect_with ce tunFd fakeDns server pr b = (b', h, e)
      \<and> (case e of None \<Rightarrow> status = 0 \<and> out = Some h | Some x \<Rightarrow> status = - 1 \<and> out = None)"
    using assms(4)
    by (elim disjE) (auto simp: localdnsConnectDoT_def localdnsConnectDoH_def ConnectDoH_def ConnectDoT_def
        split: prod.splits option.splits)
  then obtain server h e where c: "connect_with ce tunFd fakeDns server pr b = (b', h, e)"
      "case e of None \<Rightarrow> status = 0 \<and> out = Some h | Some x \<Rightarrow> status = - 1 \<and> out = None" by blast
  from connect_with_cases [OF c(1) assms(3)] show ?thesis
    using c(2) br_inv_fresh(1) [OF inv assms(2)] by (cases e) auto
qed

lemma sample_DoT_server: "NewDoTServer sample_ce ''tls://dns.google'' ''8.8.8.8'' True = Inr (DoT sample_dot)"
  using sample_dot_new by (simp add: NewDoTServer_def sample_ce_def bootstrap_ips_def)

theorem localdnsConnect_status_witness:
  "(0 :: int) = 0 \<and> (\<exists>h. Some (2 :: i32) = Some h \<and> br_sessions (br_init {3}) h = None \<and> br_sessions sample_bridge h \<noteq> None)
    \<or> (0 :: int) = - 1 \<and> Some (2 :: i32) = None \<and> sample_bridge = br_init {3}"
  by (rule localdnsConnect_status [OF br_start, where ce = sample_ce and pr = no_resolvers and tunFd = 3
        and fakeDns = "''10.111.222.3:53''" and hostname = "''tls://dns.google''" and bootstrapIPs = "''8.8.8.8''"])
    (simp_all add: localdnsConnectDoT_def ConnectDoT_def sample_DoT_server sample_connect,
     simp_all add: sample_ce_def br_init_def open_fds_def)

end
