(* ===== verification/Listener.thy ===== *)
theory Listener
  imports App
begin

section \<open>What the application hears of its queries (app/session/doh.go, infra/android/bridge.go)\<close>

text \<open>
  A resolver reports to a \<open>doh.Listener\<close>; the application implements \<open>DoHListener\<close>, and an adapter stands between
  them. The bridge's own \<open>DoHListener\<close> passes the host name, the latency and the status of every query to Java.
\<close>

subsection \<open>Listeners\<close>

text \<open>Listeners over their state \<open>'s\<close>, with tokens \<open>'t\<close>. A \<open>DoHQuerySumary\<close> is a pointer and may be nil.\<close>

record ('s, 't) doh_Listener =
  li_OnQuery :: "string \<Rightarrow> 's \<Rightarrow> 't \<times> 's"
  li_OnResponse :: "'t \<Rightarrow> Summary \<Rightarrow> 's \<Rightarrow> 's"

record ('s, 't) DoHListener =
  dh_OnQuery :: "string \<Rightarrow> 's \<Rightarrow> 't \<times> 's"
  dh_OnResponse :: "'t \<Rightarrow> Summary option \<Rightarrow> 's \<Rightarrow> 's"

definition dohListenerAdapter :: "('s, 't) DoHListener \<Rightarrow> ('s, 't) doh_Listener" where
  "dohListenerAdapter l = \<lparr>li_OnQuery = dh_OnQuery l, li_OnResponse = (\<lambda>t s. dh_OnResponse l t (Some s))\<rparr>"

definition makeInternalDoHListener :: "('s, 't) DoHListener option \<Rightarrow> ('s, 't) doh_Listener option" where
  "makeInternalDoHListener l = (case l of None \<Rightarrow> None | Some x \<Rightarrow> Some (dohListenerAdapter x))"

text \<open>The bridge's listener: its state are the calls of \<open>localdns_jni_on_dns_query\<close>.\<close>

definition jniDoHListener :: "(duration \<Rightarrow> i64) \<Rightarrow> ((string \<times> i64 \<times> int) list, int) DoHListener" where
  "jniDoHListener millis =
     \<lparr>dh_OnQuery = (\<lambda>url calls. (0, calls)),
      dh_OnResponse = (\<lambda>t summary calls.
        case jni_OnResponse millis summary of None \<Rightarrow> calls | Some c \<Rightarrow> calls @ [c])\<rparr>"

text \<open>How \<open>Query\<close> uses its listener: the token that \<open>OnQuery\<close> gave goes back with \<open>OnResponse\<close>.\<close>

fun deliver :: "('s, 't) doh_Listener \<Rightarrow> event list \<Rightarrow> 't option \<Rightarrow> 's \<Rightarrow> 's" where
  "deliver l [] token st = st"
| "deliver l (OnQuery url # evs) token st =
     (case li_OnQuery l url st of (t, st') \<Rightarrow> deliver l evs (Some t) st')"
| "deliver l (OnResponse s # evs) token st =
     (case token of None \<Rightarrow> deliver l evs token st | Some t \<Rightarrow> deliver l evs token (li_OnResponse l t s st))"

definition java_calls :: "(duration \<Rightarrow> i64) \<Rightarrow> event list \<Rightarrow> (string \<times> i64 \<times> int) list" where
  "java_calls millis evs =
     (case makeInternalDoHListener (Some (jniDoHListener millis)) of
        None \<Rightarrow> [] | Some l \<Rightarrow> deliver l evs None [])"

lemma java_calls_query:
  "java_calls millis (OnQuery url # (if b then [] else [OnResponse s]))
     = (if b then [] else [(extractHostname (sm_Query s), millis (sm_Latency s), DoHStatus (sm_Status s))])"
  by (simp add: java_calls_def makeInternalDoHListener_def dohListenerAdapter_def jniDoHListener_def jni_OnResponse_def
      GetQuery_def GetLatency_def GetStatus_def)

subsection \<open>Properties\<close>

text \<open>A query for a name: a header, the labels of the name, uncompressed, and the rest.\<close>

definition query_for :: "string list \<Rightarrow> bytes \<Rightarrow> bool" where
  "query_for ls q \<longleftrightarrow> ls \<noteq> [] \<and> (\<forall>l\<in>set ls. l \<noteq> [] \<and> length l < 256)
     \<and> (\<exists>hdr rest. length hdr = 12 \<and> q = hdr @ concat (map wire_label ls) @ 0 # rest)"

lemma query_for_name: "query_for ls q \<Longrightarrow> extractHostname q = join_with CHR ''.'' ls"
  using label_loop_wire [of ls] by (auto simp: query_for_def extractHostname_def)

text \<open>The status of a query's error.\<close>

definition status_of :: "goerr option \<Rightarrow> int" where
  "status_of err = (case err of Some (EQuery st e) \<Rightarrow> DoHStatus st | _ \<Rightarrow> 0)"

definition cancelled :: "goerr option \<Rightarrow> bool" where
  "cancelled err \<longleftrightarrow> (\<exists>e. err = Some e \<and> errors_is e ECanceled)"

text \<open>
  Java hears of every query exactly once, when it is over: of its name as the client asked for it, of its
  latency, and of the status of its error, 0 when the client got an answer; only a cancelled query is passed
  over, so that a disconnect cannot deadlock. This holds of DoH and of DoT.
\<close>

theorem java_hears_query:
  assumes "id_law cd" and "query_for ls q"
    and "Query cd env q r = Some (r', res)" and "rv_listener r" and "he_newreq env = None"
    and "dot_ok d" and "tls_env_ok tenv" and "dot_Query cd tenv q d = Some (d', tres)" and "dr_listener d"
  shows "java_calls millis (qr_events res)
      = (if cancelled (qr_err res) then []
         else [(join_with CHR ''.'' ls, millis (he_after env - he_before env), status_of (qr_err res))])
    \<and> java_calls millis (dq_events tres)
      = (if cancelled (dq_err tres) then []
         else [(join_with CHR ''.'' ls, millis (te_after tenv - te_before tenv), status_of (dq_err tres))])"
proof
  obtain out where out: "doQuery cd env q r = Some (r', out)" "qr_err res = qerr_error (qo_qerr out)"
      "qr_events res = OnQuery (rv_url r) # (if errIsCancel (qo_qerr out) then [] else [OnResponse (summary_of env out)])"
    using assms(3,4) by (auto simp: Query_def Let_def split: option.splits)
  have "qo_q out = q" using assms(1) out(1) by (cases rule: doQuery_cases) (use assms(5) in auto)
  moreover have "errIsCancel (qo_qerr out) = cancelled (qr_err res)"
    "DoHStatus (sm_Status (summary_of env out)) = status_of (qr_err res)"
    unfolding out(2)
    by (auto simp: errIsCancel_def cancelled_def qerr_error_def summary_of_def status_of_def split: option.splits)
  ultimately show "java_calls millis (qr_events res)
      = (if cancelled (qr_err res) then []
         else [(join_with CHR ''.'' ls, millis (he_after env - he_before env), status_of (qr_err res))])"
    unfolding out(3) java_calls_query by (simp add: query_for_name [OF assms(2)] summary_of_def)
next
  obtain out where out: "dot_doQuery cd tenv q d = Some (d', out)"
      "dq_err tres = map_option (\<lambda>(st, e). EQuery st e) (to_qerr out)"
      "dq_events tres = OnQuery (dr_url d) # (if dot_errIsCancel (to_qerr out) then [] else [OnResponse (dot_summary tenv out)])"
    using assms(8,9) by (auto simp: dot_Query_def Let_def split: option.splits)
  have "to_q out = q" using dot_doQuery_spec [OF assms(1,6,7), of q] out(1) by auto
  moreover have "dot_errIsCancel (to_qerr out) = cancelled (dq_err tres)"
    "DoHStatus (sm_Status (dot_summary tenv out)) = status_of (dq_err tres)"
    unfolding out(2)
    by (auto simp: dot_errIsCancel_def cancelled_def dot_summary_def status_of_def split: option.splits)
  ultimately show "java_calls millis (dq_events tres)
      = (if cancelled (dq_err tres) then []
         else [(join_with CHR ''.'' ls, millis (te_after tenv - te_before tenv), status_of (dq_err tres))])"
    unfolding out(3) java_calls_query by (simp add: query_for_name [OF assms(2)] dot_summary_def)
qed

definition named_query :: bytes where
  "named_query = [18, 52, 1, 0, 0, 1, 0, 0, 0, 0, 0, 0] @ concat (map wire_label [''youtube'', ''com'']) @ 0 # [0, 1, 0, 1]"

lemma query_forI:
  "length hdr = 12 \<Longrightarrow> ls \<noteq> [] \<Longrightarrow> (\<And>l. l \<in> set ls \<Longrightarrow> l \<noteq> [] \<and> length l < 256) \<Longrightarrow>
     query_for ls (hdr @ concat (map wire_label ls) @ 0 # rest)"
  unfolding query_for_def by blast

lemma named_query_for: "query_for [''youtube'', ''com''] named_query"
  unfolding named_query_def by (rule query_forI) auto

lemma named_Query: "\<exists>r' res. Query sample_codec (sample_env 200 sample_answer) named_query sample_res = Some (r', res)"
proof -
  have "doh_ok (sample_codec, \<lambda>n::nat. sample_env 200 sample_answer, sample_res)"
    using sample_id_law sample_res_ok sample_env_ok by simp
  from doh.query_returns [OF this, of named_query] show ?thesis by (auto simp: doh_Query_def)
qed

lemma named_dot_Query: "\<exists>d' res. dot_Query sample_codec (sample_tls []) named_query sample_dot = Some (d', res)"
proof -
  have "dot_state_ok (sample_codec, \<lambda>n::nat. sample_tls [], sample_dot)"
    using sample_id_law sample_dot_ok sample_tls_ok by simp
  from dot.query_returns [OF this, of named_query] show ?thesis by (auto simp: dot_step_def)
qed

theorem java_hears_query_witness:
  "\<exists>r' res. Query sample_codec (sample_env 200 sample_answer) named_query sample_res = Some (r', res)
    \<and> java_calls (\<lambda>d. of_int (d div 1000000)) (qr_events res)
      = (if cancelled (qr_err res) then [] else [(''youtube.com'', 3, status_of (qr_err res))])"
proof -
  obtain r' res where q: "Query sample_codec (sample_env 200 sample_answer) named_query sample_res = Some (r', res)"
    using named_Query by blast
  obtain d' tres where d: "dot_Query sample_codec (sample_tls []) named_query sample_dot = Some (d', tres)"
    using named_dot_Query by blast
  have "rv_listener sample_res" "he_newreq (sample_env 200 sample_answer) = None" "dr_listener sample_dot"
    by (simp_all add: sample_res_def sample_env_def sample_dot_def)
  from java_hears_query [OF sample_id_law named_query_for q this(1,2) sample_dot_ok sample_tls_ok d this(3), of "\<lambda>d. of_int (d div 1000000)"]
  show ?thesis using q by (auto simp: sample_env_def)
qed

end
