(* ===== verification/Probes.thy ===== *)
theory Probes
  imports App TcpServer
begin

section \<open>Resolvers behind the interface: probes and DNS over UDP (app/session, infra/android, main)\<close>

text \<open>
  A resolver of either kind with what its queries will meet (codec, network and clock of each), as the
  value of the interface \<open>doh.Resolver\<close> that the sessions keep. The contract of both kinds gives that of the
  value, and with it the probes and the DNS handlers of the transports.
\<close>

subsection \<open>The interface\<close>

datatype 'x any_state = AnyDoH "'x doh" | AnyDoT "'x dot"

fun any_Query :: "'x any_state query_fun" where
  "any_Query (AnyDoH s) q = map_option (\<lambda>(s', r, e). (AnyDoH s', r, e)) (doh_Query s q)"
| "any_Query (AnyDoT s) q = map_option (\<lambda>(s', r, e). (AnyDoT s', r, e)) (dot_step s q)"

fun any_ok :: "'x any_state \<Rightarrow> bool" where
  "any_ok (AnyDoH s) = doh_ok s"
| "any_ok (AnyDoT s) = dot_state_ok s"

lemma any_Query_DoH:
  "any_Query (AnyDoH d) q = Some (s', r, e) \<longleftrightarrow> (\<exists>d'. doh_Query d q = Some (d', r, e) \<and> s' = AnyDoH d')"
  by auto

lemma any_Query_DoT:
  "any_Query (AnyDoT d) q = Some (s', r, e) \<longleftrightarrow> (\<exists>d'. dot_step d q = Some (d', r, e) \<and> s' = AnyDoT d')"
  by auto

declare any_Query.simps [simp del]

interpretation any: dns_resolver any_ok any_Query
proof unfold_locales
  fix s :: "'x any_state" and q s' r e b
  assume s: "any_ok s"
  show "\<exists>s' r e. any_Query s q = Some (s', r, e) \<and> any_ok s'"
  proof (cases s)
    case (AnyDoH d)
    then have "doh_ok d" using s by simp
    then obtain d' r e where "doh_Query d q = Some (d', r, e)" "doh_ok d'" using doh.query_returns by blast
    then show ?thesis unfolding AnyDoH any_Query_DoH by (intro exI [of _ "AnyDoH d'"]) auto
  next
    case (AnyDoT d)
    then have "dot_state_ok d" using s by simp
    then obtain d' r e where "dot_step d q = Some (d', r, e)" "dot_state_ok d'" using dot.query_returns by blast
    then show ?thesis unfolding AnyDoT any_Query_DoT by (intro exI [of _ "AnyDoT d'"]) auto
  qed
  show "\<exists>b. r = Some b" if "any_Query s q = Some (s', r, None)"
  proof (cases s)
    case (AnyDoH d)
    then show ?thesis using that s doh.query_answer [of d q] unfolding AnyDoH any_Query_DoH by auto
  next
    case (AnyDoT d)
    then show ?thesis using that s dot.query_answer [of d q] unfolding AnyDoT any_Query_DoT by auto
  qed
  show "2 \<le> length b \<and> 2 \<le> length q \<and> be16 b = be16 q" if "any_Query s q = Some (s', Some b, e)"
  proof (cases s)
    case (AnyDoH d)
    then show ?thesis using that s doh.query_id [of d q] unfolding AnyDoH any_Query_DoH by auto
  next
    case (AnyDoT d)
    then show ?thesis using that s dot.query_id [of d q] unfolding AnyDoT any_Query_DoT by auto
  qed
qed

interpretation any_tcp: dns_relay any_ok any_Query tcp_write tcp_stream
  by unfold_locales

text \<open>What a server's queries meet, by kind.\<close>

record 'x query_env =
  qe_codec :: "'x codec"
  qe_http :: "nat \<Rightarrow> http_env"
  qe_tls :: "nat \<Rightarrow> tls_env"

definition with_env :: "'x query_env \<Rightarrow> any_resolver \<Rightarrow> 'x any_state" where
  "with_env qe r = (case r of
     DoH d \<Rightarrow> AnyDoH (qe_codec qe, qe_http qe, d) | DoT d \<Rightarrow> AnyDoT (qe_codec qe, qe_tls qe, d))"

subsection \<open>Probes (session/probe.go)\<close>

definition dnsProbeQuery :: bytes where
  "dnsProbeQuery =
     [0, 0, 1, 0, 0, 1, 0, 0, 0, 0, 0, 0] @
     [7] @ map (\<lambda>c. of_nat (of_char c)) ''youtube'' @
     [3] @ map (\<lambda>c. of_nat (of_char c)) ''com'' @
     [0, 0, 1, 0, 1]"

text \<open>\<open>session.ProbeDoH\<close> and \<open>session.ProbeDoT\<close>; \<open>kind\<close> is the word in the message for a nil server.\<close>

definition session_Probe :: "string \<Rightarrow> 'x query_env \<Rightarrow> any_resolver option \<Rightarrow> goerr option option" where
  "session_Probe kind qe s =
     (case s of
        None \<Rightarrow> Some (Some (EMsg (''nil '' @ kind @ '' server'')))
      | Some r \<Rightarrow> map_option snd (probeResolver any_Query (with_env qe r) dnsProbeQuery))"

text \<open>The bridge's \<open>ProbeDoH\<close> and \<open>ProbeDoT\<close>, with no listener, and the exported functions.\<close>

definition br_ProbeDoH :: "conn_env \<Rightarrow> 'x query_env \<Rightarrow> string \<Rightarrow> string \<Rightarrow> goerr option option" where
  "br_ProbeDoH ce qe url bootstrapIPs =
     (case NewDoHServer ce url bootstrapIPs False of
        Inl err \<Rightarrow> Some (Some err) | Inr server \<Rightarrow> session_Probe ''DoH'' qe (Some server))"

definition br_ProbeDoT :: "conn_env \<Rightarrow> 'x query_env \<Rightarrow> string \<Rightarrow> string \<Rightarrow> goerr option option" where
  "br_ProbeDoT ce qe hostname bootstrapIPs =
     (case NewDoTServer ce hostname bootstrapIPs False of
        Inl err \<Rightarrow> Some (Some err) | Inr server \<Rightarrow> session_Probe ''DoT'' qe (Some server))"

definition probe_status :: "goerr option \<Rightarrow> int" where
  "probe_status err = (if err \<noteq> None then - 1 else 0)"

definition localdnsProbeDoH :: "conn_env \<Rightarrow> 'x query_env \<Rightarrow> string \<Rightarrow> string \<Rightarrow> int option" where
  "localdnsProbeDoH ce qe url bootstrapIPs = map_option probe_status (br_ProbeDoH ce qe url bootstrapIPs)"

definition localdnsProbeDoT :: "conn_env \<Rightarrow> 'x query_env \<Rightarrow> string \<Rightarrow> string \<Rightarrow> int option" where
  "localdnsProbeDoT ce qe hostname bootstrapIPs = map_option probe_status (br_ProbeDoT ce qe hostname bootstrapIPs)"

subsection \<open>Servers are ready\<close>

definition lookup_ok :: "conn_env \<Rightarrow> bool" where
  "lookup_ok ce \<longleftrightarrow> (\<forall>h. list_all valid_ip (fst (ce_lookup ce h)))"

definition query_env_ok :: "'x query_env \<Rightarrow> bool" where
  "query_env_ok qe \<longleftrightarrow> id_law (qe_codec qe) \<and> (\<forall>n. env_ok (qe_http qe n)) \<and> (\<forall>n. tls_env_ok (qe_tls qe n))"

lemma NewServer_ok:
  assumes "lookup_ok ce" "query_env_ok qe"
    and "NewDoHServer ce url ips listener = Inr r \<or> NewDoTServer ce url ips listener = Inr r"
  shows "any_ok (with_env qe r)"
  using assms
  by (auto simp: NewDoHServer_def NewDoTServer_def lookup_ok_def query_env_ok_def with_env_def
      split: sum.splits elim!: NewResolver_success dot_NewResolver_success)

lemma session_Probe_status:
  assumes "any_ok (with_env qe r)"
  shows "\<exists>err. session_Probe kind qe (Some r) = Some err
    \<and> (err = None \<longleftrightarrow> (\<exists>s' b. any_Query (with_env qe r) dnsProbeQuery = Some (s', Some b, None)))"
proof -
  obtain s' e where p: "probeResolver any_Query (with_env qe r) dnsProbeQuery = Some (s', e)"
      "e = None \<longleftrightarrow> (\<exists>b. any_Query (with_env qe r) dnsProbeQuery = Some (s', Some b, None))"
    using any.probe_iff [OF assms, of dnsProbeQuery] by blast
  moreover have "(\<exists>s' b. any_Query (with_env qe r) dnsProbeQuery = Some (s', Some b, None)) \<longrightarrow> e = None"
    using p by (auto simp: probeResolver_def the_bytes_def split: option.splits dest: any.query_id [OF assms])
  ultimately show ?thesis by (auto simp: session_Probe_def)
qed

lemma br_Probe_status:
  assumes "lookup_ok ce" "query_env_ok qe"
  shows "\<exists>err. br_ProbeDoH ce qe url ips = Some err
      \<and> (err = None \<longleftrightarrow> (\<exists>r s' b. NewDoHServer ce url ips False = Inr r
           \<and> any_Query (with_env qe r) dnsProbeQuery = Some (s', Some b, None)))"
    and "\<exists>err. br_ProbeDoT ce qe url ips = Some err
      \<and> (err = None \<longleftrightarrow> (\<exists>r s' b. NewDoTServer ce url ips False = Inr r
           \<and> any_Query (with_env qe r) dnsProbeQuery = Some (s', Some b, None)))"
proof -
  show "\<exists>err. br_ProbeDoH ce qe url ips = Some err
      \<and> (err = None \<longleftrightarrow> (\<exists>r s' b. NewDoHServer ce url ips False = Inr r
           \<and> any_Query (with_env qe r) dnsProbeQuery = Some (s', Some b, None)))"
  proof (cases "NewDoHServer ce url ips False")
    case (Inr r)
    then have "any_ok (with_env qe r)" using NewServer_ok [OF assms] by blast
    from session_Probe_status [OF this, of "''DoH''"] show ?thesis using Inr by (simp add: br_ProbeDoH_def)
  qed (simp add: br_ProbeDoH_def)
  show "\<exists>err. br_ProbeDoT ce qe url ips = Some err
      \<and> (err = None \<longleftrightarrow> (\<exists>r s' b. NewDoTServer ce url ips False = Inr r
           \<and> any_Query (with_env qe r) dnsProbeQuery = Some (s', Some b, None)))"
  proof (cases "NewDoTServer ce url ips False")
    case (Inr r)
    then have "any_ok (with_env qe r)" using NewServer_ok [OF assms] by blast
    from session_Probe_status [OF this, of "''DoT''"] show ?thesis using Inr by (simp add: br_ProbeDoT_def)
  qed (simp add: br_ProbeDoT_def)
qed

subsection \<open>Properties\<close>

text \<open>The probe asks for the name it means to.\<close>

lemma dnsProbeQuery_name: "length dnsProbeQuery = 29 \<and> extractHostname dnsProbeQuery = ''youtube.com''"
  by code_simp

text \<open>
  C36. The exported probes always come to a status: 0 exactly when the server's address is accepted and the
  query for the probe name is answered without an error, -1 in every other case.
\<close>

theorem localdnsProbe_status:
  assumes "lookup_ok ce" and "query_env_ok qe"
  shows "localdnsProbeDoH ce qe url ips = Some (if \<exists>r s' b. NewDoHServer ce url ips False = Inr r
      \<and> any_Query (with_env qe r) dnsProbeQuery = Some (s', Some b, None) then 0 else - 1)
    \<and> localdnsProbeDoT ce qe url ips = Some (if \<exists>r s' b. NewDoTServer ce url ips False = Inr r
      \<and> any_Query (with_env qe r) dnsProbeQuery = Some (s', Some b, None) then 0 else - 1)"
  using br_Probe_status [OF assms, of url ips]
  by (elim exE conjE) (simp add: localdnsProbeDoH_def localdnsProbeDoT_def probe_status_def)

text \<open>
  DNS over UDP, for a resolver of either kind: the handler always ends and leaves the resolver usable;
  a reply that it writes has the ID of the query, of which at most 4096 bytes are looked at, and is an answer and
  not an error: a SERVFAIL message that the resolver returns beside an error is not sent, and the
  client gets nothing.
\<close>

theorem udp_dns_reply:
  assumes "any_ok s"
  shows "\<exists>s' w. handleDNS any_Query s created rd = Some (s', w) \<and> any_ok s'
    \<and> (\<forall>b. w = Some b \<longrightarrow> created \<and> snd rd = None \<and> 2 \<le> length b \<and> be16 b = be16 (take 4096 (fst rd))
         \<and> (\<exists>s1. any_Query s (take 4096 (fst rd)) = Some (s1, Some b, None)))
    \<and> (\<forall>s1 b e. any_Query s (take 4096 (fst rd)) = Some (s1, Some b, Some e) \<longrightarrow> w = None)"
proof -
  from any.handleDNS_reply [OF assms, of created rd]
  obtain s' w where h: "handleDNS any_Query s created rd = Some (s', w)" "any_ok s'"
      "\<forall>b. w = Some b \<longrightarrow> created \<and> snd rd = None \<and> 2 \<le> length b \<and> be16 b = be16 (take 4096 (fst rd))
         \<and> (\<exists>s1. any_Query s (take 4096 (fst rd)) = Some (s1, Some b, None))" by blast
  have "w = None" if "any_Query s (take 4096 (fst rd)) = Some (s1, Some b, Some e)" for s1 b e
    using h(3) that by (cases w) auto
  then show ?thesis using h by blast
qed

text \<open>
  DNS over TCP to a resolver of either kind: what \<open>forwardQuery\<close> leaves on the client's connection is
  nothing, and then it reports an error, or one frame whose length prefix is right and whose message has the
  query's ID; without an error the whole frame was written.
\<close>

theorem tcp_dns_one_frame:
  assumes "any_ok s" and "forwardQuery any_Query s q tcp_write c = Some (s', c', e)"
  shows "e \<noteq> None \<and> tcp_stream c' = tcp_stream c
    \<or> (\<exists>b k. length b \<le> 65535 \<and> 2 \<le> length b \<and> be16 b = be16 q
         \<and> tcp_stream c' = tcp_stream c @ take k (frame b) \<and> (e = None \<longrightarrow> k = length (frame b)))"
  by (rule any_tcp.forward_stream [OF assms])

text \<open>
  \<open>Accept\<close> with all its goroutines, in any order: the client receives whole frames only, each of them the
  resolver's own answer, under its ID, to one of the queries it sent; no query is answered twice, and when every
  goroutine is done and the connection still open, every query has been answered.
\<close>

theorem accept_answers_once:
  assumes "areach any_Query src (s :: 'x any_state) c a" and "any_ok s" and "tcp_healthy c" and "c_faults c = []"
  shows "\<exists>ps. tcp_stream (as_conn a) = tcp_stream c @ concat (map (frame \<circ> snd) ps)
    \<and> (\<forall>(q, b)\<in>set ps. be16 b = be16 q \<and> length b \<le> 65535
         \<and> (\<exists>(s1 :: 'x any_state) s2 e. any_ok s1 \<and> any_Query s1 q = Some (s2, Some b, e)))
    \<and> mset (map fst ps) \<subseteq># mset (fst (accept_loop src))
    \<and> (as_todo a = [] \<and> as_jobs a = [] \<and> \<not> c_closed (as_conn a) \<longrightarrow>
         mset (map fst ps) = mset (fst (accept_loop src)))"
  by (rule any.accept_stream [OF assms])

text \<open>
  \<open>Accept\<close> and its goroutines always come to an end: every step leaves fewer to go, so that no run is
  infinite, and a run that can go no further has stopped, with no goroutine left and the connection closed.
\<close>

theorem accept_terminates:
  assumes "areach any_Query src s c a" and "any_ok s" and "tcp_healthy c" and "c_faults c = []"
  shows "(\<forall>a'. astep any_Query a a' \<longrightarrow> accept_work a' < accept_work a)
    \<and> ((\<forall>a'. \<not> astep any_Query a a') \<longrightarrow> as_stopped a \<and> as_jobs a = [] \<and> c_closed (as_conn a))"
proof -
  obtain ps where inv: "relay_inv any_ok any_Query (fst (accept_loop src)) (tcp_stream c) ps a"
    using any.areach_inv [OF assms] ..
  then have "as_stopped a \<and> as_jobs a = []" if "\<forall>a'. \<not> astep any_Query a a'"
    using any.accept_progress [of a] that by (auto simp: relay_inv_def)
  then show ?thesis using inv astep_work by (auto simp: relay_inv_def)
qed

subsection \<open>Witnesses\<close>

definition sample_qe :: "unit query_env" where
  "sample_qe = \<lparr>qe_codec = sample_codec, qe_http = (\<lambda>n. sample_env 404 []), qe_tls = (\<lambda>n. sample_tls [])\<rparr>"

lemma sample_qe_ok: "query_env_ok sample_qe"
  using sample_id_law sample_env_ok sample_tls_ok by (simp add: query_env_ok_def sample_qe_def)

lemma sample_ce_lookup: "lookup_ok sample_ce"
  using sample_host_ok by (simp add: lookup_ok_def sample_ce_def)

definition sample_any :: "unit any_state" where
  "sample_any = with_env sample_qe (DoT sample_dot)"

lemma sample_any_ok: "any_ok sample_any"
  using sample_qe_ok sample_dot_ok by (simp add: sample_any_def with_env_def query_env_ok_def)

theorem localdnsProbe_status_witness:
  "localdnsProbeDoT sample_ce sample_qe ''tls://dns.google'' ''8.8.8.8''
     = Some (if \<exists>r s' b. NewDoTServer sample_ce ''tls://dns.google'' ''8.8.8.8'' False = Inr r
         \<and> any_Query (with_env sample_qe r) dnsProbeQuery = Some (s', Some b, None) then 0 else - 1)"
  using localdnsProbe_status [OF sample_ce_lookup sample_qe_ok] by blast

theorem udp_dns_reply_witness:
  "\<exists>s' w. handleDNS any_Query sample_any True (sample_query, None) = Some (s', w) \<and> any_ok s'
    \<and> (\<forall>s1 b e. any_Query sample_any (take 4096 sample_query) = Some (s1, Some b, Some e) \<longrightarrow> w = None)"
  using udp_dns_reply [OF sample_any_ok, of True "(sample_query, None)"] by auto

theorem tcp_dns_one_frame_witness:
  "\<exists>s' c' e. forwardQuery any_Query sample_any sample_query tcp_write (tcp_new []) = Some (s', c', e)
    \<and> (e \<noteq> None \<and> tcp_stream c' = tcp_stream (tcp_new [])
      \<or> (\<exists>b k. length b \<le> 65535 \<and> 2 \<le> length b \<and> be16 b = be16 sample_query
           \<and> tcp_stream c' = tcp_stream (tcp_new []) @ take k (frame b) \<and> (e = None \<longrightarrow> k = length (frame b))))"
proof -
  obtain s' c' e where f: "forwardQuery any_Query sample_any sample_query tcp_write (tcp_new []) = Some (s', c', e)"
    using any_tcp.forward_returns [OF sample_any_ok] by blast
  from tcp_dns_one_frame [OF sample_any_ok f] f show ?thesis by blast
qed

definition sample_source :: source where
  "sample_source = [(frame sample_query, None)]"

lemma sample_accept: "fst (accept_loop sample_source) = [sample_query]"
  using accept_loop_frame [of sample_query "[]" "[]"] by (simp add: sample_source_def sample_query_def)

definition sample_asys :: "unit any_state asys" where
  "sample_asys = \<lparr>as_todo = [], as_jobs = [JQuery sample_query], as_res = sample_any, as_conn = tcp_new [],
     as_stopped = False\<rparr>"

lemma sample_areach: "areach any_Query sample_source sample_any (tcp_new []) sample_asys"
proof -
  let ?a = "accept_start sample_source sample_any (tcp_new [])"
  have "astep any_Query ?a (?a\<lparr>as_todo := [], as_jobs := as_jobs ?a @ [JQuery sample_query]\<rparr>)"
    by (rule a_accept) (simp_all add: accept_start_def sample_accept)
  from ar_step [OF ar_start this] show ?thesis by (simp add: accept_start_def sample_asys_def)
qed

lemma sample_conn_healthy: "tcp_healthy (tcp_new [])" "c_faults (tcp_new []) = []"
  by (simp_all add: tcp_healthy_def tcp_new_def)

theorem accept_answers_once_witness:
  "\<exists>ps. tcp_stream (as_conn sample_asys) = concat (map (frame \<circ> snd) ps)
    \<and> mset (map fst ps) \<subseteq># mset [sample_query]"
  using accept_answers_once [OF sample_areach sample_any_ok sample_conn_healthy] by (auto simp: sample_accept)

theorem accept_terminates_witness:
  "\<exists>a'. astep any_Query sample_asys a' \<and> accept_work a' < accept_work sample_asys"
proof -
  have "any_ok (as_res sample_asys)" "\<not> (as_stopped sample_asys \<and> as_jobs sample_asys = [])"
    using sample_any_ok by (simp_all add: sample_asys_def)
  then obtain a' where "astep any_Query sample_asys a'" using any.accept_progress by blast
  then show ?thesis using accept_terminates [OF sample_areach sample_any_ok sample_conn_healthy] by blast
qed

end
