(* ===== verification/Tunnel.thy ===== *)
theory Tunnel
  imports Probes Forwarder
begin

section \<open>The tunnel as a whole\<close>

text \<open>
  From the exported functions to the DNS clients: whatever calls the application makes, a DNS query that reaches the
  fake DNS address of one of its sessions, over TCP or UDP, goes to the resolver set last and comes back under the
  contract of a resolver.
\<close>

subsection \<open>Histories of the exported functions\<close>

inductive exported :: "nat set \<Rightarrow> bridge \<Rightarrow> bool" for base :: "nat set" where
  ex_start: "exported base (br_init base)"
| ex_connect_doh: "exported base b \<Longrightarrow> lookup_ok ce \<Longrightarrow>
     localdnsConnectDoH ce pr tunFd fakeDns url ips b = (b', st, out) \<Longrightarrow> exported base b'"
| ex_connect_dot: "exported base b \<Longrightarrow> lookup_ok ce \<Longrightarrow>
     localdnsConnectDoT ce pr tunFd fakeDns host ips b = (b', st, out) \<Longrightarrow> exported base b'"
| ex_disconnect: "exported base b \<Longrightarrow> exported base (localdnsDisconnect h b)"
| ex_set_doh: "exported base b \<Longrightarrow> lookup_ok ce \<Longrightarrow> localdnsSetDoHServer ce h url ips b = (b', st) \<Longrightarrow> exported base b'"
| ex_set_dot: "exported base b \<Longrightarrow> lookup_ok ce \<Longrightarrow> localdnsSetDoTServer ce h host ips b = (b', st) \<Longrightarrow> exported base b'"

text \<open>A resolver that one of the two constructors made.\<close>

definition made :: "any_resolver \<Rightarrow> bool" where
  "made r \<longleftrightarrow> (\<exists>ce url ips listener. lookup_ok ce
     \<and> (NewDoHServer ce url ips listener = Inr r \<or> NewDoTServer ce url ips listener = Inr r))"

lemma made_ok: "made r \<Longrightarrow> query_env_ok qe \<Longrightarrow> any_ok (with_env qe r)"
  unfolding made_def using NewServer_ok by blast

lemma madeI:
  "lookup_ok ce \<Longrightarrow> NewDoHServer ce url ips listener = Inr r \<Longrightarrow> made r"
  "lookup_ok ce \<Longrightarrow> NewDoTServer ce url ips listener = Inr r \<Longrightarrow> made r"
  unfolding made_def by blast+

text \<open>Both transports of a session have the same resolver, and know it by the same address.\<close>

definition dns_agree :: "engine \<Rightarrow> bool" where
  "dns_agree s \<longleftrightarrow> made (od_dns (en_outbound s)) \<and> un_dns (en_udpNat s) = od_dns (en_outbound s)
     \<and> un_fakeDNSAddr (en_udpNat s) = od_fakeDNSAddr (en_outbound s)"

lemma ConnectSession_dns:
  "ConnectSession ce fd fakedns (Some r) pr listener os = (os', Inr s) \<Longrightarrow> made r \<Longrightarrow> dns_agree s"
  by (auto simp: ConnectSession_def connectSessionWithResolver_def NewEngine_def NewOutboundDialer_def NewUdpNat_def
      dns_agree_def split: prod.splits sum.splits if_splits)

lemma SetServer_dns: "dns_agree s \<Longrightarrow> made r \<Longrightarrow> dns_agree (SetServer (Some r) s)"
  by (simp add: dns_agree_def SetServer_def SetDNS_def od_SetDNS_def un_SetDNS_def)

lemma connect_with_sessions:
  assumes "connect_with ce tunFd fakeDns server pr b = (b', h, e)" and "\<And>r. server = Inr r \<Longrightarrow> made r"
    and "br_sessions b' k = Some s"
  shows "br_sessions b k = Some s \<or> dns_agree s"
proof (cases server)
  case (Inr r)
  obtain os res where c: "ConnectSession ce tunFd fakeDns (Some r) (Some pr) True (br_fds b) = (os, res)"
    by (cases "ConnectSession ce tunFd fakeDns (Some r) (Some pr) True (br_fds b)")
  then show ?thesis
    using assms Inr ConnectSession_dns
    by (cases res) (auto simp: connect_with_def Let_def split: if_splits)
qed (use assms in \<open>simp add: connect_with_def\<close>)

lemma set_server_sessions:
  assumes "\<And>r. server = Inr r \<Longrightarrow> made r" and "\<And>k s. br_sessions b k = Some s \<Longrightarrow> dns_agree s"
    and "br_sessions (fst (set_server_with h server b)) k = Some s"
  shows "dns_agree s"
  using assms SetServer_dns
  by (auto simp: set_server_with_def split: option.splits sum.splits if_splits)

lemma exported_dns: "exported base b \<Longrightarrow> br_sessions b k = Some s \<Longrightarrow> dns_agree s"
proof (induction arbitrary: k s rule: exported.induct)
  case ex_start
  then show ?case by (simp add: br_init_def)
next
  case (ex_connect_doh b ce pr tunFd fakeDns url ips b' st out)
  obtain h e where "connect_with ce tunFd fakeDns (NewDoHServer ce url ips True) pr b = (b', h, e)"
    using ex_connect_doh.hyps(3) by (auto simp: localdnsConnectDoH_def ConnectDoH_def split: prod.splits option.splits)
  from connect_with_sessions [OF this _ ex_connect_doh.prems] show ?case
    using madeI(1) [OF ex_connect_doh.hyps(2)] ex_connect_doh.IH by blast
next
  case (ex_connect_dot b ce pr tunFd fakeDns host ips b' st out)
  obtain h e where "connect_with ce tunFd fakeDns (NewDoTServer ce host ips True) pr b = (b', h, e)"
    using ex_connect_dot.hyps(3) by (auto simp: localdnsConnectDoT_def ConnectDoT_def split: prod.splits option.splits)
  from connect_with_sessions [OF this _ ex_connect_dot.prems] show ?case
    using madeI(2) [OF ex_connect_dot.hyps(2)] ex_connect_dot.IH by blast
next
  case (ex_disconnect b h)
  then show ?case by (auto simp: localdnsDisconnect_def br_Disconnect_def split: option.splits if_splits)
next
  case (ex_set_doh b ce h url ips b' st)
  have "b' = fst (set_server_with h (NewDoHServer ce url ips True) b)"
    using ex_set_doh.hyps(3) by (auto simp: localdnsSetDoHServer_def br_SetDoHServer_def split: prod.splits option.splits)
  then show ?case
    using set_server_sessions [of "NewDoHServer ce url ips True" b h k s] madeI(1) [OF ex_set_doh.hyps(2)] ex_set_doh.IH ex_set_doh.prems by blast
next
  case (ex_set_dot b ce h host ips b' st)
  have "b' = fst (set_server_with h (NewDoTServer ce host ips True) b)"
    using ex_set_dot.hyps(3) by (auto simp: localdnsSetDoTServer_def br_SetDoTServer_def split: prod.splits option.splits)
  then show ?case
    using set_server_sessions [of "NewDoTServer ce host ips True" b h k s] madeI(2) [OF ex_set_dot.hyps(2)] ex_set_dot.IH ex_set_dot.prems by blast
qed

subsection \<open>A resolver in use\<close>

text \<open>The states of a resolver after any queries, of any clients.\<close>

inductive in_use :: "'x any_state \<Rightarrow> 'x any_state \<Rightarrow> bool" for s0 :: "'x any_state" where
  iu_new: "in_use s0 s0"
| iu_query: "in_use s0 s \<Longrightarrow> any_Query s q = Some (s', resp, e) \<Longrightarrow> in_use s0 s'"

lemma in_use_ok: "in_use s0 s \<Longrightarrow> any_ok s0 \<Longrightarrow> any_ok s"
  by (induction rule: in_use.induct) (auto intro: any.query_ok)

lemma accept_in_use: "areach any_Query src s c a \<Longrightarrow> in_use s (as_res a)"
proof (induction rule: areach.induct)
  case ar_start
  show ?case by (simp add: accept_start_def iu_new)
next
  case (ar_step a a')
  from ar_step.hyps(2) ar_step.IH show ?case by (cases rule: astep.cases) (auto intro: iu_query)
qed

text \<open>The states of one resolver form a resolver of their own, under the same contract.\<close>

lemma in_use_resolver:
  assumes "any_ok s0"
  shows "dns_resolver (in_use s0) any_Query"
proof
  fix s :: "'a any_state" and q
  assume u: "in_use s0 s"
  note ok = in_use_ok [OF u assms]
  show "\<exists>s' r e. any_Query s q = Some (s', r, e) \<and> in_use s0 s'"
    using any.query_returns [OF ok, of q] iu_query [OF u] by blast
next
  fix s s' :: "'a any_state" and q r
  assume "in_use s0 s" "any_Query s q = Some (s', r, None)"
  then show "\<exists>b. r = Some b" using any.query_answer in_use_ok assms by blast
next
  fix s s' :: "'a any_state" and q b e
  assume "in_use s0 s" "any_Query s q = Some (s', Some b, e)"
  then show "2 \<le> length b \<and> 2 \<le> length q \<and> be16 b = be16 q" using any.query_id in_use_ok assms by blast
qed

subsection \<open>Properties\<close>

lemma session_resolver:
  assumes "exported base b" and "br_sessions b h = Some s" and "query_env_ok qe"
  shows "dns_resolver (in_use (with_env qe (od_dns (en_outbound s)))) any_Query"
  using in_use_resolver made_ok [OF _ assms(3)] exported_dns [OF assms(1,2)] by (auto simp: dns_agree_def)

lemma fake_flow:
  assumes "stack_addrPortFromTCPUIP addr port = Some dest" and "isEquivalentAddrPort dest (od_fakeDNSAddr od)"
  shows "handleTCPForwarder addr port True (\<lambda>d. DialTCP od before res after d tcp) = TcpRelaying (DNSPipe (od_dns od))"
  using assms by (simp add: handleTCPForwarder_def DialTCP_def)

text \<open>
  DNS over TCP through the tunnel: after any calls of the exported functions, a flow of any session in the table to
  its fake DNS address, in either form of the address, gets a pipe to the session's resolver with nothing dialled,
  and the client on that pipe receives whole frames only, each of them an answer that this resolver gave, at some
  point of its life, to one of the client's queries and under its ID; no query is answered twice, and all are
  answered unless the connection is closed before.
\<close>

theorem tunnel_dns_tcp:
  assumes "exported base b" and "br_sessions b h = Some s" and "query_env_ok qe"
    and "stack_addrPortFromTCPUIP addr port = Some dest" and "isEquivalentAddrPort dest (od_fakeDNSAddr (en_outbound s))"
    and "in_use (with_env qe (od_dns (en_outbound s))) rs" and "areach any_Query src rs c a"
    and "tcp_healthy c" and "c_faults c = []"
  shows "handleTCPForwarder addr port True (\<lambda>d. DialTCP (en_outbound s) before res after d tcp)
      = TcpRelaying (DNSPipe (od_dns (en_outbound s)))
    \<and> (\<exists>ps. tcp_stream (as_conn a) = tcp_stream c @ concat (map (frame \<circ> snd) ps)
        \<and> (\<forall>(q, r)\<in>set ps. be16 r = be16 q \<and> length r \<le> 65535
             \<and> (\<exists>s1 s2 e. in_use (with_env qe (od_dns (en_outbound s))) s1 \<and> any_Query s1 q = Some (s2, Some r, e)))
        \<and> mset (map fst ps) \<subseteq># mset (fst (accept_loop src))
        \<and> (as_todo a = [] \<and> as_jobs a = [] \<and> \<not> c_closed (as_conn a) \<longrightarrow>
             mset (map fst ps) = mset (fst (accept_loop src))))"
  by (rule conjI [OF fake_flow [OF assms(4,5)]
        dns_resolver.accept_stream [OF session_resolver [OF assms(1-3)] assms(7,6,8,9)]])

text \<open>
  DNS over UDP through the tunnel: in the same histories a datagram of a session to the same address goes to the
  DNS handler, which asks the same resolver, whatever it has been asked before; the handler ends, the resolver goes on in
  use, and what the client gets, if anything, is an answer of that resolver, without an error and under the query's ID.
\<close>

theorem tunnel_dns_udp:
  assumes "exported base b" and "br_sessions b h = Some s" and "query_env_ok qe"
    and "addrPortFromTCPUIP addr port = Some dest" and "isEquivalentAddrPort dest (od_fakeDNSAddr (en_outbound s))"
    and "in_use (with_env qe (un_dns (en_udpNat s))) rs"
  shows "HandleForwarder (en_udpNat s) addr port = ToDNS \<and> un_dns (en_udpNat s) = od_dns (en_outbound s)
    \<and> (\<exists>rs' w. handleDNS any_Query rs created rd = Some (rs', w) \<and> in_use (with_env qe (un_dns (en_udpNat s))) rs'
        \<and> (\<forall>r. w = Some r \<longrightarrow> 2 \<le> length r \<and> be16 r = be16 (take 4096 (fst rd))
             \<and> (\<exists>s2. any_Query rs (take 4096 (fst rd)) = Some (s2, Some r, None))))"
proof -
  have agree: "un_dns (en_udpNat s) = od_dns (en_outbound s)"
    "un_fakeDNSAddr (en_udpNat s) = od_fakeDNSAddr (en_outbound s)"
    using exported_dns [OF assms(1,2)] by (simp_all add: dns_agree_def)
  note dns = dns_resolver.handleDNS_reply [OF session_resolver [OF assms(1-3)] assms(6) [unfolded agree(1)], of created rd]
  show ?thesis
    using assms(4,5) agree dns by (auto simp: HandleForwarder_def)
qed

subsection \<open>Witnesses\<close>

text \<open>The bridge after one connect to a DoT server, and a query of a client on that session.\<close>

lemma sample_exported: "exported {3} sample_bridge"
proof -
  have "localdnsConnectDoT sample_ce no_resolvers 3 ''10.111.222.3:53'' ''tls://dns.google'' ''8.8.8.8'' (br_init {3})
      = (sample_bridge, 0, Some 2)"
    by (simp add: localdnsConnectDoT_def ConnectDoT_def sample_DoT_server sample_connect)
  from ex_connect_dot [OF ex_start sample_ce_lookup this] show ?thesis .
qed

lemma sample_table: "br_sessions sample_bridge 2 = Some sample_session" "od_dns (en_outbound sample_session) = DoT sample_dot"
  "un_dns (en_udpNat sample_session) = DoT sample_dot"
  by (simp_all add: sample_bridge_def sample_session_def)

lemma sample_fake:
  "stack_addrPortFromTCPUIP [10, 111, 222, 3] 53 = Some \<lparr>ap_Addr = Addr4 [10, 111, 222, 3], ap_Port = 53\<rparr>"
  "isEquivalentAddrPort \<lparr>ap_Addr = Addr4 [10, 111, 222, 3], ap_Port = 53\<rparr> (od_fakeDNSAddr (en_outbound sample_session))"
  by (simp_all add: stack_addrPortFromTCPUIP_def isEquivalentAddrPort_def sample_session_def)

lemma sample_in_use: "in_use (with_env sample_qe (DoT sample_dot)) sample_any"
  unfolding sample_any_def by (rule iu_new)

theorem tunnel_dns_tcp_witness:
  "handleTCPForwarder [10, 111, 222, 3] 53 True (\<lambda>d. DialTCP (en_outbound sample_session) 0 (Inl EEOF) 0 d demo_addr)
      = TcpRelaying (DNSPipe (DoT sample_dot))
    \<and> (\<exists>ps. tcp_stream (as_conn sample_asys) = concat (map (frame \<circ> snd) ps) \<and> mset (map fst ps) \<subseteq># mset [sample_query])"
  using tunnel_dns_tcp [OF sample_exported sample_table(1) sample_qe_ok sample_fake
      sample_in_use [folded sample_table(2)] sample_areach sample_conn_healthy, of 0 "Inl EEOF" 0 demo_addr]
  by (auto simp: sample_accept sample_table)

theorem tunnel_dns_udp_witness:
  "HandleForwarder (en_udpNat sample_session) [10, 111, 222, 3] 53 = ToDNS
    \<and> (\<exists>rs' w. handleDNS any_Query sample_any True (sample_query, None) = Some (rs', w))"
  using tunnel_dns_udp [OF sample_exported sample_table(1) sample_qe_ok sample_fake(1) [unfolded stack_addrPort_eq] sample_fake(2)
      sample_in_use [folded sample_table(3)], of True "(sample_query, None)"] by blast

end
