(* ===== verification/TunnelFlow.thy ===== *)
theory TunnelFlow
  imports Tunnel DnsFlow DohOverlap DotOverlap
begin

section \<open>DNS flows of the tunnel, with overlapping queries\<close>

text \<open>
  A DNS flow of a session (\<open>DnsFlow\<close>) on the session's resolver, whose queries overlap with each other and with those of
  any other flow (\<open>DohOverlap\<close>, \<open>DotOverlap\<close>).
\<close>

subsection \<open>The resolver of a session\<close>

text \<open>What a query of a session's resolver can come back with, \<open>cd\<close> being the codec of DNS messages.\<close>

definition session_answers :: "'x codec \<times> any_resolver \<Rightarrow> answer_rel" where
  "session_answers p = (case snd p of DoH d \<Rightarrow> doh_answers (fst p, d) | DoT d \<Rightarrow> dot_answers (fst p, d))"

definition session_usable :: "'x codec \<times> any_resolver \<Rightarrow> bool" where
  "session_usable p = (case snd p of DoH d \<Rightarrow> doh_usable (fst p, d) | DoT d \<Rightarrow> dot_usable (fst p, d))"

interpretation session_pending: answers_come session_usable session_answers
proof unfold_locales
  fix p :: "'x codec \<times> any_resolver" and q resp e b
  assume p: "session_usable p"
  show "\<exists>b. resp = Some b" if a: "session_answers p q resp None"
  proof (cases "snd p")
    case (DoH d)
    then show ?thesis using a p doh_pending.answer_some [of "(fst p, d)"] by (simp add: session_answers_def session_usable_def)
  next
    case (DoT d)
    then show ?thesis using a p dot_pending.answer_some [of "(fst p, d)"] by (simp add: session_answers_def session_usable_def)
  qed
  show "2 \<le> length b \<and> 2 \<le> length q \<and> be16 b = be16 q" if a: "session_answers p q (Some b) e"
  proof (cases "snd p")
    case (DoH d)
    then show ?thesis using a p doh_pending.answer_id [of "(fst p, d)" q b e] by (simp add: session_answers_def session_usable_def)
  next
    case (DoT d)
    then show ?thesis using a p dot_pending.answer_id [of "(fst p, d)" q b e] by (simp add: session_answers_def session_usable_def)
  qed
  show "\<exists>resp e. session_answers p q resp e"
    using p doh_pending.answer_exists dot_pending.answer_exists
    unfolding session_answers_def session_usable_def by (cases "snd p") auto
qed

lemma made_usable:
  assumes "made r" and "id_law cd"
  shows "session_usable (cd, r)"
proof -
  let ?qe = "\<lparr>qe_codec = cd, qe_http = (\<lambda>n. sample_env 200 []), qe_tls = (\<lambda>n. sample_tls [])\<rparr>"
  have "query_env_ok ?qe" using assms(2) sample_env_ok sample_tls_ok by (simp add: query_env_ok_def)
  from made_ok [OF assms(1) this] show ?thesis
    using assms(2)
    by (cases r) (auto simp: with_env_def session_usable_def doh_usable_def dot_usable_def doh_ok.simps)
qed

lemma session_flow_usable:
  assumes "exported base b" and "br_sessions b h = Some s" and "id_law cd"
  shows "session_usable (cd, od_dns (en_outbound s))"
  using exported_dns [OF assms(1,2)] made_usable [OF _ assms(3)] by (simp add: dns_agree_def)

subsection \<open>Properties\<close>

text \<open>
  DNS over TCP through the tunnel, with everything in between: after any calls of the exported functions, a flow of
  any session in the table to its fake DNS address gets a pipe to the session's resolver with nothing dialled. Through
  both relays, the unbuffered pipe, \<open>Accept\<close> and the goroutines of its queries, in any order and with overlapping
  queries, the client gets a first part of a sequence of whole frames, each an answer of that resolver to another query
  of the client, under its ID; the queries are whole frames from the front of what the client sent. When nothing is under
  way and the pipe is open, all of them have been answered completely.
\<close>

theorem tunnel_dns_flow:
  assumes "exported base b" and "br_sessions b h = Some s" and "id_law cd"
    and "stack_addrPortFromTCPUIP addr port = Some dest" and "isEquivalentAddrPort dest (od_fakeDNSAddr (en_outbound s))"
    and "dfreach (session_answers (cd, od_dns (en_outbound s))) src f"
  shows "handleTCPForwarder addr port True (\<lambda>d. DialTCP (en_outbound s) before res after d tcp)
      = TcpRelaying (DNSPipe (od_dns (en_outbound s)))
    \<and> (\<exists>qs ps. (\<forall>q\<in>set qs. length q < 65536) \<and> prefix (concat (map frame qs)) (src_data src)
        \<and> (\<not> pipe_closed (df_pipe f) \<longrightarrow> accepts (src_data src) qs f)
        \<and> prefix (df_out f) (concat (map (frame \<circ> snd) ps))
        \<and> (\<forall>(q, b)\<in>set ps. be16 b = be16 q \<and> length b \<le> 65535
             \<and> (\<exists>e. session_answers (cd, od_dns (en_outbound s)) q (Some b) e))
        \<and> mset (map fst ps) \<subseteq># mset qs
        \<and> (\<not> pipe_closed (df_pipe f) \<longrightarrow> JClose \<notin> set (df_jobs f) \<longrightarrow> mset (map fst ps) + mset (job_queries (df_jobs f)) = mset qs)
        \<and> (dns_quiet f \<longrightarrow> df_out f = concat (map (frame \<circ> snd) ps) \<and> mset (map fst ps) = mset qs))"
proof (rule conjI)
  show "handleTCPForwarder addr port True (\<lambda>d. DialTCP (en_outbound s) before res after d tcp)
      = TcpRelaying (DNSPipe (od_dns (en_outbound s)))"
    by (rule fake_flow [OF assms(4,5)])
qed (rule session_pending.dns_flow_stream [OF session_flow_usable [OF assms(1-3)] assms(6)])

text \<open>
  C5. Nothing of a DNS flow hangs: as long as one of its goroutines has not come to its end, one of them can go on (no
  deadlock over the pipe, whichever end was closed first), every step leaves less to do, and at the end both ends of the
  pipe and the client's connection are closed, with no write and no query left behind.
\<close>

theorem tunnel_dns_flow_ends:
  assumes "exported base b" and "br_sessions b h = Some s" and "id_law cd"
    and "dfreach (session_answers (cd, od_dns (en_outbound s))) src f"
  shows "(\<forall>f'. dfstep (session_answers (cd, od_dns (en_outbound s))) f f' \<longrightarrow> dns_flow_work f' < dns_flow_work f)
    \<and> (dns_flow_over f \<or> (\<exists>f'. dfstep (session_answers (cd, od_dns (en_outbound s))) f f'))
    \<and> (dns_flow_over f \<longrightarrow> pc_local_closed (df_pipe f) \<and> pc_remote_closed (df_pipe f) \<and> df_stack_closed f)"
proof -
  note use = session_flow_usable [OF assms(1-3)]
  have "dns_flow_over f \<longrightarrow> pc_local_closed (df_pipe f) \<and> pc_remote_closed (df_pipe f) \<and> df_stack_closed f"
    using dfreach_ends [OF assms(4)] by (auto simp: dns_flow_over_def ends_ok_def)
  then show ?thesis using dfstep_work session_pending.dns_flow_moves [OF use assms(4)] by blast
qed

text \<open>
  C30. The end of the client's stream ends its answers: when the relay from the client has come to its end, and so has
  closed the local end of the pipe, the client gets no more than the piece that the other relay has already taken out of
  the pipe, whatever answers its queries get. A client that sends a query and shuts down its sending side is left
  without its answer.
\<close>

theorem dns_half_close_cuts:
  assumes "dfreach R src f" and "df_up f = UpEnded" and "(dfstep R)\<^sup>*\<^sup>* f f'"
  shows "prefix (df_out f') (df_out f @ down_pending f) \<and> pc_local_closed (df_pipe f)"
proof -
  have closed: "pc_local_closed (df_pipe f)" using dfreach_ends [OF assms(1)] assms(2) by (simp add: ends_ok_def)
  then have "prefix (df_out f' @ down_pending f') (df_out f @ down_pending f)"
    using closed_run [OF assms(3)] by (simp add: pipe_closed_def)
  then show ?thesis using closed append_prefixD by blast
qed

subsection \<open>Witnesses\<close>

text \<open>The sample session's resolver answers the sample query; a flow with that query alone.\<close>

lemma sample_session_answer:
  "\<exists>b. length b \<le> 4 \<and> session_answers (sample_codec, DoT sample_dot) sample_query (Some b) None"
proof -
  let ?env = "sample_tls [([0], None), ([4, 0, 0], None), ([1, 2], None)]"
  obtain r' out where run: "dot_doQuery sample_codec ?env sample_query sample_dot = Some (r', out)" "to_qerr out = None"
      "to_response out = Some (put16 0 (be16 sample_padded_query) [0, 0, 1, 2])"
    using sample_dot_run [OF sample_answer_read] by (auto simp: be16_def)
  obtain s where s: "dovreach sample_codec sample_dot s" "dv_q s 0 = DReturned sample_query out"
    using sequential_result [OF sample_id_law sample_tls_ok sample_dot_ok _ run(1)]
    by (auto simp: sample_tls_def sample_dot_def dot_hangoverDuration_def second_def)
  obtain b where b: "to_response out = Some b" "length b \<le> 4" using run(3) by auto
  have "dot_answers (sample_codec, sample_dot) sample_query (Some b) None"
    unfolding dot_answers_def prod.case using s b(1) run(2) by (intro exI [of _ s] exI [of _ 0] exI [of _ out]) simp
  then show ?thesis using b(2) unfolding session_answers_def by (intro exI [of _ b]) simp
qed

lemma sample_query_frame: "sample_query \<noteq> []" "length (frame sample_query) \<le> 32768"
  by (simp_all add: sample_query_def)

text \<open>A flow that has answered one query, with its stream open.\<close>

lemma sample_flow:
  "\<exists>f. dfreach (session_answers (sample_codec, od_dns (en_outbound sample_session))) [(frame sample_query, None)] f
    \<and> df_out f \<noteq> [] \<and> df_up f = UpWriting [] None \<and> df_down f = DownRead \<and> \<not> pipe_closed (df_pipe f)"
proof -
  obtain b where b: "length b \<le> 4" "session_answers (sample_codec, DoT sample_dot) sample_query (Some b) None"
    using sample_session_answer by blast
  obtain pipe where pipe: "newPipeConn False False = Inr pipe" by (simp add: newPipeConn_def)
  have "frame b \<noteq> []" "length (frame b) \<le> 32768" using b(1) by (auto simp: frame_def enc16_def)
  with one_query_run [where R = "session_answers (sample_codec, DoT sample_dot)", OF b(2) sample_query_frame _ pipe] show ?thesis
    unfolding sample_table by fastforce
qed

theorem tunnel_dns_flow_witness:
  "\<exists>f qs ps. dfreach (session_answers (sample_codec, od_dns (en_outbound sample_session))) [(frame sample_query, None)] f
    \<and> df_out f \<noteq> [] \<and> prefix (concat (map frame qs)) (frame sample_query) \<and> prefix (df_out f) (concat (map (frame \<circ> snd) ps))
    \<and> mset (map fst ps) \<subseteq># mset qs"
proof -
  obtain f where f: "dfreach (session_answers (sample_codec, od_dns (en_outbound sample_session))) [(frame sample_query, None)] f"
      "df_out f \<noteq> []"
    using sample_flow by blast
  from tunnel_dns_flow [OF sample_exported sample_table(1) sample_id_law sample_fake f(1), of 0 "Inl EEOF" 0 demo_addr]
  obtain qs ps where "prefix (concat (map frame qs)) (src_data [(frame sample_query, None)])"
      "prefix (df_out f) (concat (map (frame \<circ> snd) ps))" "mset (map fst ps) \<subseteq># mset qs"
    by blast
  then show ?thesis using f by (intro exI [of _ f] exI [of _ qs] exI [of _ ps]) simp
qed

theorem tunnel_dns_flow_ends_witness:
  "\<exists>f. df_out f \<noteq> [] \<and> (dns_flow_over f
    \<or> (\<exists>f'. dfstep (session_answers (sample_codec, od_dns (en_outbound sample_session))) f f' \<and> dns_flow_work f' < dns_flow_work f))"
proof -
  obtain f where f: "dfreach (session_answers (sample_codec, od_dns (en_outbound sample_session))) [(frame sample_query, None)] f"
      "df_out f \<noteq> []"
    using sample_flow by blast
  from tunnel_dns_flow_ends [OF sample_exported sample_table(1) sample_id_law f(1)] f(2) show ?thesis by blast
qed

theorem dns_half_close_cuts_witness:
  "\<exists>f. dfreach (session_answers (sample_codec, DoT sample_dot)) [(frame sample_query, Some EEOF)] f
    \<and> df_jobs f = [JQuery sample_query]
    \<and> (\<forall>f'. (dfstep (session_answers (sample_codec, DoT sample_dot)))\<^sup>*\<^sup>* f f' \<longrightarrow> df_out f' = [])"
proof -
  obtain pipe where pipe: "newPipeConn False False = Inr pipe" by (simp add: newPipeConn_def)
  obtain f where f: "dfreach (session_answers (sample_codec, DoT sample_dot)) [(frame sample_query, Some EEOF)] f"
      "df_up f = UpEnded" "df_jobs f = [JQuery sample_query]" "df_out f = []" "df_down f = DownRead"
    using half_closed_run [OF sample_query_frame pipe] by blast
  have "df_out f' = []" if "(dfstep (session_answers (sample_codec, DoT sample_dot)))\<^sup>*\<^sup>* f f'" for f'
    using dns_half_close_cuts [OF f(1,2) that] f(4,5) by (simp add: down_pending_def)
  then show ?thesis using f by blast
qed

end
