(* ===== verification/ClientAuth.thy ===== *)
theory ClientAuth
  imports Go_Prelude
begin

section \<open>Client certificates (proxy/doh/client_auth.go)\<close>

text \<open>
  The adapter between the application's \<open>ClientAuth\<close> interface and the TLS client: which certificate it
  presents, and the failures of its signer. Parsing a certificate (\<open>crypto/x509\<close>) is an argument: it
  tells whether the key is an ECDSA key.
\<close>

record ClientAuth =
  ca_GetClientCertificate :: "bytes option"
  ca_GetIntermediateCertificate :: "bytes option"
  ca_Sign :: "bytes \<Rightarrow> bytes option"

datatype public_key = ECDSA bytes | OtherKey bytes

record leaf_cert =
  lc_PublicKey :: public_key

text \<open>\<open>tls.Certificate\<close>: the chain, whether the private key is the wrapper itself, and the leaf.\<close>

record tls_cert =
  tc_Certificate :: "bytes list"
  tc_PrivateKey :: bool
  tc_Leaf :: "leaf_cert option"

definition empty_cert :: tls_cert where
  "empty_cert = \<lparr>tc_Certificate = [], tc_PrivateKey = False, tc_Leaf = None\<rparr>"

text \<open>The wrapper holds the signer, which may be nil.\<close>

type_synonym clientAuthWrapper = "ClientAuth option"
type_synonym cert_parser = "bytes \<Rightarrow> goerr + leaf_cert"

definition newClientAuthWrapper :: "ClientAuth option \<Rightarrow> clientAuthWrapper" where
  "newClientAuthWrapper signer = signer"

definition GetClientCertificate :: "cert_parser \<Rightarrow> clientAuthWrapper \<Rightarrow> tls_cert \<times> goerr option" where
  "GetClientCertificate parse ca =
     (case ca of
        None \<Rightarrow> (empty_cert, None)
      | Some signer \<Rightarrow>
          (case ca_GetClientCertificate signer of
             None \<Rightarrow> (empty_cert, None)
           | Some cert \<Rightarrow>
               let chain = [cert] @ (case ca_GetIntermediateCertificate signer of None \<Rightarrow> [] | Some i \<Rightarrow> [i]) in
               (case parse cert of
                  Inl err \<Rightarrow> (empty_cert, None)
                | Inr leaf \<Rightarrow>
                    (case lc_PublicKey leaf of
                       OtherKey k \<Rightarrow> (empty_cert, None)
                     | ECDSA k \<Rightarrow>
                         (\<lparr>tc_Certificate = chain, tc_PrivateKey = True, tc_Leaf = Some leaf\<rparr>, None)))))"

text \<open>\<open>Public\<close>: a nil certificate is parsed like an empty one.\<close>

definition Public :: "cert_parser \<Rightarrow> clientAuthWrapper \<Rightarrow> public_key option" where
  "Public parse ca =
     (case ca of
        None \<Rightarrow> None
      | Some signer \<Rightarrow>
          let cert = (case ca_GetClientCertificate signer of None \<Rightarrow> [] | Some c \<Rightarrow> c) in
          (case parse cert of Inl err \<Rightarrow> None | Inr leaf \<Rightarrow> Some (lc_PublicKey leaf)))"

definition Sign :: "clientAuthWrapper \<Rightarrow> bytes \<Rightarrow> goerr + bytes" where
  "Sign ca digest =
     (case ca of
        None \<Rightarrow> Inl (EMsg ''no client certificate'')
      | Some signer \<Rightarrow>
          (case ca_Sign signer digest of
             None \<Rightarrow> Inl (EMsg ''failed to create signature'')
           | Some signature \<Rightarrow> Inr signature))"

text \<open>
  \<open>GetClientCertificate\<close> never fails the handshake: it returns no error, and either an empty
  certificate or a usable one, whose chain starts with the application's certificate, whose key is an
  ECDSA key that the wrapper can sign for, and which is the key that \<open>Public\<close> reports; it gives the usable
  one whenever the application has a certificate that parses and has such a key.
\<close>

theorem GetClientCertificate_usable:
  "snd (GetClientCertificate parse ca) = None
   \<and> (case ca of
        None \<Rightarrow> fst (GetClientCertificate parse ca) = empty_cert
      | Some signer \<Rightarrow>
          (if \<exists>cert leaf k. ca_GetClientCertificate signer = Some cert \<and> parse cert = Inr leaf \<and> lc_PublicKey leaf = ECDSA k
           then \<exists>cert leaf. ca_GetClientCertificate signer = Some cert \<and> parse cert = Inr leaf
             \<and> hd (tc_Certificate (fst (GetClientCertificate parse ca))) = cert
             \<and> tl (tc_Certificate (fst (GetClientCertificate parse ca))) = (case ca_GetIntermediateCertificate signer of None \<Rightarrow> [] | Some i \<Rightarrow> [i])
             \<and> tc_PrivateKey (fst (GetClientCertificate parse ca))
             \<and> Public parse ca = Some (lc_PublicKey leaf)
           else fst (GetClientCertificate parse ca) = empty_cert))"
proof (cases ca)
  case None
  then show ?thesis by (simp add: GetClientCertificate_def)
next
  case (Some signer)
  show ?thesis
  proof (cases "\<exists>cert leaf k. ca_GetClientCertificate signer = Some cert \<and> parse cert = Inr leaf \<and> lc_PublicKey leaf = ECDSA k")
    case True
    then show ?thesis using Some by (auto simp: GetClientCertificate_def Public_def Let_def)
  next
    case False
    then show ?thesis
      using Some
      by (auto simp: GetClientCertificate_def Let_def split: option.splits sum.splits public_key.splits)
  qed
qed

end
