(* ===== verification/Logging.thy ===== *)
theory Logging
  imports Go_Prelude
begin

section \<open>The log handlers (common/log)\<close>

text \<open>
  \<open>log.go\<close> and \<open>log_android.go\<close>: the level of each function, the filter, the priority for logcat and the
  cut of long lines. The text format (\<open>slog.TextHandler\<close>) is an argument, the formatted line.
\<close>

text \<open>\<open>slog.Level\<close>, an int.\<close>

definition LevelDebug :: int where "LevelDebug = - 4"
definition LevelInfo :: int where "LevelInfo = 0"
definition LevelWarn :: int where "LevelWarn = 4"
definition LevelError :: int where "LevelError = 8"

datatype android_prio = ANDROID_LOG_DEBUG | ANDROID_LOG_INFO | ANDROID_LOG_WARN | ANDROID_LOG_ERROR

definition maxAndroidLogLine :: nat where "maxAndroidLogLine = 3800"

record ('a) androidHandler =
  ah_min :: int
  ah_attrs :: "'a list"
  ah_groups :: "string list"

definition Enabled :: "'a androidHandler \<Rightarrow> int \<Rightarrow> bool" where
  "Enabled h level \<longleftrightarrow> level \<ge> ah_min h"

definition androidPrio :: "int \<Rightarrow> android_prio" where
  "androidPrio l =
     (if l \<ge> LevelError then ANDROID_LOG_ERROR
      else if l \<ge> LevelWarn then ANDROID_LOG_WARN
      else if l \<ge> LevelInfo then ANDROID_LOG_INFO
      else ANDROID_LOG_DEBUG)"

definition is_space :: "char \<Rightarrow> bool" where
  "is_space c \<longleftrightarrow> (of_char c :: nat) \<in> {9, 10, 11, 12, 13, 32}"

definition TrimSpace :: "string \<Rightarrow> string" where
  "TrimSpace s = rev (dropWhile is_space (rev (dropWhile is_space s)))"

text \<open>
  \<open>Handle\<close>: the text handler gets the attributes and groups; what goes to logcat. (\<open>TrimSpace\<close> is
  that of ASCII text.)
\<close>

definition Handle :: "('a list \<Rightarrow> string list \<Rightarrow> 'm \<Rightarrow> goerr + string) \<Rightarrow> 'a androidHandler \<Rightarrow> int \<Rightarrow> 'm
    \<Rightarrow> goerr + android_prio \<times> string" where
  "Handle format h level msg =
     (case format (ah_attrs h) (ah_groups h) msg of
        Inl err \<Rightarrow> Inl err
      | Inr text \<Rightarrow>
          let line = TrimSpace text;
              line' = (if length line > maxAndroidLogLine
                then take maxAndroidLogLine line @ ''...(truncated)'' else line)
          in Inr (androidPrio level, line'))"

definition WithAttrs :: "'a androidHandler \<Rightarrow> 'a list \<Rightarrow> 'a androidHandler" where
  "WithAttrs h attrs = h\<lparr>ah_attrs := ah_attrs h @ attrs\<rparr>"

definition WithGroup :: "'a androidHandler \<Rightarrow> string \<Rightarrow> 'a androidHandler" where
  "WithGroup h name = h\<lparr>ah_groups := ah_groups h @ [name]\<rparr>"

lemma androidPrio_mono_cases:
  "androidPrio LevelDebug = ANDROID_LOG_DEBUG" "androidPrio LevelInfo = ANDROID_LOG_INFO"
  "androidPrio LevelWarn = ANDROID_LOG_WARN" "androidPrio LevelError = ANDROID_LOG_ERROR"
  by (simp_all add: androidPrio_def LevelDebug_def LevelInfo_def LevelWarn_def LevelError_def)

text \<open>
  A line in logcat is never longer than 3814 bytes, and it is the trimmed text itself unless the mark
  at its end says that it was cut.
\<close>

theorem Handle_line_bound:
  assumes "Handle format h level msg = Inr (prio, line)"
  shows "length line \<le> 3814 \<and> prio = androidPrio level
    \<and> (\<exists>text. format (ah_attrs h) (ah_groups h) msg = Inr text
         \<and> (line = TrimSpace text \<or> line = take 3800 (TrimSpace text) @ ''...(truncated)''))"
  using assms by (auto simp: Handle_def maxAndroidLogLine_def Let_def split: sum.splits if_splits)

theorem Handle_line_bound_witness:
  "length ''hello'' \<le> 3814 \<and> ANDROID_LOG_WARN = androidPrio LevelWarn
    \<and> (\<exists>text. (Inr ''hello '' :: goerr + string) = Inr text
         \<and> (''hello'' = TrimSpace text \<or> ''hello'' = take 3800 (TrimSpace text) @ ''...(truncated)''))"
  by (rule Handle_line_bound [where format = "\<lambda>a g m. Inr m" and msg = "''hello ''"
        and h = "\<lparr>ah_min = LevelDebug, ah_attrs = [] :: nat list, ah_groups = []\<rparr>"])
    (simp add: Handle_def TrimSpace_def is_space_def maxAndroidLogLine_def androidPrio_mono_cases)

subsection \<open>The logger and its functions (log.go, log_android.go, log_std.go)\<close>

text \<open>
  The handler that \<open>init\<close> installs on Android, and the level of the one elsewhere; \<open>slog.Logger.Log\<close> asks the handler
  and gives it the record. A record is a message with its arguments; \<open>sprintf\<close> is \<open>fmt.Sprintf\<close>.
\<close>

definition android_init :: "'a androidHandler" where
  "android_init = \<lparr>ah_min = LevelDebug, ah_attrs = [], ah_groups = []\<rparr>"

definition std_Enabled :: "int \<Rightarrow> bool" where
  "std_Enabled level \<longleftrightarrow> level \<ge> LevelWarn"

type_synonym ('a, 'v) text_format = "'a list \<Rightarrow> string list \<Rightarrow> string \<times> 'v list \<Rightarrow> goerr + string"

definition slog_Log :: "('a, 'v) text_format \<Rightarrow> 'a androidHandler \<Rightarrow> int \<Rightarrow> string \<times> 'v list
    \<Rightarrow> (goerr + android_prio \<times> string) option" where
  "slog_Log format h level r = (if Enabled h level then Some (Handle format h level r) else None)"

definition log_Debug where "log_Debug format h msg args = slog_Log format h LevelDebug (msg, args)"
definition log_Info where "log_Info format h msg args = slog_Log format h LevelInfo (msg, args)"
definition log_Warn where "log_Warn format h msg args = slog_Log format h LevelWarn (msg, args)"
definition log_Error where "log_Error format h msg args = slog_Log format h LevelError (msg, args)"

definition log_Debugf where "log_Debugf sprintf format h fmt args = slog_Log format h LevelDebug (sprintf fmt args, [])"
definition log_Infof where "log_Infof sprintf format h fmt args = slog_Log format h LevelInfo (sprintf fmt args, [])"
definition log_Warnf where "log_Warnf sprintf format h fmt args = slog_Log format h LevelWarn (sprintf fmt args, [])"
definition log_Errorf where "log_Errorf sprintf format h fmt args = slog_Log format h LevelError (sprintf fmt args, [])"

text \<open>The priorities of logcat in their order.\<close>

fun prio_rank :: "android_prio \<Rightarrow> nat" where
  "prio_rank ANDROID_LOG_DEBUG = 3" | "prio_rank ANDROID_LOG_INFO = 4" | "prio_rank ANDROID_LOG_WARN = 5"
| "prio_rank ANDROID_LOG_ERROR = 6"

lemma prio_rank_inj [simp]: "prio_rank x = prio_rank y \<longleftrightarrow> x = y"
  by (cases x; cases y) simp_all

instantiation android_prio :: linorder
begin

definition less_eq_android_prio :: "android_prio \<Rightarrow> android_prio \<Rightarrow> bool" where
  "x \<le> y \<longleftrightarrow> prio_rank x \<le> prio_rank y"
definition less_android_prio :: "android_prio \<Rightarrow> android_prio \<Rightarrow> bool" where
  "x < y \<longleftrightarrow> prio_rank x < prio_rank y"

instance
  by standard (auto simp: less_eq_android_prio_def less_android_prio_def dest: antisym)

end

text \<open>A more severe record never gets a lower priority, and on Android no record is filtered out.\<close>

lemma androidPrio_mono: "mono androidPrio"
  by (rule monoI) (auto simp: androidPrio_def less_eq_android_prio_def LevelDebug_def LevelInfo_def LevelWarn_def LevelError_def)

theorem android_logs_all:
  assumes "LevelDebug \<le> level" and "format [] [] r = Inr text"
  shows "\<exists>line. slog_Log format android_init level r = Some (Inr (androidPrio level, line))
    \<and> androidPrio LevelDebug \<le> androidPrio level"
  using assms monoD [OF androidPrio_mono assms(1)]
  by (simp add: slog_Log_def Enabled_def android_init_def Handle_def Let_def)

theorem android_logs_all_witness:
  "\<exists>line. log_Debug (\<lambda>a g m. Inr (fst m)) (android_init :: unit androidHandler) ''hello'' [0 :: nat]
      = Some (Inr (ANDROID_LOG_DEBUG, line))"
  using android_logs_all [of LevelDebug "\<lambda>a g m. Inr (fst m)" "(''hello'', [0 :: nat])" "''hello''"]
  by (auto simp: log_Debug_def androidPrio_mono_cases)

text \<open>
  The handler keeps attributes and groups apart and hands all attributes over first, so it cannot tell an attribute
  added after a group from one added before: \<open>slog\<close> has the later ones qualified by the group.
\<close>

theorem groups_lost: "WithAttrs (WithGroup h name) attrs = WithGroup (WithAttrs h attrs) name"
  by (simp add: WithAttrs_def WithGroup_def)

end
