(* ===== verification/CStrings.thy ===== *)
theory CStrings
  imports Tunnel Listener Logging "HOL-Library.Monad_Syntax"
begin

section \<open>The boundary to C (main/main.go, infra/android/bridge.go)\<close>

text \<open>
  The exported functions and the callbacks as the C code meets them: with pointers, and with the strings that \<open>C.CString\<close>
  allocates and \<open>C.free\<close> releases. \<open>App\<close>, \<open>Probes\<close> and \<open>Listener\<close> have the same functions on strings; here they are
  put on the C heap, and shown to keep it: nothing leaked, nothing freed twice or read after it was freed.
\<close>

subsection \<open>The C heap\<close>

text \<open>
  Strings on the heap, up to the terminating NUL that \<open>C.CString\<close> appends; a string may hold NUL bytes of its own, and
  then C reads it up to the first. \<open>None\<close> as a result is undefined behaviour: a pointer that is not allocated is read
  or freed. Besides the heap there are the ints that C passes by reference, the log and the calls into Java.
\<close>

record c_state =
  cs_strs :: "nat \<rightharpoonup> string"
  cs_next :: nat
  cs_ints :: "nat \<rightharpoonup> i32"
  cs_log :: "(android_prio \<times> string \<times> string) list"
  cs_java :: "(string \<times> i64 \<times> int) list"

definition c_empty :: c_state where
  "c_empty = \<lparr>cs_strs = Map.empty, cs_next = 0, cs_ints = Map.empty, cs_log = [], cs_java = []\<rparr>"

definition c_string :: "string \<Rightarrow> string" where
  "c_string s = takeWhile (\<lambda>ch. ch \<noteq> CHR 0x00) s"

definition C_CString :: "string \<Rightarrow> c_state \<Rightarrow> c_state \<times> nat" where
  "C_CString s c = (c\<lparr>cs_strs := (cs_strs c)(cs_next c \<mapsto> s), cs_next := Suc (cs_next c)\<rparr>, cs_next c)"

definition C_free :: "nat \<Rightarrow> c_state \<Rightarrow> c_state option" where
  "C_free p c = (if cs_strs c p = None then None else Some (c\<lparr>cs_strs := (cs_strs c)(p := None)\<rparr>))"

definition C_GoString :: "nat \<Rightarrow> c_state \<Rightarrow> string option" where
  "C_GoString p c = map_option c_string (cs_strs c p)"

subsection \<open>Strings, the log and the version\<close>

definition cstring :: "string \<Rightarrow> c_state \<Rightarrow> c_state \<times> nat" where
  "cstring s c = C_CString s c"

text \<open>\<open>goString(str)\<close>, a null pointer being the empty string.\<close>

definition goString_at :: "nat option \<Rightarrow> c_state \<Rightarrow> string option" where
  "goString_at str c = (case str of None \<Rightarrow> Some [] | Some p \<Rightarrow> C_GoString p c)"

text \<open>\<open>logError\<close>, with the formatted message.\<close>

definition android_log_write :: "android_prio \<Rightarrow> nat \<Rightarrow> nat \<Rightarrow> c_state \<Rightarrow> c_state option" where
  "android_log_write prio tag msg c = do {
     t \<leftarrow> C_GoString tag c;
     m \<leftarrow> C_GoString msg c;
     Some (c\<lparr>cs_log := cs_log c @ [(prio, t, m)]\<rparr>)
   }"

definition logError :: "string \<Rightarrow> c_state \<Rightarrow> c_state option" where
  "logError msg c =
     (let (c1, tag) = cstring ''LocalDNS'' c;
          (c2, cmsg) = cstring msg c1
      in do {
        c3 \<leftarrow> android_log_write ANDROID_LOG_ERROR tag cmsg c2;
        c4 \<leftarrow> C_free cmsg c3;
        C_free tag c4
      })"

definition localdnsVersion :: "c_state \<Rightarrow> c_state \<times> nat" where
  "localdnsVersion c = cstring ''LocalDNS 1.0.0'' c"

subsection \<open>Callbacks\<close>

text \<open>
  \<open>GetResolvers\<close> takes over the string that C returns; \<open>OnResponse\<close> lends one to C for the call into Java.
\<close>

definition jni_GetResolvers :: "nat option \<Rightarrow> c_state \<Rightarrow> (c_state \<times> string) option" where
  "jni_GetResolvers cstr c = (case cstr of
     None \<Rightarrow> Some (c, [])
   | Some p \<Rightarrow> do { s \<leftarrow> C_GoString p c; c' \<leftarrow> C_free p c; Some (c', s) })"

definition jni_on_dns_query :: "nat \<Rightarrow> i64 \<Rightarrow> int \<Rightarrow> c_state \<Rightarrow> c_state option" where
  "jni_on_dns_query hostname latency status c = do {
     s \<leftarrow> C_GoString hostname c;
     Some (c\<lparr>cs_java := cs_java c @ [(s, latency, status)]\<rparr>)
   }"

definition jni_OnResponse_c :: "(duration \<Rightarrow> i64) \<Rightarrow> Summary option \<Rightarrow> c_state \<Rightarrow> c_state option" where
  "jni_OnResponse_c millis summary c = (case jni_OnResponse millis summary of
     None \<Rightarrow> Some c
   | Some (hostname, latency, status) \<Rightarrow>
       (let (c1, cHostname) = C_CString hostname c in do {
          c2 \<leftarrow> jni_on_dns_query cHostname latency status c1;
          C_free cHostname c2
        }))"

subsection \<open>Exported functions\<close>

text \<open>
  The status of a function that can fail, and its line in the log; \<open>err_text\<close> is \<open>Error()\<close> of an error.
\<close>

definition c_status :: "(goerr \<Rightarrow> string) \<Rightarrow> string \<Rightarrow> bridge \<times> goerr option \<Rightarrow> c_state \<Rightarrow> (bridge \<times> c_state \<times> int) option" where
  "c_status err_text name res c = (case res of
     (b, Some err) \<Rightarrow> map_option (\<lambda>c'. (b, c', - 1)) (logError (name @ '': '' @ err_text err) c)
   | (b, None) \<Rightarrow> Some (b, c, 0))"

definition c_connected :: "(goerr \<Rightarrow> string) \<Rightarrow> string \<Rightarrow> bridge \<times> i32 \<times> goerr option \<Rightarrow> nat \<Rightarrow> c_state
    \<Rightarrow> (bridge \<times> c_state \<times> int) option" where
  "c_connected err_text name res handleOut c = (case res of
     (b, handle, Some err) \<Rightarrow> c_status err_text name (b, Some err) c
   | (b, handle, None) \<Rightarrow> c_status err_text name (b, None) (c\<lparr>cs_ints := (cs_ints c)(handleOut \<mapsto> handle)\<rparr>))"

definition localdnsConnectDoH_c :: "(goerr \<Rightarrow> string) \<Rightarrow> conn_env \<Rightarrow> Protector \<Rightarrow> int \<Rightarrow> nat option \<Rightarrow> nat option \<Rightarrow> nat option
    \<Rightarrow> nat \<Rightarrow> bridge \<Rightarrow> c_state \<Rightarrow> (bridge \<times> c_state \<times> int) option" where
  "localdnsConnectDoH_c err_text ce pr tunFd fakeDns url bootstrapIPs handleOut b c = do {
     f \<leftarrow> goString_at fakeDns c;
     u \<leftarrow> goString_at url c;
     i \<leftarrow> goString_at bootstrapIPs c;
     c_connected err_text ''localdnsConnectDoH'' (ConnectDoH ce pr tunFd f u i b) handleOut c
   }"

definition localdnsConnectDoT_c :: "(goerr \<Rightarrow> string) \<Rightarrow> conn_env \<Rightarrow> Protector \<Rightarrow> int \<Rightarrow> nat option \<Rightarrow> nat option \<Rightarrow> nat option
    \<Rightarrow> nat \<Rightarrow> bridge \<Rightarrow> c_state \<Rightarrow> (bridge \<times> c_state \<times> int) option" where
  "localdnsConnectDoT_c err_text ce pr tunFd fakeDns hostname bootstrapIPs handleOut b c = do {
     f \<leftarrow> goString_at fakeDns c;
     n \<leftarrow> goString_at hostname c;
     i \<leftarrow> goString_at bootstrapIPs c;
     c_connected err_text ''localdnsConnectDoT'' (ConnectDoT ce pr tunFd f n i b) handleOut c
   }"

definition localdnsSetDoHServer_c :: "(goerr \<Rightarrow> string) \<Rightarrow> conn_env \<Rightarrow> i32 \<Rightarrow> nat option \<Rightarrow> nat option
    \<Rightarrow> bridge \<Rightarrow> c_state \<Rightarrow> (bridge \<times> c_state \<times> int) option" where
  "localdnsSetDoHServer_c err_text ce handle url bootstrapIPs b c = do {
     u \<leftarrow> goString_at url c;
     i \<leftarrow> goString_at bootstrapIPs c;
     c_status err_text ''localdnsSetDoHServer'' (br_SetDoHServer ce handle u i b) c
   }"

definition localdnsSetDoTServer_c :: "(goerr \<Rightarrow> string) \<Rightarrow> conn_env \<Rightarrow> i32 \<Rightarrow> nat option \<Rightarrow> nat option
    \<Rightarrow> bridge \<Rightarrow> c_state \<Rightarrow> (bridge \<times> c_state \<times> int) option" where
  "localdnsSetDoTServer_c err_text ce handle hostname bootstrapIPs b c = do {
     n \<leftarrow> goString_at hostname c;
     i \<leftarrow> goString_at bootstrapIPs c;
     c_status err_text ''localdnsSetDoTServer'' (br_SetDoTServer ce handle n i b) c
   }"

text \<open>The probes write no line.\<close>

definition localdnsProbeDoH_c :: "conn_env \<Rightarrow> 'x query_env \<Rightarrow> nat option \<Rightarrow> nat option \<Rightarrow> c_state \<Rightarrow> int option" where
  "localdnsProbeDoH_c ce qe url bootstrapIPs c = do {
     u \<leftarrow> goString_at url c;
     i \<leftarrow> goString_at bootstrapIPs c;
     localdnsProbeDoH ce qe u i
   }"

definition localdnsProbeDoT_c :: "conn_env \<Rightarrow> 'x query_env \<Rightarrow> nat option \<Rightarrow> nat option \<Rightarrow> c_state \<Rightarrow> int option" where
  "localdnsProbeDoT_c ce qe hostname bootstrapIPs c = do {
     n \<leftarrow> goString_at hostname c;
     i \<leftarrow> goString_at bootstrapIPs c;
     localdnsProbeDoT ce qe n i
   }"

subsection \<open>What the calls are on strings\<close>

text \<open>
  The string that a pointer stands for, a null pointer for the empty one. \<open>as_on_strings\<close> compares a call with the one of the
  function on strings, which returns the bridge, the status and the handle: the same bridge and status, the handle through
  the pointer when there is one, and the strings on the heap as they were.
\<close>

definition c_text :: "c_state \<Rightarrow> nat option \<Rightarrow> string" where
  "c_text c p = (case p of None \<Rightarrow> [] | Some a \<Rightarrow> (case cs_strs c a of None \<Rightarrow> [] | Some s \<Rightarrow> c_string s))"

definition as_on_strings :: "(bridge \<times> c_state \<times> int) option \<Rightarrow> nat \<Rightarrow> c_state \<Rightarrow> bridge \<times> int \<times> i32 option \<Rightarrow> bool" where
  "as_on_strings res out c call \<longleftrightarrow> (case (res, call) of
     (None, _) \<Rightarrow> False
   | (Some (b1, c', st1), (b2, st2, handle)) \<Rightarrow> b1 = b2 \<and> st1 = st2 \<and> cs_strs c' = cs_strs c
       \<and> cs_ints c' = (case handle of None \<Rightarrow> cs_ints c | Some h \<Rightarrow> (cs_ints c)(out \<mapsto> h)))"

subsection \<open>Histories\<close>

text \<open>
  What C does with the library: \<open>held\<close> are the strings that C has allocated or been given, and it frees none of them
  twice.
\<close>

definition c_arg :: "nat set \<Rightarrow> nat option \<Rightarrow> bool" where
  "c_arg held p \<longleftrightarrow> (\<forall>a. p = Some a \<longrightarrow> a \<in> held)"

inductive c_reach :: "(goerr \<Rightarrow> string) \<Rightarrow> nat set \<Rightarrow> bridge \<Rightarrow> c_state \<Rightarrow> nat set \<Rightarrow> bool"
  for err_text :: "goerr \<Rightarrow> string" and base :: "nat set" where
  cr_start: "c_reach err_text base (br_init base) c_empty {}"
| cr_alloc: "c_reach err_text base b c held \<Longrightarrow> C_CString s c = (c', p) \<Longrightarrow> c_reach err_text base b c' (insert p held)"
| cr_free: "c_reach err_text base b c held \<Longrightarrow> p \<in> held \<Longrightarrow> C_free p c = Some c' \<Longrightarrow> c_reach err_text base b c' (held - {p})"
| cr_connect_doh: "c_reach err_text base b c held \<Longrightarrow> lookup_ok ce \<Longrightarrow>
     localdnsConnectDoH_c err_text ce pr tunFd fakeDns url ips handleOut b c = Some (b', c', st) \<Longrightarrow> c_reach err_text base b' c' held"
| cr_connect_dot: "c_reach err_text base b c held \<Longrightarrow> lookup_ok ce \<Longrightarrow>
     localdnsConnectDoT_c err_text ce pr tunFd fakeDns host ips handleOut b c = Some (b', c', st) \<Longrightarrow> c_reach err_text base b' c' held"
| cr_disconnect: "c_reach err_text base b c held \<Longrightarrow> c_reach err_text base (localdnsDisconnect h b) c held"
| cr_set_doh: "c_reach err_text base b c held \<Longrightarrow> lookup_ok ce \<Longrightarrow>
     localdnsSetDoHServer_c err_text ce h url ips b c = Some (b', c', st) \<Longrightarrow> c_reach err_text base b' c' held"
| cr_set_dot: "c_reach err_text base b c held \<Longrightarrow> lookup_ok ce \<Longrightarrow>
     localdnsSetDoTServer_c err_text ce h host ips b c = Some (b', c', st) \<Longrightarrow> c_reach err_text base b' c' held"
| cr_version: "c_reach err_text base b c held \<Longrightarrow> localdnsVersion c = (c', p) \<Longrightarrow> c_reach err_text base b c' (insert p held)"
| cr_resolvers: "c_reach err_text base b c held \<Longrightarrow> c_arg held p \<Longrightarrow> jni_GetResolvers p c = Some (c', s) \<Longrightarrow>
     c_reach err_text base b c' (held - set_option p)"
| cr_response: "c_reach err_text base b c held \<Longrightarrow> jni_OnResponse_c millis summary c = Some c' \<Longrightarrow> c_reach err_text base b c' held"

subsection \<open>The heap is kept\<close>

definition heap_ok :: "nat set \<Rightarrow> c_state \<Rightarrow> bool" where
  "heap_ok held c \<longleftrightarrow> dom (cs_strs c) = held \<and> (\<forall>p. cs_next c \<le> p \<longrightarrow> cs_strs c p = None)"

lemma heap_ok_fresh: "heap_ok held c \<Longrightarrow> cs_next c \<le> p \<Longrightarrow> cs_strs c p = None"
  by (simp add: heap_ok_def)

lemma heap_ok_CString: "heap_ok held c \<Longrightarrow> C_CString s c = (c', p) \<Longrightarrow> heap_ok (insert p held) c' \<and> p \<notin> held"
  by (auto simp: heap_ok_def C_CString_def)

lemma heap_ok_free: "heap_ok held c \<Longrightarrow> C_free p c = Some c' \<Longrightarrow> heap_ok (held - {p}) c'"
  by (auto simp: heap_ok_def C_free_def split: if_splits)

text \<open>Both strings of \<open>logError\<close> are freed again, and the line is the message up to a NUL.\<close>

lemma logError_eq:
  assumes "heap_ok held c"
  shows "logError msg c = Some (c\<lparr>cs_next := cs_next c + 2, cs_log := cs_log c @ [(ANDROID_LOG_ERROR, ''LocalDNS'', c_string msg)]\<rparr>)"
proof -
  have n: "cs_strs c (cs_next c) = None" "cs_strs c (Suc (cs_next c)) = None" using heap_ok_fresh [OF assms] by simp_all
  have "(((cs_strs c)(cs_next c \<mapsto> x))(Suc (cs_next c) \<mapsto> y))(Suc (cs_next c) := None, cs_next c := None) = cs_strs c" for x y
    using n by (auto simp: fun_eq_iff)
  then show ?thesis
    by (simp add: logError_def cstring_def C_CString_def android_log_write_def C_GoString_def C_free_def Let_def c_string_def
        eval_nat_numeral)
qed

lemma heap_ok_logged: "heap_ok held c \<Longrightarrow> logError msg c = Some c' \<Longrightarrow> heap_ok held c'"
  using logError_eq [of held c msg] by (auto simp: heap_ok_def)

lemma goString_at_ok: "heap_ok held c \<Longrightarrow> c_arg held p \<Longrightarrow> goString_at p c = Some (c_text c p)"
  by (auto simp: goString_at_def C_GoString_def heap_ok_def c_arg_def c_text_def split: option.splits)

lemma goString_at_text: "goString_at p c = Some s \<Longrightarrow> s = c_text c p"
  by (auto simp: goString_at_def C_GoString_def c_text_def split: option.splits)

lemma c_status_ok:
  assumes "heap_ok held c"
  shows "\<exists>c' st. c_status err_text name res c = Some (fst res, c', st) \<and> heap_ok held c'"
  using assms logError_eq [OF assms] by (cases res) (auto simp: c_status_def heap_ok_def split: option.split)

lemma c_connected_ok:
  assumes "heap_ok held c"
  shows "\<exists>c' st. c_connected err_text name res out c = Some (fst res, c', st) \<and> heap_ok held c'"
proof -
  obtain b h e where res: "res = (b, h, e)" by (cases res)
  have "heap_ok held (c\<lparr>cs_ints := (cs_ints c)(out \<mapsto> h)\<rparr>)" using assms by (simp add: heap_ok_def)
  then show ?thesis
    using c_status_ok [OF assms, of err_text name "(b, e)"] c_status_ok [of held "c\<lparr>cs_ints := (cs_ints c)(out \<mapsto> h)\<rparr>"]
    by (cases e) (auto simp: res c_connected_def)
qed

lemma c_OnResponse_eq:
  assumes "heap_ok held c"
  shows "jni_OnResponse_c millis summary c = Some (case jni_OnResponse millis summary of None \<Rightarrow> c
    | Some (hostname, latency, status) \<Rightarrow>
        c\<lparr>cs_next := Suc (cs_next c), cs_java := cs_java c @ [(c_string hostname, latency, status)]\<rparr>)"
proof -
  have "cs_strs c (cs_next c) = None" using heap_ok_fresh [OF assms] by simp
  then have "((cs_strs c)(cs_next c \<mapsto> x))(cs_next c := None) = cs_strs c" for x by (auto simp: fun_eq_iff)
  then show ?thesis
    by (simp add: jni_OnResponse_c_def C_CString_def jni_on_dns_query_def C_GoString_def C_free_def Let_def split: option.split)
qed

lemma c_GetResolvers_ok:
  assumes "heap_ok held c" and "c_arg held p"
  shows "\<exists>c' s. jni_GetResolvers p c = Some (c', s) \<and> heap_ok (held - set_option p) c'"
proof (cases p)
  case (Some a)
  then obtain s where "cs_strs c a = Some s" using assms by (auto simp: heap_ok_def c_arg_def)
  then show ?thesis using assms(1) Some by (auto simp: jni_GetResolvers_def C_GoString_def C_free_def heap_ok_def)
qed (use assms in \<open>auto simp: jni_GetResolvers_def\<close>)

text \<open>What a call of an exported function comes to, with its strings read.\<close>

lemma exported_c_run:
  "localdnsConnectDoH_c err_text ce pr tunFd x y z out b c = Some r \<Longrightarrow>
     c_connected err_text ''localdnsConnectDoH'' (ConnectDoH ce pr tunFd (c_text c x) (c_text c y) (c_text c z) b) out c = Some r"
  "localdnsConnectDoT_c err_text ce pr tunFd x y z out b c = Some r \<Longrightarrow>
     c_connected err_text ''localdnsConnectDoT'' (ConnectDoT ce pr tunFd (c_text c x) (c_text c y) (c_text c z) b) out c = Some r"
  "localdnsSetDoHServer_c err_text ce h y z b c = Some r \<Longrightarrow>
     c_status err_text ''localdnsSetDoHServer'' (br_SetDoHServer ce h (c_text c y) (c_text c z) b) c = Some r"
  "localdnsSetDoTServer_c err_text ce h y z b c = Some r \<Longrightarrow>
     c_status err_text ''localdnsSetDoTServer'' (br_SetDoTServer ce h (c_text c y) (c_text c z) b) c = Some r"
  by (auto simp: localdnsConnectDoH_c_def localdnsConnectDoT_c_def localdnsSetDoHServer_c_def localdnsSetDoTServer_c_def
      bind_eq_Some_conv dest!: goString_at_text)

lemma heap_ok_connected: "c_connected err_text name res out c = Some (b', c', st) \<Longrightarrow> heap_ok held c \<Longrightarrow> heap_ok held c'"
  using c_connected_ok [of held c err_text name res out] by auto

lemma heap_ok_status: "c_status err_text name res c = Some (b', c', st) \<Longrightarrow> heap_ok held c \<Longrightarrow> heap_ok held c'"
  using c_status_ok [of held c err_text name res] by auto

lemma c_reach_heap: "c_reach err_text base b c held \<Longrightarrow> heap_ok held c"
proof (induction rule: c_reach.induct)
  case cr_start
  show ?case by (simp add: heap_ok_def c_empty_def)
next
  case (cr_alloc b c held s c' p)
  then show ?case using heap_ok_CString by blast
next
  case (cr_free b c held p c')
  then show ?case using heap_ok_free by blast
next
  case (cr_connect_doh b c held ce pr tunFd fakeDns url ips handleOut b' c' st)
  then show ?case using exported_c_run(1) heap_ok_connected by blast
next
  case (cr_connect_dot b c held ce pr tunFd fakeDns host ips handleOut b' c' st)
  then show ?case using exported_c_run(2) heap_ok_connected by blast
next
  case (cr_set_doh b c held ce h url ips b' c' st)
  then show ?case using exported_c_run(3) heap_ok_status by blast
next
  case (cr_set_dot b c held ce h host ips b' c' st)
  then show ?case using exported_c_run(4) heap_ok_status by blast
next
  case (cr_version b c held c' p)
  then show ?case using heap_ok_CString unfolding localdnsVersion_def cstring_def by blast
next
  case (cr_resolvers b c held p c' s)
  then show ?case using c_GetResolvers_ok [OF cr_resolvers.IH cr_resolvers.hyps(2)] by auto
next
  case (cr_response b c held millis summary c')
  then show ?case
    using c_OnResponse_eq [OF cr_response.IH, of millis summary] by (auto simp: heap_ok_def split: option.splits)
qed

text \<open>A history on the C heap is one of the functions on strings, and what holds of those holds of it.\<close>

lemma c_connected_bridge:
  "c_connected err_text name res out c = Some (b', c', st) \<Longrightarrow> b' = fst res"
  by (cases res) (auto simp: c_connected_def c_status_def split: option.splits)

lemma c_status_bridge: "c_status err_text name res c = Some (b', c', st) \<Longrightarrow> b' = fst res"
  by (cases res) (auto simp: c_status_def split: option.splits)

lemma c_reach_exported: "c_reach err_text base b c held \<Longrightarrow> exported base b"
proof (induction rule: c_reach.induct)
  case cr_start
  show ?case by (rule ex_start)
next
  case (cr_connect_doh b c held ce pr tunFd fakeDns url ips handleOut b' c' st)
  have "b' = fst (ConnectDoH ce pr tunFd (c_text c fakeDns) (c_text c url) (c_text c ips) b)"
    using exported_c_run(1) [OF cr_connect_doh.hyps(3)] c_connected_bridge by blast
  then have "\<exists>st out. localdnsConnectDoH ce pr tunFd (c_text c fakeDns) (c_text c url) (c_text c ips) b = (b', st, out)"
    by (auto simp: localdnsConnectDoH_def split: prod.split option.split)
  then show ?case using ex_connect_doh [OF cr_connect_doh.IH cr_connect_doh.hyps(2)] by blast
next
  case (cr_connect_dot b c held ce pr tunFd fakeDns host ips handleOut b' c' st)
  have "b' = fst (ConnectDoT ce pr tunFd (c_text c fakeDns) (c_text c host) (c_text c ips) b)"
    using exported_c_run(2) [OF cr_connect_dot.hyps(3)] c_connected_bridge by blast
  then have "\<exists>st out. localdnsConnectDoT ce pr tunFd (c_text c fakeDns) (c_text c host) (c_text c ips) b = (b', st, out)"
    by (auto simp: localdnsConnectDoT_def split: prod.split option.split)
  then show ?case using ex_connect_dot [OF cr_connect_dot.IH cr_connect_dot.hyps(2)] by blast
next
  case (cr_disconnect b c held h)
  then show ?case using ex_disconnect by blast
next
  case (cr_set_doh b c held ce h url ips b' c' st)
  have "b' = fst (br_SetDoHServer ce h (c_text c url) (c_text c ips) b)"
    using exported_c_run(3) [OF cr_set_doh.hyps(3)] c_status_bridge by blast
  then have "\<exists>st. localdnsSetDoHServer ce h (c_text c url) (c_text c ips) b = (b', st)"
    by (auto simp: localdnsSetDoHServer_def split: prod.split option.split)
  then show ?case using ex_set_doh [OF cr_set_doh.IH cr_set_doh.hyps(2)] by blast
next
  case (cr_set_dot b c held ce h host ips b' c' st)
  have "b' = fst (br_SetDoTServer ce h (c_text c host) (c_text c ips) b)"
    using exported_c_run(4) [OF cr_set_dot.hyps(3)] c_status_bridge by blast
  then have "\<exists>st. localdnsSetDoTServer ce h (c_text c host) (c_text c ips) b = (b', st)"
    by (auto simp: localdnsSetDoTServer_def split: prod.split option.split)
  then show ?case using ex_set_dot [OF cr_set_dot.IH cr_set_dot.hyps(2)] by blast
qed

subsection \<open>Properties\<close>

lemma as_on_strings_connected:
  assumes "heap_ok held c"
  shows "as_on_strings (c_connected err_text name res out c) out c
    (case res of (b, h, Some e) \<Rightarrow> (b, - 1, None) | (b, h, None) \<Rightarrow> (b, 0, Some h))"
  using logError_eq [OF assms]
  by (auto simp: as_on_strings_def c_connected_def c_status_def split: prod.split option.split)

lemma as_on_strings_status:
  assumes "heap_ok held c"
  shows "as_on_strings (c_status err_text name res c) out c (case res of (b, Some e) \<Rightarrow> (b, - 1, None) | (b, None) \<Rightarrow> (b, 0, None))"
  using logError_eq [OF assms] by (auto simp: as_on_strings_def c_status_def split: prod.split option.split)

lemma c_GetResolvers_text:
  "heap_ok held c \<Longrightarrow> c_arg held p \<Longrightarrow> map_option snd (jni_GetResolvers p c) = Some (c_text c p)"
  by (auto simp: jni_GetResolvers_def C_GoString_def C_free_def heap_ok_def c_arg_def c_text_def split: option.splits)

text \<open>
  C29. The strings at the boundary are kept: in every history of calls and callbacks exactly the strings that C holds are
  allocated, those that Go made for the log and for Java being freed again and the resolver list that C handed
  over too. And with null or held strings as arguments each of the six exported functions that takes strings reads them
  whole, up to a NUL, and does what the same function on those strings does: the same sessions, the same status, the same
  handle; so does \<open>GetResolvers\<close> with the list that C returns, and \<open>OnResponse\<close> always returns. None reads
  or frees memory that is not allocated.
\<close>

theorem c_strings_safe:
  assumes "c_reach err_text base b c held" and "c_arg held x" and "c_arg held y" and "c_arg held z"
  shows "dom (cs_strs c) = held \<and> exported base b
    \<and> as_on_strings (localdnsConnectDoH_c err_text ce pr tunFd x y z out b c) out c
        (localdnsConnectDoH ce pr tunFd (c_text c x) (c_text c y) (c_text c z) b)
    \<and> as_on_strings (localdnsConnectDoT_c err_text ce pr tunFd x y z out b c) out c
        (localdnsConnectDoT ce pr tunFd (c_text c x) (c_text c y) (c_text c z) b)
    \<and> as_on_strings (localdnsSetDoHServer_c err_text ce h y z b c) out c
        (case localdnsSetDoHServer ce h (c_text c y) (c_text c z) b of (b', st) \<Rightarrow> (b', st, None))
    \<and> as_on_strings (localdnsSetDoTServer_c err_text ce h y z b c) out c
        (case localdnsSetDoTServer ce h (c_text c y) (c_text c z) b of (b', st) \<Rightarrow> (b', st, None))
    \<and> localdnsProbeDoH_c ce qe y z c = localdnsProbeDoH ce qe (c_text c y) (c_text c z)
    \<and> localdnsProbeDoT_c ce qe y z c = localdnsProbeDoT ce qe (c_text c y) (c_text c z)
    \<and> map_option snd (jni_GetResolvers x c) = Some (c_text c x)
    \<and> map_option cs_strs (jni_OnResponse_c millis summary c) = Some (cs_strs c)"
proof -
  have ok: "heap_ok held c" by (rule c_reach_heap [OF assms(1)])
  note s = goString_at_ok [OF ok assms(2)] goString_at_ok [OF ok assms(3)] goString_at_ok [OF ok assms(4)]
  note con = as_on_strings_connected [OF ok] and set = as_on_strings_status [OF ok]
  have "as_on_strings (localdnsConnectDoH_c err_text ce pr tunFd x y z out b c) out c
      (localdnsConnectDoH ce pr tunFd (c_text c x) (c_text c y) (c_text c z) b)"
    using con by (simp add: localdnsConnectDoH_c_def localdnsConnectDoH_def s)
  moreover have "as_on_strings (localdnsConnectDoT_c err_text ce pr tunFd x y z out b c) out c
      (localdnsConnectDoT ce pr tunFd (c_text c x) (c_text c y) (c_text c z) b)"
    using con by (simp add: localdnsConnectDoT_c_def localdnsConnectDoT_def s)
  moreover have "as_on_strings (localdnsSetDoHServer_c err_text ce h y z b c) out c
      (case localdnsSetDoHServer ce h (c_text c y) (c_text c z) b of (b', st) \<Rightarrow> (b', st, None))"
    using set [of err_text _ "br_SetDoHServer ce h (c_text c y) (c_text c z) b" out]
    by (auto simp: localdnsSetDoHServer_c_def localdnsSetDoHServer_def s split: prod.splits option.splits)
  moreover have "as_on_strings (localdnsSetDoTServer_c err_text ce h y z b c) out c
      (case localdnsSetDoTServer ce h (c_text c y) (c_text c z) b of (b', st) \<Rightarrow> (b', st, None))"
    using set [of err_text _ "br_SetDoTServer ce h (c_text c y) (c_text c z) b" out]
    by (auto simp: localdnsSetDoTServer_c_def localdnsSetDoTServer_def s split: prod.splits option.splits)
  moreover have "localdnsProbeDoH_c ce qe y z c = localdnsProbeDoH ce qe (c_text c y) (c_text c z)"
    "localdnsProbeDoT_c ce qe y z c = localdnsProbeDoT ce qe (c_text c y) (c_text c z)"
    by (simp_all add: localdnsProbeDoH_c_def localdnsProbeDoT_c_def s)
  moreover have "map_option cs_strs (jni_OnResponse_c millis summary c) = Some (cs_strs c)"
    unfolding c_OnResponse_eq [OF ok] by (simp split: option.split)
  ultimately show ?thesis
    using ok c_reach_exported [OF assms(1)] c_GetResolvers_text [OF ok assms(2)] by (simp add: heap_ok_def)
qed

lemma c_probes_return:
  assumes "c_reach err_text base b c held" and "c_arg held x" and "c_arg held y" and "lookup_ok ce" and "query_env_ok qe"
  shows "localdnsProbeDoH_c ce qe x y c \<in> {Some 0, Some (- 1)}" "localdnsProbeDoT_c ce qe x y c \<in> {Some 0, Some (- 1)}"
proof -
  have ok: "heap_ok held c" by (rule c_reach_heap [OF assms(1)])
  note goString_at_ok [OF ok assms(2)] goString_at_ok [OF ok assms(3)]
  moreover note br_Probe_status [OF assms(4,5), of "c_text c x" "c_text c y"]
  ultimately show "localdnsProbeDoH_c ce qe x y c \<in> {Some 0, Some (- 1)}" "localdnsProbeDoT_c ce qe x y c \<in> {Some 0, Some (- 1)}"
    by (auto simp: localdnsProbeDoH_c_def localdnsProbeDoT_c_def localdnsProbeDoH_def localdnsProbeDoT_def probe_status_def)
qed

text \<open>
  C32. A connect through the boundary, of either kind, says how it went in three places that agree: when
  \<open>ConnectDoH\<close> (\<open>ConnectDoT\<close>) on the strings that it was given succeeds, status 0, the handle of the new session
  through the pointer and no line in the log; when it fails, status -1, the pointer's target and the sessions as they were, and
  one line of priority ERROR with the name of the function that was called and the error. The strings are as before.
\<close>

theorem localdnsConnect_c_reports:
  assumes "c_reach err_text base b c held" and "\<forall>fd. ce_dup ce = Inr fd \<longrightarrow> fd \<notin> fd_open (br_fds b)"
    and "(name, run, res) \<in>
      {(''localdnsConnectDoH'', localdnsConnectDoH_c err_text ce pr tunFd x y z out b c,
          ConnectDoH ce pr tunFd (c_text c x) (c_text c y) (c_text c z) b),
       (''localdnsConnectDoT'', localdnsConnectDoT_c err_text ce pr tunFd x y z out b c,
          ConnectDoT ce pr tunFd (c_text c x) (c_text c y) (c_text c z) b)}"
    and "run = Some (b', c', st)"
  shows "cs_strs c' = cs_strs c \<and> b' = fst res \<and> (case snd res of
      (h, None) \<Rightarrow> st = 0 \<and> cs_ints c' = (cs_ints c)(out \<mapsto> h) \<and> br_sessions b' h \<noteq> None \<and> cs_log c' = cs_log c
    | (h, Some e) \<Rightarrow> st = - 1 \<and> cs_ints c' = cs_ints c \<and> b' = b
        \<and> cs_log c' = cs_log c @ [(ANDROID_LOG_ERROR, ''LocalDNS'', c_string (name @ '': '' @ err_text e))])"
proof -
  have ok: "heap_ok held c" by (rule c_reach_heap [OF assms(1)])
  obtain b1 h e where res: "res = (b1, h, e)" by (cases res)
  have run: "c_connected err_text name (b1, h, e) out c = Some (b', c', st)"
    using assms(3,4) res exported_c_run(1,2) [of err_text ce pr tunFd x y z out b c "(b', c', st)"] by auto
  have "\<exists>server. connect_with ce tunFd (c_text c x) server pr b = (b1, h, e)"
    using assms(3) res by (auto simp: ConnectDoH_def ConnectDoT_def)
  then obtain server where "connect_with ce tunFd (c_text c x) server pr b = (b1, h, e)" ..
  from connect_with_cases [OF this assms(2)] show ?thesis
    using run logError_eq [OF ok, of "name @ '': '' @ err_text _"]
    by (cases e) (auto simp: res c_connected_def c_status_def)
qed

text \<open>
  The name that Java hears goes over as a C string: it is the name of the query up to a NUL byte in one of its labels,
  and the whole name when there is none.
\<close>

theorem java_name_whole:
  assumes "c_reach err_text base b c held" and "query_for ls (sm_Query s)"
    and "jni_OnResponse_c millis (Some s) c = Some c'"
  shows "cs_java c' = cs_java c @ [(c_string (join_with CHR ''.'' ls), millis (sm_Latency s), DoHStatus (sm_Status s))]
    \<and> (CHR 0x00 \<notin> set (join_with CHR ''.'' ls) \<longrightarrow> c_string (join_with CHR ''.'' ls) = join_with CHR ''.'' ls)"
proof -
  have "c_string n = n" if "CHR 0x00 \<notin> set n" for n
    using that by (auto simp: c_string_def takeWhile_eq_all_conv)
  then show ?thesis
    using assms(3) c_OnResponse_eq [OF c_reach_heap [OF assms(1)], of millis "Some s"] query_for_name [OF assms(2)]
    by (auto simp: jni_OnResponse_def GetQuery_def GetLatency_def GetStatus_def)
qed

subsection \<open>Witnesses\<close>

text \<open>C makes the three strings of a connect.\<close>

definition sample_c :: c_state where
  "sample_c = c_empty\<lparr>cs_strs := [0 \<mapsto> ''10.111.222.3:53'', 1 \<mapsto> ''tls://dns.google'', 2 \<mapsto> ''8.8.8.8''], cs_next := 3\<rparr>"

lemma sample_c_reach: "c_reach err_text {3} (br_init {3}) sample_c {2, 1, 0}"
proof -
  let ?c1 = "c_empty\<lparr>cs_strs := [0 \<mapsto> ''10.111.222.3:53''], cs_next := 1\<rparr>"
  let ?c2 = "?c1\<lparr>cs_strs := [0 \<mapsto> ''10.111.222.3:53'', 1 \<mapsto> ''tls://dns.google''], cs_next := 2\<rparr>"
  have 1: "C_CString ''10.111.222.3:53'' c_empty = (?c1, 0)" by (simp add: C_CString_def c_empty_def)
  have 2: "C_CString ''tls://dns.google'' ?c1 = (?c2, 1)" by (simp add: C_CString_def)
  have 3: "C_CString ''8.8.8.8'' ?c2 = (sample_c, 2)" by (simp add: C_CString_def sample_c_def)
  show ?thesis by (rule cr_alloc [OF cr_alloc [OF cr_alloc [OF cr_start 1] 2] 3])
qed

lemma sample_c_text:
  "c_text sample_c (Some 0) = ''10.111.222.3:53''" "c_text sample_c (Some 1) = ''tls://dns.google''"
  "c_text sample_c (Some 2) = ''8.8.8.8''"
  by (simp_all add: c_text_def sample_c_def c_string_def)

theorem c_strings_safe_witness:
  "dom (cs_strs sample_c) = {2, 1, 0}
    \<and> as_on_strings (localdnsConnectDoT_c (\<lambda>e. ''failed'') sample_ce no_resolvers 3 (Some 0) (Some 1) (Some 2) 7 (br_init {3}) sample_c)
        7 sample_c (localdnsConnectDoT sample_ce no_resolvers 3 ''10.111.222.3:53'' ''tls://dns.google'' ''8.8.8.8'' (br_init {3}))
    \<and> map_option snd (jni_GetResolvers (Some 2) sample_c) = Some ''8.8.8.8''"
proof -
  have args: "c_arg {2, 1, 0} (Some 0)" "c_arg {2, 1, 0} (Some 1)" "c_arg {2, 1, 0} (Some 2)" by (simp_all add: c_arg_def)
  note safe = c_strings_safe [OF sample_c_reach]
  have "dom (cs_strs sample_c) = {2, 1, 0} \<and> as_on_strings
      (localdnsConnectDoT_c (\<lambda>e. ''failed'') sample_ce no_resolvers 3 (Some 0) (Some 1) (Some 2) 7 (br_init {3}) sample_c) 7 sample_c
      (localdnsConnectDoT sample_ce no_resolvers 3 (c_text sample_c (Some 0)) (c_text sample_c (Some 1)) (c_text sample_c (Some 2)) (br_init {3}))"
    by (intro conjI safe [OF args, THEN conjunct1] safe [OF args, THEN conjunct2, THEN conjunct2, THEN conjunct2, THEN conjunct1])
  moreover have "map_option snd (jni_GetResolvers (Some 2) sample_c) = Some (c_text sample_c (Some 2))"
    by (rule safe [OF args(3,3,3), THEN conjunct2, THEN conjunct2, THEN conjunct2, THEN conjunct2, THEN conjunct2, THEN conjunct2,
          THEN conjunct2, THEN conjunct2, THEN conjunct1])
  ultimately show ?thesis by (simp only: sample_c_text)
qed

text \<open>The connect succeeds, with handle 2.\<close>

theorem localdnsConnect_c_reports_witness:
  "\<exists>c'. localdnsConnectDoT_c (\<lambda>e. ''failed'') sample_ce no_resolvers 3 (Some 0) (Some 1) (Some 2) 7 (br_init {3}) sample_c
      = Some (sample_bridge, c', 0) \<and> cs_strs c' = cs_strs sample_c \<and> cs_ints c' = [7 \<mapsto> 2] \<and> cs_log c' = []"
proof -
  have str: "goString_at (Some 0) sample_c = Some (c_text sample_c (Some 0))" "goString_at (Some 1) sample_c = Some (c_text sample_c (Some 1))"
    "goString_at (Some 2) sample_c = Some (c_text sample_c (Some 2))"
    by (rule goString_at_ok [OF c_reach_heap [OF sample_c_reach]]; simp add: c_arg_def)+
  have con: "ConnectDoT sample_ce no_resolvers 3 (c_text sample_c (Some 0)) (c_text sample_c (Some 1)) (c_text sample_c (Some 2)) (br_init {3})
      = (sample_bridge, 2, None)"
    by (simp only: sample_c_text ConnectDoT_def sample_DoT_server sample_connect)
  obtain b' c' st where run: "localdnsConnectDoT_c (\<lambda>e. ''failed'') sample_ce no_resolvers 3 (Some 0) (Some 1) (Some 2) 7 (br_init {3}) sample_c
      = Some (b', c', st)"
    unfolding localdnsConnectDoT_c_def str Option.bind.simps
    using c_connected_ok [OF c_reach_heap [OF sample_c_reach]] by blast
  have "\<forall>fd. ce_dup sample_ce = Inr fd \<longrightarrow> fd \<notin> fd_open (br_fds (br_init {3}))" by (simp add: sample_ce_def br_init_def open_fds_def)
  from localdnsConnect_c_reports [OF sample_c_reach this insertI2 [OF insertI1] run, unfolded con] run show ?thesis
    by (simp add: sample_c_def c_empty_def)
qed

definition sample_summary :: Summary where
  "sample_summary = \<lparr>sm_Latency = 3000000, sm_Query = named_query, sm_Response = None, sm_Server = [], sm_Status = Complete,
     sm_HTTPStatus = 200\<rparr>"

theorem java_name_whole_witness:
  "\<exists>c'. jni_OnResponse_c (\<lambda>d. of_int (d div 1000000)) (Some sample_summary) sample_c = Some c' \<and> cs_java c' = [(''youtube.com'', 3, 0)]"
proof -
  obtain c' where run: "jni_OnResponse_c (\<lambda>d. of_int (d div 1000000)) (Some sample_summary) sample_c = Some c'"
    using c_OnResponse_eq [OF c_reach_heap [OF sample_c_reach]] by blast
  have "query_for [''youtube'', ''com''] (sm_Query sample_summary)" using named_query_for by (simp add: sample_summary_def)
  from java_name_whole [OF sample_c_reach this run] run show ?thesis by (simp add: sample_summary_def sample_c_def c_empty_def)
qed

end
