(* ===== verification/QueryRuns.thy ===== *)
theory QueryRuns
  imports TunnelFlow Listener
begin

section \<open>The life of a resolver, with what it reports (proxy/doh/doh.go, proxy/dot/dot.go)\<close>

text \<open>
  \<open>Query\<close> of either resolver, in any number of goroutines: around the overlapping \<open>doQuery\<close> calls of \<open>DohOverlap\<close> and
  \<open>DotOverlap\<close> it calls the listener, reads the clock and writes the log. The calls of different queries mix in any
  order; what a listener and the log hear of each is that of one query alone.
\<close>

subsection \<open>Either resolver\<close>

datatype any_run = DohRun overlap | DotRun dot_overlap

fun start_run :: "any_resolver \<Rightarrow> gotime \<Rightarrow> any_run" where
  "start_run (DoH r) now = DohRun (ov_start r now)"
| "start_run (DoT r) now = DotRun (dv_start r now)"

fun run_name :: "any_run \<Rightarrow> string" where
  "run_name (DohRun s) = ''DoH''"
| "run_name (DotRun s) = ''DoT''"

fun run_url :: "any_run \<Rightarrow> string" where
  "run_url (DohRun s) = rv_url (ov_res s)"
| "run_url (DotRun s) = dr_url (dv_res s)"

fun run_listener :: "any_run \<Rightarrow> bool" where
  "run_listener (DohRun s) = rv_listener (ov_res s)"
| "run_listener (DotRun s) = dr_listener (dv_res s)"

fun run_now :: "any_run \<Rightarrow> gotime" where
  "run_now (DohRun s) = ov_now s"
| "run_now (DotRun s) = dv_now s"

text \<open>Whether \<open>doQuery\<close> number \<open>i\<close> has not been called; its call with \<open>q\<close>.\<close>

fun run_free :: "any_run \<Rightarrow> nat \<Rightarrow> bool" where
  "run_free (DohRun s) i = (ov_q s i = QNone)"
| "run_free (DotRun s) i = (dv_q s i = DNone)"

fun run_call :: "nat \<Rightarrow> bytes \<Rightarrow> any_run \<Rightarrow> any_run" where
  "run_call i q (DohRun s) = DohRun (s\<lparr>ov_q := (ov_q s)(i := QCalled q)\<rparr>)"
| "run_call i q (DotRun s) = DotRun (s\<lparr>dv_q := (dv_q s)(i := DCalled q)\<rparr>)"

text \<open>What \<open>doQuery\<close> returned, with the caller's slice, and the HTTP status that \<open>Query\<close> takes from its error.\<close>

record returned =
  ro_q :: bytes
  ro_response :: "bytes option"
  ro_server :: "tcpaddr option"
  ro_qerr :: query_error
  ro_http :: nat

fun run_out :: "any_run \<Rightarrow> nat \<Rightarrow> returned option" where
  "run_out (DohRun s) i = (case ov_q s i of
     QReturned q d out \<Rightarrow> Some \<lparr>ro_q = qo_q out, ro_response = qo_response out, ro_server = qo_server out,
       ro_qerr = qo_qerr out, ro_http = http_status (qo_qerr out)\<rparr>
   | _ \<Rightarrow> None)"
| "run_out (DotRun s) i = (case dv_q s i of
     DReturned q out \<Rightarrow> Some \<lparr>ro_q = to_q out, ro_response = to_response out, ro_server = to_server out,
       ro_qerr = to_qerr out, ro_http = 0\<rparr>
   | _ \<Rightarrow> None)"

text \<open>The steps of the \<open>doQuery\<close> calls; none of them is a new call.\<close>

inductive runstep :: "'x codec \<Rightarrow> any_run \<Rightarrow> any_run \<Rightarrow> bool" for cd :: "'x codec" where
  rs_doh: "ovstep cd s s' \<Longrightarrow> (\<And>j. ov_q s j = QNone \<Longrightarrow> ov_q s' j = QNone) \<Longrightarrow> runstep cd (DohRun s) (DohRun s')"
| rs_dot: "dovstep cd s s' \<Longrightarrow> (\<And>j. dv_q s j = DNone \<Longrightarrow> dv_q s' j = DNone) \<Longrightarrow> runstep cd (DotRun s) (DotRun s')"

subsection \<open>Query\<close>

text \<open>
  Not begun; past \<open>OnQuery\<close>; in \<open>doQuery\<close>, called at the time \<open>before\<close>; past it, at the time \<open>after\<close>; past \<open>OnResponse\<close>;
  returned.
\<close>

datatype query_pc = QyNone | QyBegun bytes | QyRunning bytes gotime | QyEnded bytes gotime gotime returned
  | QyReported bytes gotime gotime returned | QyReturned bytes "bytes option" "goerr option"

text \<open>The events and the lines of the log, each with the number of its query, in the order of the calls.\<close>

record query_run =
  qy_run :: any_run
  qy_pc :: "nat \<Rightarrow> query_pc"
  qy_events :: "(nat \<times> event) list"
  qy_logs :: "(nat \<times> dns_log) list"

definition query_summary :: "gotime \<Rightarrow> gotime \<Rightarrow> returned \<Rightarrow> Summary" where
  "query_summary before after out =
     \<lparr>sm_Latency = after - before, sm_Query = ro_q out, sm_Response = ro_response out,
      sm_Server = (case ro_server out of None \<Rightarrow> [] | Some s \<Rightarrow> ip_String (ta_ip s)),
      sm_Status = (case ro_qerr out of None \<Rightarrow> Complete | Some (st, e) \<Rightarrow> st), sm_HTTPStatus = ro_http out\<rparr>"

text \<open>The two calls of the listener, if there is one; a cancelled query is not reported.\<close>

definition query_asked :: "any_run \<Rightarrow> event list" where
  "query_asked r = (if run_listener r then [OnQuery (run_url r)] else [])"

definition query_report :: "any_run \<Rightarrow> gotime \<Rightarrow> gotime \<Rightarrow> returned \<Rightarrow> event list" where
  "query_report r before after out =
     (if run_listener r \<and> \<not> errIsCancel (ro_qerr out) then [OnResponse (query_summary before after out)] else [])"

definition query_log :: "'x codec \<Rightarrow> any_run \<Rightarrow> gotime \<Rightarrow> gotime \<Rightarrow> returned \<Rightarrow> dns_log" where
  "query_log cd r before after out = LogDNSResolverQuery cd (run_name r) (run_url r) (ro_q out) (ro_response out)
     before after (qerr_error (ro_qerr out)) (errIsCancel (ro_qerr out))"

text \<open>A call of \<open>Query\<close>, and what follows.\<close>

definition query_begin :: "nat \<Rightarrow> bytes \<Rightarrow> query_run \<Rightarrow> query_run" where
  "query_begin i q s = s\<lparr>qy_pc := (qy_pc s)(i := QyBegun q), qy_events := qy_events s @ map (Pair i) (query_asked (qy_run s))\<rparr>"

lemma query_begin_fields [simp]:
  "qy_run (query_begin i q s) = qy_run s" "qy_pc (query_begin i q s) = (qy_pc s)(i := QyBegun q)"
  "qy_logs (query_begin i q s) = qy_logs s"
  by (simp_all add: query_begin_def)

inductive qstep :: "'x codec \<Rightarrow> query_run \<Rightarrow> query_run \<Rightarrow> bool" for cd :: "'x codec" where
  q_call: "qy_pc s i = QyBegun q \<Longrightarrow>
     qstep cd s (s\<lparr>qy_run := run_call i q (qy_run s), qy_pc := (qy_pc s)(i := QyRunning q (run_now (qy_run s)))\<rparr>)"
| q_run: "runstep cd (qy_run s) r \<Longrightarrow> qstep cd s (s\<lparr>qy_run := r\<rparr>)"
| q_end: "qy_pc s i = QyRunning q before \<Longrightarrow> run_out (qy_run s) i = Some out \<Longrightarrow>
     qstep cd s (s\<lparr>qy_pc := (qy_pc s)(i := QyEnded q before (run_now (qy_run s)) out)\<rparr>)"
| q_report: "qy_pc s i = QyEnded q before after out \<Longrightarrow>
     qstep cd s (s\<lparr>qy_pc := (qy_pc s)(i := QyReported q before after out),
       qy_events := qy_events s @ map (Pair i) (query_report (qy_run s) before after out)\<rparr>)"
| q_return: "qy_pc s i = QyReported q before after out \<Longrightarrow>
     qstep cd s (s\<lparr>qy_pc := (qy_pc s)(i := QyReturned q (ro_response out) (qerr_error (ro_qerr out))),
       qy_logs := qy_logs s @ [(i, query_log cd (qy_run s) before after out)]\<rparr>)"

inductive_cases qstepE: "qstep cd s s'"

text \<open>The life of a resolver that starts at a time not long before its hangover ends.\<close>

definition start_time :: "any_resolver \<Rightarrow> gotime \<Rightarrow> bool" where
  "start_time r now \<longleftrightarrow> (case r of DoH d \<Rightarrow> rv_hangover d \<le> now + hangoverDuration
     | DoT d \<Rightarrow> dr_hangover d \<le> now + dot_hangoverDuration)"

definition query_start :: "any_resolver \<Rightarrow> gotime \<Rightarrow> query_run" where
  "query_start r now = \<lparr>qy_run = start_run r now, qy_pc = (\<lambda>i. QyNone), qy_events = [], qy_logs = []\<rparr>"

inductive qreach :: "'x codec \<Rightarrow> any_resolver \<Rightarrow> query_run \<Rightarrow> bool" for cd :: "'x codec" and r :: any_resolver where
  qr_start: "start_time r now \<Longrightarrow> qreach cd r (query_start r now)"
| qr_begin: "qreach cd r s \<Longrightarrow> qy_pc s i = QyNone \<Longrightarrow> qreach cd r (query_begin i q s)"
| qr_step: "qreach cd r s \<Longrightarrow> qstep cd s s' \<Longrightarrow> qreach cd r s'"

lemma qreach_run: "qreach cd r s \<Longrightarrow> (qstep cd)\<^sup>*\<^sup>* s s' \<Longrightarrow> qreach cd r s'"
  by (rotate_tac 1, induction rule: rtranclp_induct) (auto intro: qr_step)

text \<open>With the clock and the result of a sequential query these are the summaries of \<open>Query\<close>.\<close>

lemma query_summary_doh:
  "query_summary (he_before env) (he_after env) \<lparr>ro_q = qo_q out, ro_response = qo_response out, ro_server = qo_server out,
     ro_qerr = qo_qerr out, ro_http = http_status (qo_qerr out)\<rparr> = summary_of env out"
  by (simp add: query_summary_def summary_of_def)

lemma query_summary_dot:
  "query_summary (te_before env) (te_after env) \<lparr>ro_q = to_q out, ro_response = to_response out, ro_server = to_server out,
     ro_qerr = to_qerr out, ro_http = 0\<rparr> = dot_summary env out"
  by (simp add: query_summary_def dot_summary_def)


subsection \<open>What the steps keep\<close>

text \<open>The slice that \<open>doQuery\<close> number \<open>i\<close> was called with.\<close>

fun doh_slot :: "qpc \<Rightarrow> bytes option" where
  "doh_slot (QCalled q) = Some q"
| "doh_slot (QDoing q q' same) = Some q"
| "doh_slot (QReplied q q' same d) = Some q"
| "doh_slot (QCleaned q q' same d) = Some q"
| "doh_slot (QReturned q d out) = Some q"
| "doh_slot p = None"

fun dot_slot :: "dqpc \<Rightarrow> bytes option" where
  "dot_slot (DCalled q) = Some q"
| "dot_slot (DDial q q' same p) = Some q"
| "dot_slot (DConn q q' same plain) = Some q"
| "dot_slot (DDone q q' same x) = Some q"
| "dot_slot (DReturned q out) = Some q"
| "dot_slot p = None"

fun run_slot :: "any_run \<Rightarrow> nat \<Rightarrow> bytes option" where
  "run_slot (DohRun s) i = doh_slot (ov_q s i)"
| "run_slot (DotRun s) i = dot_slot (dv_q s i)"

definition run_ok :: "'x codec \<Rightarrow> any_resolver \<Rightarrow> any_run \<Rightarrow> bool" where
  "run_ok cd r s \<longleftrightarrow> (case r of DoH d \<Rightarrow> \<exists>t. s = DohRun t \<and> ovreach cd d t | DoT d \<Rightarrow> \<exists>t. s = DotRun t \<and> dovreach cd d t)"

lemma run_okE:
  assumes "run_ok cd r s" and "session_usable (cd, r)"
  obtains (doh) d t where "r = DoH d" "s = DohRun t" "id_law cd" "res_ok d" "ovreach cd d t" "ov_inv cd t"
    | (dot) d t where "r = DoT d" "s = DotRun t" "id_law cd" "dot_ok d" "dovreach cd d t" "dv_inv cd t"
proof (cases r)
  case (DoH d)
  then show ?thesis
    using doh [of d] assms ovreach_inv [of cd d] by (auto simp: run_ok_def session_usable_def doh_usable_def)
next
  case (DoT d)
  then show ?thesis
    using dot [of d] assms dovreach_inv [of cd d] by (auto simp: run_ok_def session_usable_def dot_usable_def)
qed

lemma run_ok_start: "start_time r now \<Longrightarrow> run_ok cd r (start_run r now)"
  by (cases r) (auto simp: start_time_def run_ok_def ovreach_def dovreach_def)

lemma ovreach_step: "ovreach cd d s \<Longrightarrow> ovstep cd s s' \<Longrightarrow> ovreach cd d s'"
  unfolding ovreach_def using rtranclp.rtrancl_into_rtrancl [of "ovstep cd"] by blast

lemma dovreach_step: "dovreach cd d s \<Longrightarrow> dovstep cd s s' \<Longrightarrow> dovreach cd d s'"
  unfolding dovreach_def using rtranclp.rtrancl_into_rtrancl [of "dovstep cd"] by blast

lemma run_ok_call:
  assumes "run_ok cd r s" and "run_free s i"
  shows "run_ok cd r (run_call i q s)"
proof (cases r)
  case (DoH d)
  then obtain t where t: "s = DohRun t" "ovreach cd d t" using assms(1) by (auto simp: run_ok_def)
  then have "ovstep cd t (t\<lparr>ov_q := (ov_q t)(i := QCalled q)\<rparr>)" using assms(2) by (auto intro: ov_call)
  then show ?thesis using DoH t ovreach_step by (auto simp: run_ok_def)
next
  case (DoT d)
  then obtain t where t: "s = DotRun t" "dovreach cd d t" using assms(1) by (auto simp: run_ok_def)
  then have "dovstep cd t (t\<lparr>dv_q := (dv_q t)(i := DCalled q)\<rparr>)" using assms(2) by (auto intro: dv_call)
  then show ?thesis using DoT t dovreach_step by (auto simp: run_ok_def)
qed

lemma run_ok_step: "runstep cd s s' \<Longrightarrow> run_ok cd r s \<Longrightarrow> run_ok cd r s'"
  by (induction rule: runstep.induct) (auto simp: run_ok_def split: any_resolver.splits intro: ovreach_step dovreach_step)

text \<open>The steps of \<open>doQuery\<close>: names, results and free numbers stay, and time moves on.\<close>

lemma ov_step_slot:
  assumes "ovstep cd s s'" and "id_law cd"
  shows "doh_slot (ov_q s i) = Some q \<Longrightarrow> doh_slot (ov_q s' i) = Some q"
    "ov_q s i = QReturned q d out \<Longrightarrow> ov_q s' i = QReturned q d out" "ov_q s i \<noteq> QNone \<Longrightarrow> ov_q s' i \<noteq> QNone"
    "rv_url (ov_res s') = rv_url (ov_res s)" "rv_listener (ov_res s') = rv_listener (ov_res s)" "ov_now s \<le> ov_now s'"
proof -
  have pad: "\<not> length q' < 2" if "AddEdnsPadding cd q = Inr (q', same)" for q q' same
    using AddEdnsPadding_id [OF assms(2) that] by simp
  have start: "doh_slot (start_query cd newreq now r q) = Some q \<and> start_query cd newreq now r q \<noteq> QNone" for newreq now r q
    using pad by (auto simp: start_query_def split: sum.splits option.splits)
  show "doh_slot (ov_q s i) = Some q \<Longrightarrow> doh_slot (ov_q s' i) = Some q"
    using assms(1) by (cases rule: ovstep.cases) (use start in auto)
  show "ov_q s i = QReturned q d out \<Longrightarrow> ov_q s' i = QReturned q d out"
    using assms(1) by (cases rule: ovstep.cases) auto
  show "ov_q s i \<noteq> QNone \<Longrightarrow> ov_q s' i \<noteq> QNone"
    using assms(1) by (cases rule: ovstep.cases) (use start in auto)
  have fin: "rv_url r' = rv_url r \<and> rv_listener r' = rv_listener r" if "finish_query cd ne now r q q' same d = (r', out)"
    for ne now r q q' same d r' out
    using that by (auto simp: finish_query_def Let_def split: prod.splits option.splits)
  have cl: "rv_url (cleanup ne d r) = rv_url r \<and> rv_listener (cleanup ne d r) = rv_listener r" for ne d r
    by (auto simp: cleanup_def send_cleanup_def split: prod.splits option.splits)
  show "rv_url (ov_res s') = rv_url (ov_res s)" "rv_listener (ov_res s') = rv_listener (ov_res s)" "ov_now s \<le> ov_now s'"
    using assms(1) by (cases rule: ovstep.cases; use fin cl in auto)+
qed

lemma dv_step_slot:
  assumes "dovstep cd s s'" and "id_law cd" and "dv_inv cd s"
  shows "dot_slot (dv_q s i) = Some q \<Longrightarrow> dot_slot (dv_q s' i) = Some q"
    "dv_q s i = DReturned q out \<Longrightarrow> dv_q s' i = DReturned q out" "dv_q s i \<noteq> DNone \<Longrightarrow> dv_q s' i \<noteq> DNone"
    "dr_url (dv_res s') = dr_url (dv_res s)" "dr_listener (dv_res s') = dr_listener (dv_res s)" "dv_now s \<le> dv_now s'"
proof -
  have pad: "\<not> length q' < 2" if "AddEdnsPadding cd q = Inr (q', same)" for q q' same
    using AddEdnsPadding_id [OF assms(2) that] by simp
  have start: "dot_slot (start_dot cd now r q) = Some q \<and> start_dot cd now r q \<noteq> DNone" for now r q
    using pad by (auto simp: start_dot_def split: sum.splits)
  have dialled: "dot_slot (dialled_dot q q' same conn err) = Some q \<and> dialled_dot q q' same conn err \<noteq> DNone"
    if "dv_q s j = DDial q q' same (DialEnd conn err ts)" for j q q' same conn err ts
  proof -
    have "dqpc_ok cd (dv_res s) (dv_q s j)" using assms(3) by (simp add: dv_inv_def)
    then show ?thesis using that by (auto simp: dialled_dot_def split: option.splits)
  qed
  show "dot_slot (dv_q s i) = Some q \<Longrightarrow> dot_slot (dv_q s' i) = Some q"
    using assms(1) by (cases rule: dovstep.cases) (use start dialled in auto)
  show "dv_q s i = DReturned q out \<Longrightarrow> dv_q s' i = DReturned q out"
    using assms(1) by (cases rule: dovstep.cases) auto
  show "dv_q s i \<noteq> DNone \<Longrightarrow> dv_q s' i \<noteq> DNone"
    using assms(1) by (cases rule: dovstep.cases) (use start dialled in auto)
  have fin: "dr_url r' = dr_url r \<and> dr_listener r' = dr_listener r" if "finish_dot cd env q q' same x r = (r', out)"
    for env q q' same x r r' out
    using that
    by (auto simp: finish_dot_def dot_finish_def dot_Confirm_def dot_check_id_def Let_def
        split: prod.splits option.splits sum.splits if_splits)
  show "dr_url (dv_res s') = dr_url (dv_res s)" "dr_listener (dv_res s') = dr_listener (dv_res s)" "dv_now s \<le> dv_now s'"
    using assms(1) by (cases rule: dovstep.cases; use fin in auto)+
qed

lemma runstep_keeps:
  assumes "runstep cd s s'" and "run_ok cd r s" and "session_usable (cd, r)"
  shows "run_slot s i = Some q \<Longrightarrow> run_slot s' i = Some q" "run_out s i = Some out \<Longrightarrow> run_out s' i = Some out"
    "run_free s' i \<longleftrightarrow> run_free s i" "run_url s' = run_url s" "run_listener s' = run_listener s" "run_name s' = run_name s"
    "run_now s \<le> run_now s'"
proof -
  have "(run_slot s i = Some q \<longrightarrow> run_slot s' i = Some q) \<and> (run_out s i = Some out \<longrightarrow> run_out s' i = Some out)
    \<and> (run_free s' i \<longleftrightarrow> run_free s i) \<and> run_url s' = run_url s \<and> run_listener s' = run_listener s
    \<and> run_name s' = run_name s \<and> run_now s \<le> run_now s'"
    using assms(1)
  proof (cases rule: runstep.cases)
    case (rs_doh t t')
    have "id_law cd" using assms(2,3) rs_doh(1) by (cases rule: run_okE) auto
    note keep = ov_step_slot [OF rs_doh(3) this]
    have "run_out s i = Some out \<longrightarrow> run_out s' i = Some out"
      using keep(2) rs_doh(1,2) by (auto split: qpc.splits)
    moreover have "run_free s' i \<longleftrightarrow> run_free s i" using keep(3) rs_doh(4) rs_doh(1,2) by fastforce
    ultimately show ?thesis using keep(1,4-6) rs_doh(1,2) by simp
  next
    case (rs_dot t t')
    have "id_law cd" "dv_inv cd t" using assms(2,3) rs_dot(1) by (cases rule: run_okE; simp)+
    note keep = dv_step_slot [OF rs_dot(3) this]
    have "run_out s i = Some out \<longrightarrow> run_out s' i = Some out"
      using keep(2) rs_dot(1,2) by (auto split: dqpc.splits)
    moreover have "run_free s' i \<longleftrightarrow> run_free s i" using keep(3) rs_dot(4) rs_dot(1,2) by fastforce
    ultimately show ?thesis using keep(1,4-6) rs_dot(1,2) by simp
  qed
  then show "run_slot s i = Some q \<Longrightarrow> run_slot s' i = Some q" "run_out s i = Some out \<Longrightarrow> run_out s' i = Some out"
    "run_free s' i \<longleftrightarrow> run_free s i" "run_url s' = run_url s" "run_listener s' = run_listener s" "run_name s' = run_name s"
    "run_now s \<le> run_now s'"
    by auto
qed

text \<open>
  The caller's slice is as it was when the query returns, except that a request that could not be made leaves it with
  a zeroed ID when it was padded already.
\<close>

definition slice_kept :: "qpc \<Rightarrow> bool" where
  "slice_kept p \<longleftrightarrow> (case p of QReturned q d out \<Rightarrow> qo_q out = q \<or> qo_q out = put16 0 0 q | _ \<Rightarrow> True)"

lemma slice_kept_step:
  assumes "ovstep cd s s'" and "id_law cd" and "ov_inv cd s" and "slice_kept (ov_q s i)"
  shows "slice_kept (ov_q s' i)"
  using assms(1)
proof (cases rule: ovstep.cases)
  case (ov_check j q newreq)
  have "slice_kept (start_query cd newreq now r q)" for now r
    using AddEdnsPadding_same [of cd q] by (auto simp: slice_kept_def start_query_def q_fail_def split: sum.splits option.splits)
  then show ?thesis using ov_check assms(4) by simp
next
  case (ov_finish j q q' same d ne r' out)
  have "qpc_ok cd (ov_q s j)" using assms(3) by (simp add: ov_inv_def)
  then have pad: "AddEdnsPadding cd q = Inr (q', same)" using ov_finish(2) by simp
  then have "put16 0 (be16 q') (put16 0 0 q') = q'" "same \<longrightarrow> q' = q"
    using put16_be16_id [of q'] AddEdnsPadding_id [OF assms(2) pad] AddEdnsPadding_same [of cd q q'] by auto
  then have "qo_q out = q" using ov_finish(4) by (auto simp: finish_query_def Let_def split: prod.splits option.splits)
  then show ?thesis using ov_finish(1) assms(4) by (simp add: slice_kept_def)
qed (use assms(4) in \<open>auto simp: slice_kept_def\<close>)

lemma slice_kept_run:
  assumes "id_law cd" and "res_ok r" and "ovreach cd r s"
  shows "slice_kept (ov_q s i)"
proof -
  obtain now where s: "rv_hangover r \<le> now + hangoverDuration" "(ovstep cd)\<^sup>*\<^sup>* (ov_start r now) s"
    using assms(3) by (auto simp: ovreach_def)
  from s(2) show ?thesis
  proof (induction rule: rtranclp_induct)
    case base
    show ?case by (simp add: ov_start_def slice_kept_def)
  next
    case (step t u)
    have "ovreach cd r t" using step.hyps(1) s(1) by (auto simp: ovreach_def)
    then show ?case using slice_kept_step [OF step.hyps(2) assms(1)] ovreach_inv [OF assms(1,2)] step.IH by blast
  qed
qed

text \<open>A result is one that the resolver can give.\<close>

lemma run_out_answer:
  assumes "run_ok cd r s" and "session_usable (cd, r)" and "run_out s i = Some out" and "run_slot s i = Some q"
  shows "session_answers (cd, r) q (ro_response out) (qerr_error (ro_qerr out))"
    "ro_q out = q \<or> ro_q out = put16 0 0 q"
proof -
  have "session_answers (cd, r) q (ro_response out) (qerr_error (ro_qerr out))
      \<and> (ro_q out = q \<or> ro_q out = put16 0 0 q)"
    using assms(1,2)
  proof (cases rule: run_okE)
    case (doh d t)
    obtain x o1 where r: "ov_q t i = QReturned q x o1" "out = \<lparr>ro_q = qo_q o1, ro_response = qo_response o1,
        ro_server = qo_server o1, ro_qerr = qo_qerr o1, ro_http = http_status (qo_qerr o1)\<rparr>"
      using assms(3,4) doh(2) by (cases "ov_q t i") auto
    have "slice_kept (ov_q t i)" by (rule slice_kept_run [OF doh(3,4,5)])
    moreover have "doh_answers (cd, d) q (qo_response o1) (qerr_error (qo_qerr o1))"
      using doh(5) r(1) by (auto simp: doh_answers_def)
    ultimately show ?thesis using r doh(1) by (simp add: slice_kept_def session_answers_def)
  next
    case (dot d t)
    obtain o1 where r: "dv_q t i = DReturned q o1" "out = \<lparr>ro_q = to_q o1, ro_response = to_response o1,
        ro_server = to_server o1, ro_qerr = to_qerr o1, ro_http = 0\<rparr>"
      using assms(3,4) dot(2) by (cases "dv_q t i") auto
    have "dqpc_ok cd (dv_res t) (dv_q t i)" using dot(6) by (simp add: dv_inv_def)
    then have "to_q o1 = q" using r(1) by (simp add: dot_answer_def)
    moreover have "dot_answers (cd, d) q (to_response o1) (qerr_error (to_qerr o1))"
      using dot(5) r(1) by (auto simp: dot_answers_def qerr_error_def)
    ultimately show ?thesis using r dot(1) by (simp add: session_answers_def)
  qed
  then show "session_answers (cd, r) q (ro_response out) (qerr_error (ro_qerr out))"
    "ro_q out = q \<or> ro_q out = put16 0 0 q" by auto
qed

subsection \<open>The invariant\<close>

text \<open>What belongs to one query, and the query's slice.\<close>

definition of_query :: "nat \<Rightarrow> (nat \<times> 'a) list \<Rightarrow> 'a list" where
  "of_query i xs = map snd (filter (\<lambda>(j, x). j = i) xs)"

lemma of_query_simps [simp]:
  "of_query i [] = []" "of_query i (xs @ ys) = of_query i xs @ of_query i ys"
  "of_query i [(j, x)] = (if j = i then [x] else [])" "of_query i (map (Pair j) es) = (if j = i then es else [])"
  by (auto simp: of_query_def filter_map comp_def)

fun pc_query :: "query_pc \<Rightarrow> bytes option" where
  "pc_query QyNone = None"
| "pc_query (QyBegun q) = Some q"
| "pc_query (QyRunning q before) = Some q"
| "pc_query (QyEnded q before after out) = Some q"
| "pc_query (QyReported q before after out) = Some q"
| "pc_query (QyReturned q resp e) = Some q"

text \<open>A query at \<open>pc\<close>, with the events \<open>evs\<close> and the lines \<open>logs\<close> of its own.\<close>

fun query_inv :: "'x codec \<Rightarrow> any_run \<Rightarrow> nat \<Rightarrow> event list \<Rightarrow> dns_log list \<Rightarrow> query_pc \<Rightarrow> bool" where
  "query_inv cd r i evs logs QyNone = (run_free r i \<and> evs = [] \<and> logs = [])"
| "query_inv cd r i evs logs (QyBegun q) = (run_free r i \<and> evs = query_asked r \<and> logs = [])"
| "query_inv cd r i evs logs (QyRunning q before) =
     (run_slot r i = Some q \<and> before \<le> run_now r \<and> evs = query_asked r \<and> logs = [])"
| "query_inv cd r i evs logs (QyEnded q before after out) =
     (run_slot r i = Some q \<and> run_out r i = Some out \<and> before \<le> after \<and> evs = query_asked r \<and> logs = [])"
| "query_inv cd r i evs logs (QyReported q before after out) =
     (run_slot r i = Some q \<and> run_out r i = Some out \<and> before \<le> after
      \<and> evs = query_asked r @ query_report r before after out \<and> logs = [])"
| "query_inv cd r i evs logs (QyReturned q resp e) =
     (\<exists>before after out. run_slot r i = Some q \<and> run_out r i = Some out \<and> before \<le> after
      \<and> evs = query_asked r @ query_report r before after out \<and> logs = [query_log cd r before after out]
      \<and> resp = ro_response out \<and> e = qerr_error (ro_qerr out))"

definition begun_queries :: "(nat \<Rightarrow> query_pc) \<Rightarrow> nat set" where
  "begun_queries pc = {i. pc i \<noteq> QyNone}"

lemma finite_begun [simp]: "finite (begun_queries pc) \<Longrightarrow> finite (begun_queries (pc(k := p)))"
  unfolding begun_queries_def by (rule finite_subset [of _ "insert k {i. pc i \<noteq> QyNone}"]) auto

definition queries_inv :: "'x codec \<Rightarrow> query_run \<Rightarrow> bool" where
  "queries_inv cd s \<longleftrightarrow> (\<forall>i. query_inv cd (qy_run s) i (of_query i (qy_events s)) (of_query i (qy_logs s)) (qy_pc s i))
     \<and> finite (begun_queries (qy_pc s))"

lemma query_inv_runstep:
  assumes "runstep cd r r'" and "run_ok cd x r" and "session_usable (cd, x)" and "query_inv cd r i evs logs pc"
  shows "query_inv cd r' i evs logs pc"
proof -
  note keep = runstep_keeps [OF assms(1-3)]
  have "query_asked r' = query_asked r" "query_report r' = query_report r" "query_log cd r' = query_log cd r"
    using keep(4-6) by (auto simp: query_asked_def query_report_def query_log_def fun_eq_iff)
  with assms(4) keep(1-3,7) show ?thesis
  proof (cases pc)
    case (QyReturned q resp e)
    then show ?thesis using assms(4) keep(1,2) \<open>query_asked r' = _\<close> \<open>query_report r' = _\<close> \<open>query_log cd r' = _\<close>
      by (simp only: query_inv.simps) blast
  qed (auto intro: order_trans)
qed

lemma run_call_simps [simp]:
  "run_url (run_call i q r) = run_url r" "run_listener (run_call i q r) = run_listener r"
  "run_name (run_call i q r) = run_name r" "run_now (run_call i q r) = run_now r"
  "run_slot (run_call i q r) i = Some q" "j \<noteq> i \<Longrightarrow> run_slot (run_call i q r) j = run_slot r j"
  "j \<noteq> i \<Longrightarrow> run_out (run_call i q r) j = run_out r j" "j \<noteq> i \<Longrightarrow> run_free (run_call i q r) j = run_free r j"
  by (cases r; simp)+

lemma query_inv_call: "j \<noteq> i \<Longrightarrow> query_inv cd (run_call i q r) j evs logs pc = query_inv cd r j evs logs pc"
  by (cases pc) (simp_all add: query_asked_def query_report_def query_log_def)

lemma queries_inv_begin:
  assumes "queries_inv cd s" and "qy_pc s i = QyNone"
  shows "queries_inv cd (query_begin i q s)"
proof -
  have "query_inv cd (qy_run s) i (of_query i (qy_events s)) (of_query i (qy_logs s)) QyNone"
    using assms unfolding queries_inv_def by metis
  then show ?thesis using assms(1) by (auto simp: queries_inv_def query_begin_def)
qed

lemma queries_inv_step:
  assumes "qstep cd s s'" and "run_ok cd r (qy_run s)" and "session_usable (cd, r)" and "queries_inv cd s"
  shows "queries_inv cd s'"
proof -
  have inv: "query_inv cd (qy_run s) i (of_query i (qy_events s)) (of_query i (qy_logs s)) (qy_pc s i)" for i
    using assms(4) by (simp add: queries_inv_def)
  have fin: "finite (begun_queries (qy_pc s))" using assms(4) by (simp add: queries_inv_def)
  show ?thesis
    using assms(1)
  proof (cases rule: qstep.cases)
    case (q_call i q)
    have "query_inv cd (run_call i q (qy_run s)) j (of_query j (qy_events s)) (of_query j (qy_logs s))
        (((qy_pc s)(i := QyRunning q (run_now (qy_run s)))) j)" for j
      using inv [of j] inv [of i] q_call(2) by (cases "j = i") (auto simp: query_inv_call query_asked_def)
    then show ?thesis using q_call(1) fin by (simp add: queries_inv_def)
  next
    case (q_run r')
    then show ?thesis using query_inv_runstep [OF q_run(2) assms(2,3) inv] fin by (simp add: queries_inv_def)
  next
    case (q_end i q before out)
    then show ?thesis using inv inv [of i] fin by (auto simp: queries_inv_def)
  next
    case (q_report i q before after out)
    then show ?thesis using inv inv [of i] fin by (auto simp: queries_inv_def)
  next
    case (q_return i q before after out)
    have "query_inv cd (qy_run s) i (of_query i (qy_events s)) (of_query i (qy_logs s)) (QyReported q before after out)"
      using inv [of i] q_return(2) by simp
    then have "query_inv cd (qy_run s) i (of_query i (qy_events s)) (of_query i (qy_logs s) @ [query_log cd (qy_run s) before after out])
        (QyReturned q (ro_response out) (qerr_error (ro_qerr out)))"
      unfolding query_inv.simps by (intro exI [of _ before] exI [of _ after] exI [of _ out]) simp
    then show ?thesis using q_return(1) inv fin by (simp add: queries_inv_def)
  qed
qed

lemma run_ok_qstep:
  assumes "qstep cd s s'" and "run_ok cd r (qy_run s)" and "queries_inv cd s"
  shows "run_ok cd r (qy_run s')"
  using assms(1)
proof (cases rule: qstep.cases)
  case (q_call i q)
  have "query_inv cd (qy_run s) i (of_query i (qy_events s)) (of_query i (qy_logs s)) (QyBegun q)"
    using assms(3) q_call(2) unfolding queries_inv_def by metis
  then show ?thesis using run_ok_call [OF assms(2)] q_call(1) by simp
qed (use assms(2) run_ok_step in auto)

lemma start_run_free [simp]: "run_free (start_run r now) i"
  by (cases r) (simp_all add: ov_start_def dv_start_def)

lemma qreach_inv:
  assumes "qreach cd r s" and "session_usable (cd, r)"
  shows "run_ok cd r (qy_run s) \<and> queries_inv cd s"
  using assms(1)
proof (induction rule: qreach.induct)
  case (qr_start now)
  then show ?case using run_ok_start by (simp add: query_start_def queries_inv_def begun_queries_def)
next
  case (qr_begin s i q)
  then show ?case using queries_inv_begin [of cd s i q] by simp
next
  case (qr_step s s')
  then show ?case using queries_inv_step [OF _ _ assms(2)] run_ok_qstep by blast
qed

lemma qreach_query:
  assumes "qreach cd r s" and "session_usable (cd, r)"
  shows "query_inv cd (qy_run s) i (of_query i (qy_events s)) (of_query i (qy_logs s)) (qy_pc s i)"
  using qreach_inv [OF assms] by (simp add: queries_inv_def)

text \<open>What a query returns is an answer that the resolver can give.\<close>

lemma qreach_answer:
  assumes "qreach cd r s" and "session_usable (cd, r)" and "qy_pc s i = QyReturned q resp e"
  shows "session_answers (cd, r) q resp e"
proof -
  obtain out where "run_slot (qy_run s) i = Some q" "run_out (qy_run s) i = Some out" "resp = ro_response out"
      "e = qerr_error (ro_qerr out)"
    using qreach_query [OF assms(1,2), of i] assms(3) by auto
  then show ?thesis using run_out_answer(1) qreach_inv [OF assms(1,2)] assms(2) by blast
qed

text \<open>Its results stay, and a query keeps its slice.\<close>

lemma qstep_pc:
  "qstep cd s s' \<Longrightarrow> pc_query (qy_pc s' i) = pc_query (qy_pc s i) \<and>
     (qy_pc s i = QyReturned q resp e \<longrightarrow> qy_pc s' i = QyReturned q resp e)"
  by (induction rule: qstep.induct) auto

lemma pc_query_None [simp]: "pc_query pc = None \<longleftrightarrow> pc = QyNone"
  by (cases pc) auto

text \<open>The resolver's address and its listener are those it was made with.\<close>

fun resolver_url :: "any_resolver \<Rightarrow> string" where
  "resolver_url (DoH d) = rv_url d"
| "resolver_url (DoT d) = dr_url d"

fun resolver_listener :: "any_resolver \<Rightarrow> bool" where
  "resolver_listener (DoH d) = rv_listener d"
| "resolver_listener (DoT d) = dr_listener d"

lemma qreach_names:
  assumes "qreach cd r s" and "session_usable (cd, r)"
  shows "run_url (qy_run s) = resolver_url r \<and> run_listener (qy_run s) = resolver_listener r"
  using assms(1)
proof (induction rule: qreach.induct)
  case (qr_start now)
  show ?case by (cases r) (simp_all add: query_start_def ov_start_def dv_start_def)
next
  case (qr_step s s')
  have ok: "run_ok cd r (qy_run s)" using qreach_inv [OF qr_step.hyps(1) assms(2)] by simp
  from qr_step.hyps(2) show ?case
    by (cases rule: qstep.cases) (use qr_step.IH runstep_keeps(4,5) [OF _ ok assms(2)] in auto)
qed simp

subsection \<open>Every query can come to its end\<close>

text \<open>How far a \<open>doQuery\<close> has to go; the loop over the addresses has a length that is known when it begins.\<close>

fun dial_rank :: "dial_pc \<Rightarrow> nat \<times> nat" where
  "dial_rank DialGet = (8, 0)"
| "dial_rank (DialConfirmed a c) = (7, 0)"
| "dial_rank (DialDisconfirm a c err) = (6, 0)"
| "dial_rank (DialAll a c err ts) = (5, 0)"
| "dial_rank (DialNext c err ts xs) = (4, length xs)"
| "dial_rank (DialEnd conn err ts) = (3, 0)"

fun dot_rank :: "dqpc \<Rightarrow> nat \<times> nat" where
  "dot_rank (DCalled q) = (9, 0)"
| "dot_rank (DDial q q' same p) = dial_rank p"
| "dot_rank (DConn q q' same plain) = (2, 0)"
| "dot_rank (DDone q q' same x) = (1, 0)"
| "dot_rank p = (0, 0)"

fun doh_rank :: "qpc \<Rightarrow> nat \<times> nat" where
  "doh_rank (QCalled q) = (4, 0)"
| "doh_rank (QDoing q q' same) = (3, 0)"
| "doh_rank (QReplied q q' same d) = (2, 0)"
| "doh_rank (QCleaned q q' same d) = (1, 0)"
| "doh_rank p = (0, 0)"

fun slot_rank :: "nat \<Rightarrow> any_run \<Rightarrow> nat \<times> nat" where
  "slot_rank i (DohRun s) = doh_rank (ov_q s i)"
| "slot_rank i (DotRun s) = dot_rank (dv_q s i)"

abbreviation "rank_less \<equiv> less_than <*lex*> less_than"

lemma dial_moves:
  "dial_rank p = (3, 0) \<or> (\<exists>m' p'. dialstep domain port m p m' p' \<and> (dial_rank p', dial_rank p) \<in> rank_less)"
proof (cases p)
  case DialGet
  obtain m' a where "Get (ne_lookup sample_host) domain m = (m', a)" by (cases "Get (ne_lookup sample_host) domain m")
  from d_get [OF this, of port] DialGet show ?thesis by (fastforce simp: dial_start_def)
next
  case (DialConfirmed a c)
  then show ?thesis
    using d_confirmed [of sample_host port c _ domain m a] d_failed [of sample_host port c _ domain m a]
    by (cases "split_dial sample_host port c") fastforce+
next
  case (DialDisconfirm a c err)
  then show ?thesis using d_disconfirm [of domain port m a c err] by fastforce
next
  case (DialAll a c err ts)
  then show ?thesis using d_all [of domain port m a c err ts] by fastforce
next
  case (DialNext c err ts xs)
  show ?thesis
  proof (cases xs)
    case Nil
    then show ?thesis using DialNext d_none [of domain port m c err ts] by fastforce
  next
    case (Cons x ys)
    then show ?thesis
      using DialNext d_skip [of x c domain port m err ts ys] d_next [of x c sample_host port _ domain m err ts ys]
        d_next_failed [of x c sample_host port _ domain m err ts ys]
      by (cases "ip_Equal x c"; cases "split_dial sample_host port x") fastforce+
  qed
qed simp

lemma doh_moves:
  assumes "id_law cd" and "doh_slot (ov_q s i) = Some q"
  shows "(\<exists>d out. ov_q s i = QReturned q d out)
    \<or> (\<exists>s'. runstep cd (DohRun s) (DohRun s') \<and> (doh_rank (ov_q s' i), doh_rank (ov_q s i)) \<in> rank_less)"
proof (cases "ov_q s i")
  case (QCalled p)
  have pad: "\<not> length q' < 2" if "AddEdnsPadding cd q = Inr (q', same)" for q' same
    using AddEdnsPadding_id [OF assms(1) that] by simp
  have "(doh_rank (start_query cd None (ov_now s) (ov_res s) q), (4, 0)) \<in> rank_less"
    using pad by (auto simp: start_query_def split: sum.splits)
  then show ?thesis
    using QCalled assms(2) rs_doh [OF ov_check [of s i p cd None]] by fastforce
next
  case (QDoing p q' same)
  have "conns_valid (he_do (sample_env 200 []) sample_req)"
    using sample_env_ok unfolding env_ok_def conns_valid_def by blast
  then show ?thesis using QDoing rs_doh [OF ov_done [OF QDoing]] by fastforce
next
  case (QReplied p q' same d)
  have "lookups_ok (he_net (sample_env 200 []))" using sample_env_ok by (simp add: env_ok_def lookups_ok_def)
  then show ?thesis using QReplied rs_doh [OF ov_cleanup [OF QReplied]] by fastforce
next
  case (QCleaned p q' same d)
  let ?ne = "he_net (sample_env 200 [])"
  have ne: "lookups_ok ?ne" using sample_env_ok by (simp add: env_ok_def lookups_ok_def)
  obtain r' out where "finish_query cd ?ne (ov_now s) (ov_res s) p q' same d = (r', out)"
    by (cases "finish_query cd ?ne (ov_now s) (ov_res s) p q' same d")
  then show ?thesis using QCleaned rs_doh [OF ov_finish [OF QCleaned ne]] by fastforce
qed (use assms(2) in auto)

lemma dot_moves:
  assumes "id_law cd" and "dv_inv cd s" and "dot_slot (dv_q s i) = Some q"
  shows "(\<exists>out. dv_q s i = DReturned q out)
    \<or> (\<exists>s'. runstep cd (DotRun s) (DotRun s') \<and> (dot_rank (dv_q s' i), dot_rank (dv_q s i)) \<in> rank_less)"
proof (cases "dv_q s i")
  case (DCalled p)
  have pad: "\<not> length q' < 2" if "AddEdnsPadding cd q = Inr (q', same)" for q' same
    using AddEdnsPadding_id [OF assms(1) that] by simp
  have "(dot_rank (start_dot cd (dv_now s) (dv_res s) q), (9, 0)) \<in> rank_less"
    using pad by (auto simp: start_dot_def split: sum.splits)
  then show ?thesis using DCalled assms(3) rs_dot [OF dv_check [OF DCalled]] by fastforce
next
  case (DDial p q' same dp)
  show ?thesis
  proof (cases "dial_rank dp = (3, 0)")
    case True
    then obtain conn err ts where dp: "dp = DialEnd conn err ts" by (cases dp) auto
    have "(dot_rank (dialled_dot p q' same conn err), (3, 0)) \<in> rank_less"
      by (auto simp: dialled_dot_def split: option.splits)
    then show ?thesis using DDial dp rs_dot [OF dv_dialled [OF DDial [unfolded dp], of cd]] by fastforce
  next
    case False
    then obtain m' p' where "dialstep (dr_hostname (dv_res s)) (dr_port (dv_res s)) (dr_ips (dv_res s)) dp m' p'"
        "(dial_rank p', dial_rank dp) \<in> rank_less"
      using dial_moves by blast
    then show ?thesis using DDial rs_dot [OF dv_dial [OF DDial]] by fastforce
  qed
next
  case (DConn p q' same plain)
  have "io_writer (te_write (sample_tls [])) (\<lambda>w. w)" using sample_tls_ok by (simp add: tls_env_ok_def)
  then show ?thesis using DConn rs_dot [OF dv_exchange [OF DConn]] by fastforce
next
  case (DDone p q' same x)
  let ?env = "(sample_tls [])\<lparr>te_now2 := dv_now s\<rparr>"
  obtain r' out where "finish_dot cd ?env p q' same x (dv_res s) = (r', out)"
    by (cases "finish_dot cd ?env p q' same x (dv_res s)")
  then show ?thesis using DDone rs_dot [OF dv_finish [OF DDone, of ?env]] by fastforce
qed (use assms(3) in auto)

lemma slot_moves:
  assumes "run_ok cd r s" and "session_usable (cd, r)" and "run_slot s i = Some q"
  shows "run_out s i \<noteq> None \<or> (\<exists>s'. runstep cd s s' \<and> (slot_rank i s', slot_rank i s) \<in> rank_less)"
  using assms(1,2)
proof (cases rule: run_okE)
  case (doh d t)
  then show ?thesis using doh_moves [OF doh(3), of t i q] assms(3) by fastforce
next
  case (dot d t)
  then show ?thesis using dot_moves [OF dot(3,6), of i q] assms(3) by fastforce
qed

lemma runsteps_keep:
  assumes "(runstep cd)\<^sup>*\<^sup>* s s'" and "run_ok cd r s" and "session_usable (cd, r)"
  shows "run_ok cd r s' \<and> run_url s' = run_url s \<and> run_listener s' = run_listener s \<and> run_name s' = run_name s"
  using assms(1)
proof (induction rule: rtranclp_induct)
  case (step t u)
  have ok: "run_ok cd r t" using step.IH by simp
  show ?case using step.IH runstep_keeps(4-6) [OF step.hyps(2) ok assms(3)] run_ok_step [OF step.hyps(2) ok] by simp
qed (use assms(2) in simp)

lemma wf_slot_rank: "wf (inv_image rank_less (slot_rank i))"
  by auto

lemma slot_returns:
  assumes "session_usable (cd, r)"
  shows "run_ok cd r s \<Longrightarrow> run_slot s i = Some q \<Longrightarrow> \<exists>s' out. (runstep cd)\<^sup>*\<^sup>* s s' \<and> run_out s' i = Some out"
proof (induction s rule: wf_induct_rule [OF wf_slot_rank [of i]])
  case (1 s)
  show ?case
  proof (cases "run_out s i")
    case None
    then obtain t where t: "runstep cd s t" "(slot_rank i t, slot_rank i s) \<in> rank_less"
      using slot_moves [OF 1(2) assms 1(3)] by blast
    have "run_ok cd r t" "run_slot t i = Some q"
      using run_ok_step [OF t(1) 1(2)] runstep_keeps(1) [OF t(1) 1(2) assms 1(3)] .
    then obtain s' out where "(runstep cd)\<^sup>*\<^sup>* t s'" "run_out s' i = Some out" using 1(1) t(2) by force
    then show ?thesis using converse_rtranclp_into_rtranclp [of "runstep cd", OF t(1)] by blast
  qed blast
qed

text \<open>The same of \<open>Query\<close>, with no effect on where the other queries are.\<close>

lemma q_runs: "(runstep cd)\<^sup>*\<^sup>* r r' \<Longrightarrow> (qstep cd)\<^sup>*\<^sup>* (s\<lparr>qy_run := r\<rparr>) (s\<lparr>qy_run := r'\<rparr>)"
proof (induction rule: rtranclp_induct)
  case (step t u)
  have "qstep cd (s\<lparr>qy_run := t\<rparr>) ((s\<lparr>qy_run := t\<rparr>)\<lparr>qy_run := u\<rparr>)" by (rule q_run) (simp add: step.hyps(2))
  then show ?case using rtranclp.rtrancl_into_rtrancl [of "qstep cd", OF step.IH] by simp
qed simp

definition comes_back :: "'x codec \<Rightarrow> nat \<Rightarrow> bytes \<Rightarrow> query_run \<Rightarrow> bool" where
  "comes_back cd i q s \<longleftrightarrow> (\<exists>s' resp e. (qstep cd)\<^sup>*\<^sup>* s s' \<and> qy_pc s' i = QyReturned q resp e \<and> (\<forall>j. j \<noteq> i \<longrightarrow> qy_pc s' j = qy_pc s j))"

lemma comes_back_step:
  "qstep cd s t \<Longrightarrow> (\<And>j. j \<noteq> i \<Longrightarrow> qy_pc t j = qy_pc s j) \<Longrightarrow> comes_back cd i q t \<Longrightarrow> comes_back cd i q s"
  unfolding comes_back_def using converse_rtranclp_into_rtranclp [of "qstep cd" s t] by metis

lemma comes_back_reported: "qy_pc s i = QyReported q before after out \<Longrightarrow> comes_back cd i q s"
  by (rule comes_back_step [OF q_return]) (auto simp: comes_back_def)

lemma comes_back_ended: "qy_pc s i = QyEnded q before after out \<Longrightarrow> comes_back cd i q s"
  by (rule comes_back_step [OF q_report]) (auto intro: comes_back_reported)

lemma comes_back_running:
  assumes "qreach cd r s" and "session_usable (cd, r)" and "qy_pc s i = QyRunning q before"
  shows "comes_back cd i q s"
proof -
  have "run_ok cd r (qy_run s)" "run_slot (qy_run s) i = Some q"
    using qreach_inv [OF assms(1,2)] qreach_query [OF assms(1,2), of i] assms(3) by auto
  then obtain r' out where r': "(runstep cd)\<^sup>*\<^sup>* (qy_run s) r'" "run_out r' i = Some out" using slot_returns [OF assms(2)] by blast
  let ?t = "s\<lparr>qy_run := r'\<rparr>"
  have run: "(qstep cd)\<^sup>*\<^sup>* s ?t" using q_runs [OF r'(1), of s] by simp
  have "comes_back cd i q ?t"
    by (rule comes_back_step [OF q_end [of ?t i q before out]]) (use assms(3) r'(2) in \<open>auto intro: comes_back_ended\<close>)
  then show ?thesis using rtranclp_trans [of "qstep cd", OF run] unfolding comes_back_def by fastforce
qed

lemma comes_back_all:
  assumes "qreach cd r s" and "session_usable (cd, r)" and "pc_query (qy_pc s i) = Some q"
  shows "comes_back cd i q s"
proof (cases "qy_pc s i")
  case (QyBegun p)
  let ?t = "s\<lparr>qy_run := run_call i q (qy_run s), qy_pc := (qy_pc s)(i := QyRunning q (run_now (qy_run s)))\<rparr>"
  have st: "qstep cd s ?t" by (rule q_call) (use QyBegun assms(3) in simp)
  have "comes_back cd i q ?t" by (rule comes_back_running [OF qr_step [OF assms(1) st] assms(2)]) simp
  from comes_back_step [OF st _ this] show ?thesis by simp
next
  case (QyReturned p resp e)
  then show ?thesis using assms(3) by (auto simp: comes_back_def)
qed (use assms comes_back_running comes_back_ended comes_back_reported in auto)

lemma free_query:
  assumes "qreach cd r s" and "session_usable (cd, r)"
  shows "\<exists>i. qy_pc s i = QyNone"
proof -
  have "finite (begun_queries (qy_pc s))" using qreach_inv [OF assms] by (simp add: queries_inv_def)
  then show ?thesis using ex_new_if_finite [OF infinite_UNIV_nat] by (auto simp: begun_queries_def)
qed

subsection \<open>The sequential query is a run\<close>

text \<open>Steps that end with no new call have made none on the way.\<close>

lemma doh_runs:
  assumes "(ovstep cd)\<^sup>*\<^sup>* s s'" and "id_law cd" and "\<And>j. ov_q s j = QNone \<Longrightarrow> ov_q s' j = QNone"
  shows "(runstep cd)\<^sup>*\<^sup>* (DohRun s) (DohRun s')"
  using assms(1,3)
proof (induction rule: converse_rtranclp_induct)
  case (step s t)
  have stay: "ov_q t j \<noteq> QNone \<Longrightarrow> ov_q s' j \<noteq> QNone" for j
    using step.hyps(2) by (induction rule: rtranclp_induct) (auto dest: ov_step_slot(3) [OF _ assms(2)])
  have earlier: "ov_q t j = QNone \<Longrightarrow> ov_q s j = QNone" for j
    using ov_step_slot(3) [OF step.hyps(1) assms(2)] by blast
  have "runstep cd (DohRun s) (DohRun t)" using rs_doh [OF step.hyps(1)] stay step.prems by blast
  moreover have "(runstep cd)\<^sup>*\<^sup>* (DohRun t) (DohRun s')" by (rule step.IH) (use earlier step.prems in blast)
  ultimately show ?case by (rule converse_rtranclp_into_rtranclp [of "runstep cd"])
qed simp

lemma dot_runs:
  assumes "(dovstep cd)\<^sup>*\<^sup>* s s'" and "id_law cd" and "dv_inv cd s" and "\<And>j. dv_q s j = DNone \<Longrightarrow> dv_q s' j = DNone"
  shows "(runstep cd)\<^sup>*\<^sup>* (DotRun s) (DotRun s')"
  using assms(1,3,4)
proof (induction rule: converse_rtranclp_induct)
  case (step s t)
  have inv: "dv_inv cd t" by (rule dv_inv_step [OF assms(2) step.hyps(1) step.prems(1)])
  have stay: "dv_inv cd s' \<and> (dv_q t j \<noteq> DNone \<longrightarrow> dv_q s' j \<noteq> DNone)" for j
    using step.hyps(2)
    by (induction rule: rtranclp_induct)
      (use inv in \<open>auto intro: dv_inv_step [OF assms(2)] dest: dv_step_slot(3) [OF _ assms(2)]\<close>)
  have earlier: "dv_q t j = DNone \<Longrightarrow> dv_q s j = DNone" for j
    using dv_step_slot(3) [OF step.hyps(1) assms(2) step.prems(1)] by blast
  have "runstep cd (DotRun s) (DotRun t)" using rs_dot [OF step.hyps(1)] stay step.prems(2) by blast
  moreover have "(runstep cd)\<^sup>*\<^sup>* (DotRun t) (DotRun s')" by (rule step.IH [OF inv]) (use earlier step.prems(2) in blast)
  ultimately show ?case by (rule converse_rtranclp_into_rtranclp [of "runstep cd"])
qed simp

text \<open>From the call on, for a \<open>doQuery\<close> that runs from \<open>r\<close> to \<open>r'\<close>.\<close>

lemma query_run:
  assumes ok: "run_ok cd x r" "session_usable (cd, x)" "run_free r i"
    and "(runstep cd)\<^sup>*\<^sup>* (run_call i q r) r'" and "run_out r' i = Some out"
    and s: "qy_run s = r" "qy_pc s i = QyNone" "qy_events s = []" "qy_logs s = []"
  shows "\<exists>s'. (qstep cd)\<^sup>*\<^sup>* (query_begin i q s) s' \<and> qy_run s' = r'
    \<and> qy_pc s' i = QyReturned q (ro_response out) (qerr_error (ro_qerr out))
    \<and> qy_events s' = map (Pair i) (query_asked r @ query_report r (run_now r) (run_now r') out)
    \<and> qy_logs s' = [(i, query_log cd r (run_now r) (run_now r') out)]"
proof -
  have same: "query_report r' = query_report r" "query_log cd r' = query_log cd r"
    using runsteps_keep [OF assms(4) run_ok_call [OF ok(1,3)] ok(2)] by (auto simp: query_report_def query_log_def fun_eq_iff)
  let ?s0 = "query_begin i q s"
  let ?s1 = "?s0\<lparr>qy_run := run_call i q (qy_run ?s0), qy_pc := (qy_pc ?s0)(i := QyRunning q (run_now (qy_run ?s0)))\<rparr>"
  let ?s2 = "?s1\<lparr>qy_run := r'\<rparr>"
  let ?s3 = "?s2\<lparr>qy_pc := (qy_pc ?s2)(i := QyEnded q (run_now r) (run_now (qy_run ?s2)) out)\<rparr>"
  let ?s4 = "?s3\<lparr>qy_pc := (qy_pc ?s3)(i := QyReported q (run_now r) (run_now r') out),
    qy_events := qy_events ?s3 @ map (Pair i) (query_report (qy_run ?s3) (run_now r) (run_now r') out)\<rparr>"
  let ?s5 = "?s4\<lparr>qy_pc := (qy_pc ?s4)(i := QyReturned q (ro_response out) (qerr_error (ro_qerr out))),
    qy_logs := qy_logs ?s4 @ [(i, query_log cd (qy_run ?s4) (run_now r) (run_now r') out)]\<rparr>"
  have 1: "qstep cd ?s0 ?s1" by (rule q_call) simp
  have "?s1\<lparr>qy_run := run_call i q r\<rparr> = ?s1" using s(1) by simp
  then have 2: "(qstep cd)\<^sup>*\<^sup>* ?s1 ?s2" using q_runs [OF assms(4), of ?s1] by (simp only:)
  have 3: "qstep cd ?s2 ?s3" by (rule q_end) (use assms(5) s(1) in simp_all)
  have 4: "qstep cd ?s3 ?s4" by (rule q_report) simp
  have 5: "qstep cd ?s4 ?s5" by (rule q_return) simp
  note st = rtranclp.rtrancl_into_rtrancl [of "qstep cd"]
  have "(qstep cd)\<^sup>*\<^sup>* ?s0 ?s5"
    by (rule st [OF st [OF st [OF rtranclp_trans [of "qstep cd", OF r_into_rtranclp [of "qstep cd", OF 1] 2] 3] 4] 5])
  then show ?thesis
    by (rule exI [of _ ?s5, OF conjI]) (use s same in \<open>simp add: query_begin_def\<close>)
qed

text \<open>
  C22. The queries of one goroutine alone: \<open>Query\<close> of the DoH resolver, as the function that \<open>DohResolver\<close> has, is a run of these steps
  from the moment it is called, with the same response, the same error, the same events and the same line in the log.
\<close>

theorem Query_is_run:
  assumes "id_law cd" and "env_ok env" and "res_ok r" and "Query cd env q r = Some (r', res)"
    and times: "he_before env \<le> he_now1 env" "he_now1 env \<le> he_now2 env" "he_now2 env \<le> he_after env"
      "rv_hangover r \<le> he_before env + hangoverDuration"
  shows "\<exists>s. (qstep cd)\<^sup>*\<^sup>* (query_begin 0 q (query_start (DoH r) (he_before env))) s
    \<and> qy_pc s 0 = QyReturned q (qr_response res) (qr_err res) \<and> qy_events s = map (Pair 0) (qr_events res)
    \<and> qy_logs s = [(0, qr_log res)]"
proof -
  obtain out where out: "doQuery cd env q r = Some (r', out)" and
    res: "res = \<lparr>qr_response = qo_response out, qr_err = qerr_error (qo_qerr out),
       qr_events = (if rv_listener r then OnQuery (rv_url r) #
          (if errIsCancel (qo_qerr out) then [] else [OnResponse (summary_of env out)]) else []),
       qr_log = LogDNSResolverQuery cd ''DoH'' (rv_url r) (qo_q out) (qo_response out)
          (he_before env) (he_after env) (qerr_error (qo_qerr out)) (errIsCancel (qo_qerr out))\<rparr>"
    using assms(4) by (auto simp: Query_def Let_def split: option.splits)
  let ?s0 = "(ov_start r (he_before env))\<lparr>ov_q := (ov_q (ov_start r (he_before env)))(0 := QCalled q)\<rparr>"
  let ?s1 = "?s0\<lparr>ov_now := he_now1 env\<rparr>"
  have 1: "ovstep cd ?s0 ?s1" by (rule ov_tick) (use times in \<open>simp add: ov_start_def\<close>)
  obtain t d where 2: "t \<le> he_now2 env"
      "(ovstep cd)\<^sup>*\<^sup>* ?s1 (?s1\<lparr>ov_now := t, ov_res := r', ov_q := (ov_q ?s1)(0 := QReturned q d out)\<rparr>)"
    using doQuery_run [OF assms(1-3) times(2) out, of ?s1 0] by (auto simp: ov_start_def)
  let ?s2 = "?s1\<lparr>ov_now := t, ov_res := r', ov_q := (ov_q ?s1)(0 := QReturned q d out)\<rparr>"
  let ?s3 = "?s2\<lparr>ov_now := he_after env\<rparr>"
  have 3: "ovstep cd ?s2 ?s3" by (rule ov_tick) (use times 2(1) in simp)
  have run: "(ovstep cd)\<^sup>*\<^sup>* ?s0 ?s3"
    by (rule rtranclp.rtrancl_into_rtrancl [of "ovstep cd", OF converse_rtranclp_into_rtranclp [of "ovstep cd", OF 1 2(2)] 3])
  have 4: "(runstep cd)\<^sup>*\<^sup>* (run_call 0 q (start_run (DoH r) (he_before env))) (DohRun ?s3)"
    unfolding run_call.simps start_run.simps by (rule doh_runs [OF run assms(1)]) (simp split: if_splits)
  have use: "session_usable (cd, DoH r)" using assms(1,3) by (simp add: session_usable_def doh_usable_def)
  have ok: "run_ok cd (DoH r) (start_run (DoH r) (he_before env))"
    by (rule run_ok_start) (use times(4) in \<open>simp add: start_time_def\<close>)
  show ?thesis
    using query_run [OF ok use _ 4, where s = "query_start (DoH r) (he_before env)"]
    by (auto simp: query_start_def res query_asked_def query_report_def query_log_def query_summary_doh ov_start_def)
qed

text \<open>The same of the DoT resolver.\<close>

lemma dot_Query_run:
  assumes "id_law cd" and "tls_env_ok env" and "dot_ok r" and "dot_Query cd env q r = Some (r', res)"
    and times: "te_before env \<le> te_now1 env" "te_now1 env \<le> te_now2 env" "te_now2 env \<le> te_after env"
      "dr_hangover r \<le> te_before env + dot_hangoverDuration"
  shows "\<exists>s. (qstep cd)\<^sup>*\<^sup>* (query_begin 0 q (query_start (DoT r) (te_before env))) s
    \<and> qy_pc s 0 = QyReturned q (dq_response res) (dq_err res) \<and> qy_events s = map (Pair 0) (dq_events res)
    \<and> qy_logs s = [(0, dq_log res)]"
proof -
  obtain out where out: "dot_doQuery cd env q r = Some (r', out)" and
    res: "res = \<lparr>dq_response = to_response out, dq_err = qerr_error (to_qerr out),
       dq_events = (if dr_listener r then OnQuery (dr_url r) #
          (if errIsCancel (to_qerr out) then [] else [OnResponse (dot_summary env out)]) else []),
       dq_log = LogDNSResolverQuery cd ''DoT'' (dr_url r) (to_q out) (to_response out)
          (te_before env) (te_after env) (qerr_error (to_qerr out)) (errIsCancel (to_qerr out))\<rparr>"
    using assms(4) by (auto simp: dot_Query_def Let_def qerr_error_def dot_errIsCancel_def errIsCancel_def split: option.splits)
  let ?s0 = "(dv_start r (te_before env))\<lparr>dv_q := (dv_q (dv_start r (te_before env)))(0 := DCalled q)\<rparr>"
  let ?s1 = "?s0\<lparr>dv_now := te_now1 env\<rparr>"
  have 1: "dovstep cd ?s0 ?s1" by (rule dv_tick) (use times in \<open>simp add: dv_start_def\<close>)
  obtain t where 2: "t \<le> te_now2 env"
      "(dovstep cd)\<^sup>*\<^sup>* ?s1 (?s1\<lparr>dv_now := t, dv_res := r', dv_q := (dv_q ?s1)(0 := DReturned q out)\<rparr>)"
    using dot_doQuery_run [OF assms(1-3) times(2) out, of ?s1 0] by (auto simp: dv_start_def)
  let ?s2 = "?s1\<lparr>dv_now := t, dv_res := r', dv_q := (dv_q ?s1)(0 := DReturned q out)\<rparr>"
  let ?s3 = "?s2\<lparr>dv_now := te_after env\<rparr>"
  have 3: "dovstep cd ?s2 ?s3" by (rule dv_tick) (use times 2(1) in simp)
  have run: "(dovstep cd)\<^sup>*\<^sup>* ?s0 ?s3"
    by (rule rtranclp.rtrancl_into_rtrancl [of "dovstep cd", OF converse_rtranclp_into_rtranclp [of "dovstep cd", OF 1 2(2)] 3])
  have inv: "dv_inv cd ?s0" using assms(3) times(4) by (simp add: dv_inv_def dv_start_def)
  have 4: "(runstep cd)\<^sup>*\<^sup>* (run_call 0 q (start_run (DoT r) (te_before env))) (DotRun ?s3)"
    unfolding run_call.simps start_run.simps by (rule dot_runs [OF run assms(1) inv]) (simp split: if_splits)
  have use: "session_usable (cd, DoT r)" using assms(1,3) by (simp add: session_usable_def dot_usable_def)
  have ok: "run_ok cd (DoT r) (start_run (DoT r) (te_before env))"
    by (rule run_ok_start) (use times(4) in \<open>simp add: start_time_def\<close>)
  show ?thesis
    using query_run [OF ok use _ 4, where s = "query_start (DoT r) (te_before env)"]
    by (auto simp: query_start_def res query_asked_def query_report_def query_log_def query_summary_dot dv_start_def)
qed

subsection \<open>Properties\<close>

text \<open>
  The listener with the calls of all queries, in their order; the token that \<open>OnQuery\<close> gave to a query goes back with its
  \<open>OnResponse\<close>. \<open>java_hears\<close> is what comes out at the other side of the bridge.
\<close>

fun deliver_all :: "('s, 't) doh_Listener \<Rightarrow> (nat \<times> event) list \<Rightarrow> (nat \<rightharpoonup> 't) \<Rightarrow> 's \<Rightarrow> 's" where
  "deliver_all l [] tokens st = st"
| "deliver_all l ((i, OnQuery url) # evs) tokens st =
     (case li_OnQuery l url st of (t, st') \<Rightarrow> deliver_all l evs (tokens(i \<mapsto> t)) st')"
| "deliver_all l ((i, OnResponse s) # evs) tokens st =
     (case tokens i of None \<Rightarrow> deliver_all l evs tokens st
      | Some t \<Rightarrow> deliver_all l evs tokens (li_OnResponse l t s st))"

definition java_hears :: "(duration \<Rightarrow> i64) \<Rightarrow> (nat \<times> event) list \<Rightarrow> (string \<times> i64 \<times> int) list" where
  "java_hears millis evs =
     (case makeInternalDoHListener (Some (jniDoHListener millis)) of
        None \<Rightarrow> [] | Some l \<Rightarrow> deliver_all l evs Map.empty [])"

definition java_call :: "(duration \<Rightarrow> i64) \<Rightarrow> Summary \<Rightarrow> string \<times> i64 \<times> int" where
  "java_call millis s = (extractHostname (sm_Query s), millis (sm_Latency s), DoHStatus (sm_Status s))"

fun heard :: "(duration \<Rightarrow> i64) \<Rightarrow> (nat \<times> event) list \<Rightarrow> (nat \<times> string \<times> i64 \<times> int) list" where
  "heard millis [] = []"
| "heard millis ((i, OnQuery url) # evs) = heard millis evs"
| "heard millis ((i, OnResponse s) # evs) = (i, java_call millis s) # heard millis evs"

lemma deliver_all_heard:
  assumes "\<And>i. tokens i = None \<Longrightarrow> of_query i evs = [] \<or> (\<exists>url es. of_query i evs = OnQuery url # es)"
  shows "deliver_all (dohListenerAdapter (jniDoHListener millis)) evs tokens calls = calls @ map snd (heard millis evs)"
  using assms
proof (induction millis evs arbitrary: tokens calls rule: heard.induct)
  case (2 millis i url evs)
  have "of_query j evs = [] \<or> (\<exists>url es. of_query j evs = OnQuery url # es)" if "(tokens(i \<mapsto> 0)) j = None" for j
    using 2(2) [of j] that by (auto simp: of_query_def split: if_splits)
  then have "deliver_all (dohListenerAdapter (jniDoHListener millis)) evs (tokens(i \<mapsto> 0)) calls = calls @ map snd (heard millis evs)"
    by (intro 2(1)) blast
  then show ?case by (simp add: dohListenerAdapter_def jniDoHListener_def)
next
  case (3 millis i s evs)
  have tok: "tokens i \<noteq> None" using 3(2) [of i] by (auto simp: of_query_def)
  have "of_query j evs = [] \<or> (\<exists>url es. of_query j evs = OnQuery url # es)" if "tokens j = None" for j
    using 3(2) [OF that] tok that by (cases "j = i") (auto simp: of_query_def)
  then have "deliver_all (dohListenerAdapter (jniDoHListener millis)) evs tokens cs = cs @ map snd (heard millis evs)" for cs
    by (intro 3(1)) blast
  then show ?case using tok
    by (auto simp: dohListenerAdapter_def jniDoHListener_def jni_OnResponse_def java_call_def GetQuery_def GetLatency_def
        GetStatus_def)
qed simp

lemma heard_of_query: "filter (\<lambda>(j, x). j = i) (heard millis evs) = heard millis (map (Pair i) (of_query i evs))"
  by (induction millis evs rule: heard.induct) (auto simp: of_query_def)

lemma extractHostname_slice: "extractHostname (put16 0 0 q) = extractHostname q"
  by (simp add: extractHostname_def put16_def)

lemma distinct_by_filter: "(\<And>i. length (filter (\<lambda>h. fst h = i) hs) \<le> 1) \<Longrightarrow> distinct (map fst hs)"
proof (induction hs)
  case (Cons h hs)
  have "filter (\<lambda>x. fst x = fst h) hs = []" using Cons.prems [of "fst h"] by simp
  then have "fst h \<notin> set (map fst hs)" by (auto simp: filter_empty_conv)
  moreover have "length (filter (\<lambda>x. fst x = i) hs) \<le> 1" for i using Cons.prems [of i] by (simp split: if_splits)
  ultimately show ?case using Cons.IH by simp
qed simp

text \<open>
  The times of a query, in the run that leads to \<open>s\<close>: in it query \<open>i\<close> called its \<open>doQuery\<close> at the time \<open>before\<close>; and that
  \<open>doQuery\<close> had returned and the query went on at the time \<open>after\<close>.
\<close>

definition lifestep :: "'x codec \<Rightarrow> query_run \<Rightarrow> query_run \<Rightarrow> bool" where
  "lifestep cd s s' \<longleftrightarrow> qstep cd s s' \<or> (\<exists>i q. qy_pc s i = QyNone \<and> s' = query_begin i q s)"

definition query_called :: "'x codec \<Rightarrow> any_resolver \<Rightarrow> nat \<Rightarrow> bytes \<Rightarrow> gotime \<Rightarrow> query_run \<Rightarrow> bool" where
  "query_called cd r i q before s \<longleftrightarrow> (\<exists>s1 s1'. qreach cd r s1 \<and> qy_pc s1 i = QyBegun q \<and> run_now (qy_run s1) = before
     \<and> qstep cd s1 s1' \<and> qy_pc s1' i = QyRunning q before \<and> (lifestep cd)\<^sup>*\<^sup>* s1' s)"

definition query_timed :: "'x codec \<Rightarrow> any_resolver \<Rightarrow> nat \<Rightarrow> gotime \<Rightarrow> gotime \<Rightarrow> query_run \<Rightarrow> bool" where
  "query_timed cd r i before after s \<longleftrightarrow> (\<exists>s2 s2' q out. query_called cd r i q before s2 \<and> qy_pc s2 i = QyRunning q before
     \<and> run_out (qy_run s2) i = Some out \<and> run_now (qy_run s2) = after
     \<and> qstep cd s2 s2' \<and> qy_pc s2' i = QyEnded q before after out \<and> (lifestep cd)\<^sup>*\<^sup>* s2' s)"

lemma query_times_step:
  assumes "lifestep cd s s'"
  shows "query_called cd r i q before s \<Longrightarrow> query_called cd r i q before s'"
    "query_timed cd r i before after s \<Longrightarrow> query_timed cd r i before after s'"
  using assms rtranclp.rtrancl_into_rtrancl [of "lifestep cd"] unfolding query_called_def query_timed_def by blast+

definition times_inv :: "'x codec \<Rightarrow> any_resolver \<Rightarrow> query_run \<Rightarrow> bool" where
  "times_inv cd r s \<longleftrightarrow> (\<forall>i q before. qy_pc s i = QyRunning q before \<longrightarrow> query_called cd r i q before s)
     \<and> (\<forall>i q before after out. qy_pc s i = QyEnded q before after out \<longrightarrow> query_timed cd r i before after s)
     \<and> (\<forall>i sm. (i, OnResponse sm) \<in> set (qy_events s) \<longrightarrow>
          (\<exists>before after. query_timed cd r i before after s \<and> sm_Latency sm = after - before))"

lemma times_inv_step:
  assumes "qreach cd r s" and "qstep cd s s'" and "times_inv cd r s"
  shows "times_inv cd r s'"
proof -
  have life: "lifestep cd s s'" using assms(2) by (simp add: lifestep_def)
  note keep = query_times_step [OF life]
  have run: "query_called cd r i q before s'" if "qy_pc s i = QyRunning q before" for i q before
    using keep(1) assms(3) that unfolding times_inv_def by blast
  have ended: "query_timed cd r i before after s'" if "qy_pc s i = QyEnded q before after out" for i q before after out
    using keep(2) assms(3) that unfolding times_inv_def by blast
  have old: "\<exists>before after. query_timed cd r i before after s' \<and> sm_Latency sm = after - before"
    if "(i, OnResponse sm) \<in> set (qy_events s)" for i sm
    using keep(2) assms(3) that unfolding times_inv_def by blast
  show ?thesis
    using assms(2)
  proof (cases rule: qstep.cases)
    case (q_call i q)
    have "query_called cd r i q (run_now (qy_run s)) s'"
      unfolding query_called_def
      by (rule exI [of _ s], rule exI [of _ s']) (use assms(1,2) q_call in simp)
    then show ?thesis unfolding times_inv_def using q_call(1) run ended old by (auto split: if_splits)
  next
    case (q_end i q before out)
    have "query_called cd r i q before s" using assms(3) q_end(2) by (simp add: times_inv_def)
    then have "query_timed cd r i before (run_now (qy_run s)) s'"
      unfolding query_timed_def
      by (intro exI [of _ s] exI [of _ s'] exI [of _ q] exI [of _ out]) (use assms(2) q_end in simp)
    then show ?thesis unfolding times_inv_def using q_end(1) run ended old by (auto split: if_splits)
  next
    case (q_report i q before after out)
    have "query_timed cd r i before after s'" by (rule ended [OF q_report(2)])
    then show ?thesis
      unfolding times_inv_def using q_report(1) run ended old
      by (auto simp: query_report_def query_summary_def split: if_splits)
  qed (use run ended old in \<open>auto simp: times_inv_def split: if_splits\<close>)
qed

lemma qreach_times: "qreach cd r s \<Longrightarrow> times_inv cd r s"
proof (induction rule: qreach.induct)
  case (qr_start now)
  show ?case by (simp add: times_inv_def query_start_def)
next
  case (qr_begin s i q)
  then have "lifestep cd s (query_begin i q s)" by (auto simp: lifestep_def)
  note keep = query_times_step [OF this]
  show ?case
    unfolding times_inv_def
  proof (intro conjI allI impI)
    fix j sm
    assume "(j, OnResponse sm) \<in> set (qy_events (query_begin i q s))"
    then have "(j, OnResponse sm) \<in> set (qy_events s)" by (auto simp: query_begin_def query_asked_def split: if_splits)
    then show "\<exists>before after. query_timed cd r j before after (query_begin i q s) \<and> sm_Latency sm = after - before"
      using qr_begin.IH keep(2) unfolding times_inv_def by blast
  qed (use qr_begin.IH keep in \<open>auto simp: times_inv_def split: if_splits\<close>)
qed (blast intro: times_inv_step)

text \<open>The calls for one query.\<close>

lemma heard_query:
  assumes "qreach cd r s" and "session_usable (cd, r)" and "resolver_listener r"
  shows "qy_pc s i = QyReturned q resp e \<Longrightarrow> if cancelled e then heard millis (map (Pair i) (of_query i (qy_events s))) = []
      else \<exists>before after. before \<le> after \<and> query_timed cd r i before after s
        \<and> heard millis (map (Pair i) (of_query i (qy_events s))) = [(i, extractHostname q, millis (after - before), status_of e)]"
    "length (heard millis (map (Pair i) (of_query i (qy_events s)))) \<le> 1"
    "of_query i (qy_events s) = [] \<or> (\<exists>url es. of_query i (qy_events s) = OnQuery url # es)"
proof -
  note inv = qreach_query [OF assms(1,2), of i] and ok = conjunct1 [OF qreach_inv [OF assms(1,2)]]
  have asked: "query_asked (qy_run s) = [OnQuery (resolver_url r)]"
    using qreach_names [OF assms(1,2)] assms(3) by (simp add: query_asked_def)
  show "of_query i (qy_events s) = [] \<or> (\<exists>url es. of_query i (qy_events s) = OnQuery url # es)"
    "length (heard millis (map (Pair i) (of_query i (qy_events s)))) \<le> 1"
    using inv asked by (cases "qy_pc s i"; auto simp: query_report_def)+
  show "if cancelled e then heard millis (map (Pair i) (of_query i (qy_events s))) = []
      else \<exists>before after. before \<le> after \<and> query_timed cd r i before after s
        \<and> heard millis (map (Pair i) (of_query i (qy_events s))) = [(i, extractHostname q, millis (after - before), status_of e)]"
    if ret: "qy_pc s i = QyReturned q resp e"
  proof -
    obtain before after out where out: "run_slot (qy_run s) i = Some q" "run_out (qy_run s) i = Some out" "before \<le> after"
        "of_query i (qy_events s) = query_asked (qy_run s) @ query_report (qy_run s) before after out"
        "e = qerr_error (ro_qerr out)"
      using inv ret by auto
    have "ro_q out = q \<or> ro_q out = put16 0 0 q" by (rule run_out_answer(2) [OF ok assms(2) out(2,1)])
    then have "extractHostname (ro_q out) = extractHostname q" using extractHostname_slice by auto
    moreover have "errIsCancel (ro_qerr out) = cancelled e"
      "DoHStatus (case ro_qerr out of None \<Rightarrow> Complete | Some (st, e) \<Rightarrow> st) = status_of e"
      unfolding out(5) by (auto simp: errIsCancel_def cancelled_def qerr_error_def status_of_def split: option.splits)
    moreover have listening: "run_listener (qy_run s)" using qreach_names [OF assms(1,2)] assms(3) by simp
    moreover have "\<exists>b a. b \<le> a \<and> query_timed cd r i b a s \<and> after - before = a - b" if "\<not> cancelled e"
    proof -
      have "OnResponse (query_summary before after out) \<in> set (of_query i (qy_events s))"
        using that out(4) listening \<open>errIsCancel (ro_qerr out) = cancelled e\<close> by (simp add: query_report_def)
      then have "(i, OnResponse (query_summary before after out)) \<in> set (qy_events s)" by (auto simp: of_query_def)
      then obtain b a where "query_timed cd r i b a s" "sm_Latency (query_summary before after out) = a - b"
        using qreach_times [OF assms(1)] unfolding times_inv_def by blast
      then show ?thesis using out(3) by (intro exI [of _ b] exI [of _ a]) (simp add: query_summary_def)
    qed
    moreover have "sm_Latency (query_summary before after out) = after - before" by (simp add: query_summary_def)
    ultimately show ?thesis
      using out(4) asked by (auto simp: query_report_def java_call_def query_summary_def, blast)
  qed
qed

text \<open>
  C21. Java hears of every query of a resolver exactly once when it is over, however the queries overlap and in whatever
  order their goroutines call the listener: of its name as the client asked for it, its latency and the status of its
  error; of a cancelled query, and of one that is still under way, it hears nothing or has heard once already. The latency is
  the time from the step in which that query called its \<open>doQuery\<close> to the step in which it had the result. This
  holds of DoH and of DoT, and every query that returned has its line in the log.
\<close>

theorem java_hears_each:
  assumes "qreach cd r s" and "session_usable (cd, r)" and "resolver_listener r"
  shows "\<exists>hs. java_hears millis (qy_events s) = map snd hs \<and> distinct (map fst hs)
    \<and> (\<forall>i q resp e. qy_pc s i = QyReturned q resp e \<longrightarrow>
         (if cancelled e then filter (\<lambda>h. fst h = i) hs = []
          else \<exists>before after. before \<le> after \<and> query_timed cd r i before after s
            \<and> filter (\<lambda>h. fst h = i) hs = [(i, extractHostname q, millis (after - before), status_of e)])
         \<and> length (of_query i (qy_logs s)) = 1)"
proof -
  let ?hs = "heard millis (qy_events s)"
  note per = heard_query [OF assms]
  have fil: "filter (\<lambda>h. fst h = i) ?hs = heard millis (map (Pair i) (of_query i (qy_events s)))" for i
    using heard_of_query [of i millis "qy_events s"] by (simp add: case_prod_unfold)
  have "java_hears millis (qy_events s) = map snd ?hs"
    using deliver_all_heard [of Map.empty "qy_events s" millis "[]"] per(3)
    by (simp add: java_hears_def makeInternalDoHListener_def)
  moreover have "distinct (map fst ?hs)"
    by (rule distinct_by_filter) (use per(2) fil in simp)
  moreover have "length (of_query i (qy_logs s)) = 1" if "qy_pc s i = QyReturned q resp e" for i q resp e
    using qreach_query [OF assms(1,2), of i] that by auto
  ultimately show ?thesis using per(1) fil by (intro exI [of _ ?hs]) simp
qed

subsection \<open>Witnesses\<close>

text \<open>The sample resolvers, each with one query that the server answers.\<close>

theorem Query_is_run_witness:
  "\<exists>s r' res. Query sample_codec (sample_env 200 sample_answer) sample_query sample_res = Some (r', res)
    \<and> (qstep sample_codec)\<^sup>*\<^sup>* (query_begin 0 sample_query (query_start (DoH sample_res) 50)) s
    \<and> qy_pc s 0 = QyReturned sample_query (qr_response res) (qr_err res) \<and> qy_events s = map (Pair 0) (qr_events res)"
proof -
  let ?env = "sample_env 200 sample_answer"
  have "doh_ok (sample_codec, \<lambda>n::nat. ?env, sample_res)" using sample_id_law sample_res_ok sample_env_ok by simp
  from doh.query_returns [OF this, of sample_query]
  obtain r' res where q: "Query sample_codec ?env sample_query sample_res = Some (r', res)" by (auto simp: doh_Query_def)
  have t: "he_before ?env = 50" "he_before ?env \<le> he_now1 ?env" "he_now1 ?env \<le> he_now2 ?env" "he_now2 ?env \<le> he_after ?env"
    "rv_hangover sample_res \<le> he_before ?env + hangoverDuration"
    by (simp_all add: sample_env_def sample_res_def hangoverDuration_def second_def)
  from Query_is_run [OF sample_id_law sample_env_ok sample_res_ok q t(2-5)] q t(1) show ?thesis by auto
qed

lemma sample_dot_Query:
  "\<exists>b r' res. dot_Query sample_codec (sample_tls [([0], None), ([4, 0, 0], None), ([1, 2], None)]) sample_query sample_dot = Some (r', res)
    \<and> dq_response res = Some b \<and> dq_err res = None \<and> length b \<le> 4"
proof -
  obtain r' out where run: "dot_doQuery sample_codec (sample_tls [([0], None), ([4, 0, 0], None), ([1, 2], None)]) sample_query sample_dot = Some (r', out)"
      "to_qerr out = None" "to_response out = Some (put16 0 (be16 sample_padded_query) [0, 0, 1, 2])"
    using sample_dot_run [OF sample_answer_read] by (auto simp: be16_def)
  then show ?thesis by (simp add: dot_Query_def Let_def)
qed

lemma sample_dot_returned:
  "\<exists>s b. (qstep sample_codec)\<^sup>*\<^sup>* (query_begin 0 sample_query (query_start (DoT sample_dot) 50)) s
    \<and> qy_pc s 0 = QyReturned sample_query (Some b) None \<and> length b \<le> 4"
proof -
  let ?env = "sample_tls [([0], None), ([4, 0, 0], None), ([1, 2], None)]"
  obtain b r' res where q: "dot_Query sample_codec ?env sample_query sample_dot = Some (r', res)" "dq_response res = Some b"
      "dq_err res = None" "length b \<le> 4"
    using sample_dot_Query by blast
  have t: "te_before ?env = 50" "te_before ?env \<le> te_now1 ?env" "te_now1 ?env \<le> te_now2 ?env" "te_now2 ?env \<le> te_after ?env"
    "dr_hangover sample_dot \<le> te_before ?env + dot_hangoverDuration"
    by (simp_all add: sample_tls_def sample_dot_def dot_hangoverDuration_def second_def)
  from dot_Query_run [OF sample_id_law sample_tls_ok sample_dot_ok q(1) t(2-5)] q(2-4) t(1) show ?thesis by auto
qed

lemma sample_dot_usable: "session_usable (sample_codec, DoT sample_dot)"
  using sample_id_law sample_dot_ok by (simp add: session_usable_def dot_usable_def)

lemma sample_begun: "qreach sample_codec (DoT sample_dot) (query_begin 0 sample_query (query_start (DoT sample_dot) 50))"
  by (rule qr_begin [OF qr_start]) (simp_all add: start_time_def sample_dot_def dot_hangoverDuration_def second_def query_start_def)

text \<open>After the query of the sample resolver.\<close>

theorem java_hears_each_witness:
  "\<forall>millis. \<exists>s b. qreach sample_codec (DoT sample_dot) s \<and> qy_pc s 0 = QyReturned sample_query (Some b) None
    \<and> (\<exists>before after. query_timed sample_codec (DoT sample_dot) 0 before after s
        \<and> (extractHostname sample_query, millis (after - before), 0) \<in> set (java_hears millis (qy_events s)))"
proof (rule allI)
  fix millis
  obtain s b where s: "(qstep sample_codec)\<^sup>*\<^sup>* (query_begin 0 sample_query (query_start (DoT sample_dot) 50)) s"
      "qy_pc s 0 = QyReturned sample_query (Some b) None"
    using sample_dot_returned by blast
  have reach: "qreach sample_codec (DoT sample_dot) s" by (rule qreach_run [OF sample_begun s(1)])
  have "resolver_listener (DoT sample_dot)" by (simp add: sample_dot_def)
  from java_hears_each [OF reach sample_dot_usable this, of millis]
  obtain hs where hs1: "java_hears millis (qy_events s) = map snd hs"
      and all: "\<forall>i q resp e. qy_pc s i = QyReturned q resp e \<longrightarrow>
         (if cancelled e then filter (\<lambda>h. fst h = i) hs = []
          else \<exists>before after. before \<le> after \<and> query_timed sample_codec (DoT sample_dot) i before after s
            \<and> filter (\<lambda>h. fst h = i) hs = [(i, extractHostname q, millis (after - before), status_of e)])
         \<and> length (of_query i (qy_logs s)) = 1"
    by blast
  have hs: "if cancelled None then filter (\<lambda>h. fst h = 0) hs = []
        else \<exists>before after. before \<le> after \<and> query_timed sample_codec (DoT sample_dot) 0 before after s
          \<and> filter (\<lambda>h. fst h = 0) hs = [(0, extractHostname sample_query, millis (after - before), status_of None)]"
    using all s(2) by blast
  have "\<not> cancelled None" "status_of None = 0" by (simp_all add: cancelled_def status_of_def)
  then obtain before after where t: "query_timed sample_codec (DoT sample_dot) 0 before after s"
      "filter (\<lambda>h. fst h = 0) hs = [(0, extractHostname sample_query, millis (after - before), 0)]"
    using hs by auto
  have "(0, extractHostname sample_query, millis (after - before), 0) \<in> set (filter (\<lambda>h. fst h = 0) hs)" unfolding t(2) by simp
  then have "(extractHostname sample_query, millis (after - before), 0) \<in> set (map snd hs)" by force
  then show "\<exists>s b. qreach sample_codec (DoT sample_dot) s \<and> qy_pc s 0 = QyReturned sample_query (Some b) None
    \<and> (\<exists>before after. query_timed sample_codec (DoT sample_dot) 0 before after s
        \<and> (extractHostname sample_query, millis (after - before), 0) \<in> set (java_hears millis (qy_events s)))"
    by (intro exI [of _ s] exI [of _ b] exI [of _ before] exI [of _ after] conjI) (use reach s(2) hs1 t(1) in simp_all)
qed

end
