(* ===== verification/TunnelSystem.thy ===== *)
theory TunnelSystem
  imports QueryRuns
begin

section \<open>A session at work\<close>

text \<open>
  One session with all its DNS clients: any number of TCP flows (\<open>DnsFlow\<close>) and datagrams at once, the resolvers that are
  set for it, one after the other, with all their queries (\<open>QueryRuns\<close>), and \<open>SetDNS\<close> while they run. Nothing is left
  open between the parts: an answer of a flow is the result of a query that this flow began on the resolver it found when it
  was opened, in one history of that resolver which all clients share.
\<close>

subsection \<open>State\<close>

text \<open>
  A flow: the number of its resolver, what the client sends, the flow, and the queries that its goroutines have begun, those
  under way and those that came back, with their numbers on the resolver.
\<close>

record dns_conn =
  dc_dns :: nat
  dc_src :: source
  dc_flow :: dns_flow
  dc_asks :: "(nat \<times> bytes) list"
  dc_done :: "(nat \<times> bytes) list"

text \<open>
  \<open>handleDNS\<close>: not started; before the query, with the datagram that the client sent; in the query with its resolver,
  number and slice; ended, with the query, if there was one, and what was written.
\<close>

datatype dgram = DgNone | DgReading bytes | DgAsking nat nat bytes | DgDone "(nat \<times> nat \<times> bytes) option" "bytes option"

text \<open>
  The resolvers are numbered in the order in which they were set; the two transports know them by number.
  \<open>tn_setting\<close> are the calls of \<open>SetDNS\<close> that have stored into the dialer and not yet into the NAT.
\<close>

record tunnel =
  tn_dns :: "any_resolver list"
  tn_runs :: "query_run list"
  tn_out :: "nat OutboundDialer"
  tn_nat :: "nat UdpNat"
  tn_setting :: "nat list"
  tn_tcp :: "nat \<Rightarrow> dns_conn option"
  tn_udp :: "nat \<Rightarrow> dgram"

definition tunnel_start :: "engine \<Rightarrow> gotime \<Rightarrow> tunnel" where
  "tunnel_start e now = \<lparr>tn_dns = [od_dns (en_outbound e)], tn_runs = [query_start (od_dns (en_outbound e)) now],
     tn_out = \<lparr>od_fakeDNSAddr = od_fakeDNSAddr (en_outbound e), od_dns = 0, od_dialer = od_dialer (en_outbound e),
       od_listener = od_listener (en_outbound e)\<rparr>,
     tn_nat = \<lparr>un_fakeDNSAddr = un_fakeDNSAddr (en_udpNat e), un_dns = 0, un_dialer = un_dialer (en_udpNat e),
       un_listener = un_listener (en_udpNat e)\<rparr>,
     tn_setting = [], tn_tcp = Map.empty, tn_udp = (\<lambda>i. DgNone)\<rparr>"

subsection \<open>Steps\<close>

text \<open>
  With \<open>alone\<close> the calls of \<open>SetDNS\<close> come one after the other. A flow takes steps of its own (\<open>t_flow\<close>); the query of one of
  its goroutines begins (\<open>t_ask\<close>), runs on the resolver (\<open>t_query\<close>) and comes back (\<open>t_answer\<close>).
\<close>

text \<open>A call of \<open>SetDNS\<close> with a new resolver: the dialer's pointer, then the NAT's.\<close>

definition set_dialer :: "any_resolver \<Rightarrow> gotime \<Rightarrow> tunnel \<Rightarrow> tunnel" where
  "set_dialer r now s = s\<lparr>tn_dns := tn_dns s @ [r], tn_runs := tn_runs s @ [query_start r now],
     tn_out := fst (od_SetDNS (Some (length (tn_runs s))) (tn_out s)), tn_setting := tn_setting s @ [length (tn_runs s)]\<rparr>"

definition set_nat :: "nat \<Rightarrow> tunnel \<Rightarrow> tunnel" where
  "set_nat k s = s\<lparr>tn_nat := fst (un_SetDNS (Some k) (tn_nat s)), tn_setting := remove1 k (tn_setting s)\<rparr>"

lemma set_dialer_fields [simp]:
  "tn_dns (set_dialer r now s) = tn_dns s @ [r]" "tn_runs (set_dialer r now s) = tn_runs s @ [query_start r now]"
  "tn_out (set_dialer r now s) = (tn_out s)\<lparr>od_dns := length (tn_runs s)\<rparr>" "tn_nat (set_dialer r now s) = tn_nat s"
  "tn_setting (set_dialer r now s) = tn_setting s @ [length (tn_runs s)]"
  "tn_tcp (set_dialer r now s) = tn_tcp s" "tn_udp (set_dialer r now s) = tn_udp s"
  by (simp_all add: set_dialer_def od_SetDNS_def)

lemma set_nat_fields [simp]:
  "tn_dns (set_nat k s) = tn_dns s" "tn_runs (set_nat k s) = tn_runs s" "tn_out (set_nat k s) = tn_out s"
  "tn_nat (set_nat k s) = (tn_nat s)\<lparr>un_dns := k\<rparr>" "tn_setting (set_nat k s) = remove1 k (tn_setting s)"
  "tn_tcp (set_nat k s) = tn_tcp s" "tn_udp (set_nat k s) = tn_udp s"
  by (simp_all add: set_nat_def un_SetDNS_def)

inductive tstep :: "'x codec \<Rightarrow> bool \<Rightarrow> tunnel \<Rightarrow> tunnel \<Rightarrow> bool" for cd :: "'x codec" and alone :: bool where
  t_set: "made r \<Longrightarrow> start_time r now \<Longrightarrow> (alone \<longrightarrow> tn_setting s = []) \<Longrightarrow> tstep cd alone s (set_dialer r now s)"
| t_set_udp: "k \<in> set (tn_setting s) \<Longrightarrow> tstep cd alone s (set_nat k s)"
| t_open: "tn_tcp s i = None \<Longrightarrow>
     handleTCPForwarder addr port True (\<lambda>d. DialTCP (tn_out s) before res after d tcp) = TcpRelaying (DNSPipe k) \<Longrightarrow>
     newPipeConn False False = Inr pipe \<Longrightarrow>
     tstep cd alone s (s\<lparr>tn_tcp := (tn_tcp s)(i \<mapsto> \<lparr>dc_dns = k, dc_src = src, dc_flow = dns_flow_start duplex src pipe,
       dc_asks = [], dc_done = []\<rparr>)\<rparr>)"
| t_flow: "tn_tcp s i = Some c \<Longrightarrow> dfstep (\<lambda>q resp e. False) (dc_flow c) f \<Longrightarrow>
     tstep cd alone s (s\<lparr>tn_tcp := (tn_tcp s)(i \<mapsto> c\<lparr>dc_flow := f\<rparr>)\<rparr>)"
| t_ask: "tn_tcp s i = Some c \<Longrightarrow> tn_runs s ! dc_dns c = r \<Longrightarrow> qy_pc r j = QyNone \<Longrightarrow>
     count_list (map snd (dc_asks c)) q < count_list (df_jobs (dc_flow c)) (JQuery q) \<Longrightarrow>
     tstep cd alone s (s\<lparr>tn_runs := (tn_runs s)[dc_dns c := query_begin j q r],
       tn_tcp := (tn_tcp s)(i \<mapsto> c\<lparr>dc_asks := dc_asks c @ [(j, q)]\<rparr>)\<rparr>)"
| t_query: "k < length (tn_runs s) \<Longrightarrow> qstep cd (tn_runs s ! k) r \<Longrightarrow>
     tstep cd alone s (s\<lparr>tn_runs := (tn_runs s)[k := r]\<rparr>)"
| t_answer: "tn_tcp s i = Some c \<Longrightarrow> dc_asks c = xs @ (j, q) # ys \<Longrightarrow>
     qy_pc (tn_runs s ! dc_dns c) j = QyReturned q resp e \<Longrightarrow> df_jobs (dc_flow c) = us @ JQuery q # vs \<Longrightarrow>
     tstep cd alone s (s\<lparr>tn_tcp := (tn_tcp s)(i \<mapsto> c\<lparr>dc_asks := xs @ ys, dc_done := dc_done c @ [(j, q)],
       dc_flow := (dc_flow c)\<lparr>df_jobs := us @ JWrite q resp e # vs\<rparr>\<rparr>)\<rparr>)"
| t_datagram: "tn_udp s i = DgNone \<Longrightarrow> HandleForwarder (tn_nat s) addr port = ToDNS \<Longrightarrow>
     tstep cd alone s (s\<lparr>tn_udp := (tn_udp s)(i := DgReading d)\<rparr>)"
| t_dgram_end: "tn_udp s i = DgReading d \<Longrightarrow> handleDNS (\<lambda>st q. None) () created (d, er) = Some ((), w) \<Longrightarrow>
     tstep cd alone s (s\<lparr>tn_udp := (tn_udp s)(i := DgDone None w)\<rparr>)"
| t_dgram_ask: "tn_udp s i = DgReading d \<Longrightarrow> take 4096 d = q \<Longrightarrow> q \<noteq> [] \<Longrightarrow> un_dns (tn_nat s) = k \<Longrightarrow>
     tn_runs s ! k = r \<Longrightarrow> qy_pc r j = QyNone \<Longrightarrow>
     tstep cd alone s (s\<lparr>tn_runs := (tn_runs s)[k := query_begin j q r], tn_udp := (tn_udp s)(i := DgAsking k j q)\<rparr>)"
| t_dgram_answer: "tn_udp s i = DgAsking k j q \<Longrightarrow> qy_pc (tn_runs s ! k) j = QyReturned q resp e \<Longrightarrow>
     handleDNS (\<lambda>st d. Some ((), resp, e)) () True (q, None) = Some ((), w) \<Longrightarrow>
     tstep cd alone s (s\<lparr>tn_udp := (tn_udp s)(i := DgDone (Some (k, j, q)) w)\<rparr>)"

inductive_cases tstepE: "tstep cd alone s s'"

inductive treach :: "'x codec \<Rightarrow> bool \<Rightarrow> engine \<Rightarrow> tunnel \<Rightarrow> bool" for cd :: "'x codec" and alone :: bool and e :: engine where
  tr_start: "start_time (od_dns (en_outbound e)) now \<Longrightarrow> treach cd alone e (tunnel_start e now)"
| tr_step: "treach cd alone e s \<Longrightarrow> tstep cd alone s s' \<Longrightarrow> treach cd alone e s'"

lemma treach_run: "(tstep cd alone)\<^sup>*\<^sup>* s s' \<Longrightarrow> treach cd alone e s \<Longrightarrow> treach cd alone e s'"
  by (induction rule: rtranclp_induct) (auto intro: tr_step)

subsection \<open>What stays\<close>

text \<open>Resolvers are only added, and a query keeps its slice and its result.\<close>

definition later :: "query_run list \<Rightarrow> query_run list \<Rightarrow> bool" where
  "later rs rs' \<longleftrightarrow> length rs \<le> length rs' \<and> (\<forall>k<length rs. \<forall>j.
     (\<forall>q. pc_query (qy_pc (rs ! k) j) = Some q \<longrightarrow> pc_query (qy_pc (rs' ! k) j) = Some q)
     \<and> (\<forall>q resp e. qy_pc (rs ! k) j = QyReturned q resp e \<longrightarrow> qy_pc (rs' ! k) j = QyReturned q resp e))"

lemma laterD:
  assumes "later rs rs'"
  shows "length rs \<le> length rs'" "k < length rs \<Longrightarrow> k < length rs'"
    "k < length rs \<Longrightarrow> pc_query (qy_pc (rs ! k) j) = Some q \<Longrightarrow> pc_query (qy_pc (rs' ! k) j) = Some q"
    "k < length rs \<Longrightarrow> qy_pc (rs ! k) j = QyReturned q resp e \<Longrightarrow> qy_pc (rs' ! k) j = QyReturned q resp e"
  using assms by (auto simp: later_def)

lemma later_refl: "later rs rs"
  by (simp add: later_def)

lemma later_append: "later rs (rs @ xs)"
  by (simp add: later_def nth_append)

lemma later_upd:
  assumes "\<And>j q. pc_query (qy_pc (rs ! k) j) = Some q \<Longrightarrow> pc_query (qy_pc r j) = Some q"
    and "\<And>j q resp e. qy_pc (rs ! k) j = QyReturned q resp e \<Longrightarrow> qy_pc r j = QyReturned q resp e"
  shows "later rs (rs[k := r])"
  using assms by (cases "k < length rs") (auto simp: later_def nth_list_update)

lemma later_begin: "qy_pc (rs ! k) j = QyNone \<Longrightarrow> later rs (rs[k := query_begin j q (rs ! k)])"
  by (rule later_upd) auto

lemma later_query: "qstep cd (rs ! k) r \<Longrightarrow> later rs (rs[k := r])"
  by (rule later_upd) (simp_all add: qstep_pc)

lemma tstep_later: "tstep cd alone s s' \<Longrightarrow> later (tn_runs s) (tn_runs s')"
  by (induction rule: tstep.induct) (auto intro: later_refl later_append later_begin later_query)

text \<open>What the flow's goroutines got, and the flow on that.\<close>

definition results :: "query_run list \<Rightarrow> dns_conn \<Rightarrow> answer_rel" where
  "results rs c q resp e \<longleftrightarrow> (\<exists>j. (j, q) \<in> set (dc_done c) \<and> qy_pc (rs ! dc_dns c) j = QyReturned q resp e)"

definition conn_ok :: "query_run list \<Rightarrow> dns_conn \<Rightarrow> bool" where
  "conn_ok rs c \<longleftrightarrow> dc_dns c < length rs \<and> dfreach (results rs c) (dc_src c) (dc_flow c)
     \<and> (\<forall>q. count_list (map snd (dc_asks c)) q \<le> count_list (df_jobs (dc_flow c)) (JQuery q))
     \<and> (\<forall>(j, q)\<in>set (dc_asks c @ dc_done c). pc_query (qy_pc (rs ! dc_dns c) j) = Some q)"

fun dgram_ok :: "query_run list \<Rightarrow> dgram \<Rightarrow> bool" where
  "dgram_ok rs (DgAsking k j q) = (k < length rs \<and> pc_query (qy_pc (rs ! k) j) = Some q)"
| "dgram_ok rs (DgDone (Some (k, j, q)) w) = (k < length rs \<and> (\<exists>resp e. qy_pc (rs ! k) j = QyReturned q resp e
     \<and> (\<forall>b. w = Some b \<longrightarrow> resp = Some b \<and> e = None)))"
| "dgram_ok rs (DgDone None w) = (w = None)"
| "dgram_ok rs d = True"

lemma dfstep_mono: "dfstep R f f' \<Longrightarrow> (\<And>q resp e. R q resp e \<Longrightarrow> R' q resp e) \<Longrightarrow> dfstep R' f f'"
  by (induction rule: dfstep.induct) (blast intro: dfstep.intros)+

lemma dfreach_mono: "dfreach R src f \<Longrightarrow> (\<And>q resp e. R q resp e \<Longrightarrow> R' q resp e) \<Longrightarrow> dfreach R' src f"
  by (induction rule: dfreach.induct) (blast intro: dfreach.intros dfstep_mono)+

lemma conn_ok_later:
  assumes "conn_ok rs c" and "later rs rs'"
  shows "conn_ok rs' c"
proof -
  have "results rs c q resp e \<Longrightarrow> results rs' c q resp e" for q resp e
    using assms unfolding conn_ok_def results_def later_def by blast
  then have "dfreach (results rs' c) (dc_src c) (dc_flow c)"
    using dfreach_mono [of "results rs c"] assms(1) unfolding conn_ok_def by blast
  then show ?thesis using assms(1) laterD [OF assms(2)] by (fastforce simp: conn_ok_def)
qed

lemma dgram_ok_later: "dgram_ok rs d \<Longrightarrow> later rs rs' \<Longrightarrow> dgram_ok rs' d"
  by (cases "(rs, d)" rule: dgram_ok.cases) (fastforce simp: later_def)+

text \<open>The queries that a flow (\<open>Inl\<close>) or a datagram (\<open>Inr\<close>) has begun: resolver and number.\<close>

definition client_queries :: "tunnel \<Rightarrow> nat + nat \<Rightarrow> (nat \<times> nat) list" where
  "client_queries s w = (case w of
     Inl i \<Rightarrow> (case tn_tcp s i of None \<Rightarrow> [] | Some c \<Rightarrow> map (\<lambda>(j, q). (dc_dns c, j)) (dc_asks c @ dc_done c))
   | Inr i \<Rightarrow> (case tn_udp s i of DgAsking k j q \<Rightarrow> [(k, j)] | DgDone (Some (k, j, q)) x \<Rightarrow> [(k, j)] | _ \<Rightarrow> []))"

definition queries_apart :: "tunnel \<Rightarrow> bool" where
  "queries_apart s \<longleftrightarrow> (\<forall>w. distinct (client_queries s w)) \<and> (\<forall>w w'. w \<noteq> w' \<longrightarrow> set (client_queries s w) \<inter> set (client_queries s w') = {})"

definition runs_ok :: "'x codec \<Rightarrow> any_resolver list \<Rightarrow> query_run list \<Rightarrow> bool" where
  "runs_ok cd ds rs \<longleftrightarrow> length ds = length rs \<and> (\<forall>k<length rs. session_usable (cd, ds ! k) \<and> qreach cd (ds ! k) (rs ! k))"

definition tunnel_inv :: "'x codec \<Rightarrow> tunnel \<Rightarrow> bool" where
  "tunnel_inv cd s \<longleftrightarrow> runs_ok cd (tn_dns s) (tn_runs s) \<and> od_dns (tn_out s) < length (tn_runs s)
     \<and> un_dns (tn_nat s) < length (tn_runs s) \<and> (\<forall>k\<in>set (tn_setting s). k < length (tn_runs s))
     \<and> (\<forall>i c. tn_tcp s i = Some c \<longrightarrow> conn_ok (tn_runs s) c) \<and> (\<forall>i. dgram_ok (tn_runs s) (tn_udp s i)) \<and> queries_apart s"

text \<open>Each part of the invariant under the steps.\<close>

lemma runs_ok_upd: "runs_ok cd ds rs \<Longrightarrow> (k < length rs \<Longrightarrow> qreach cd (ds ! k) r) \<Longrightarrow> runs_ok cd ds (rs[k := r])"
  by (cases "k < length rs") (auto simp: runs_ok_def nth_list_update)

lemma runs_ok_begin:
  "runs_ok cd ds rs \<Longrightarrow> qy_pc (rs ! k) j = QyNone \<Longrightarrow> runs_ok cd ds (rs[k := query_begin j q (rs ! k)])"
  by (rule runs_ok_upd) (auto simp: runs_ok_def intro: qr_begin)

lemma runs_ok_query: "runs_ok cd ds rs \<Longrightarrow> qstep cd (rs ! k) r \<Longrightarrow> runs_ok cd ds (rs[k := r])"
  by (rule runs_ok_upd) (auto simp: runs_ok_def intro: qr_step)

lemma runs_ok_append:
  "runs_ok cd ds rs \<Longrightarrow> made d \<Longrightarrow> id_law cd \<Longrightarrow> start_time d now \<Longrightarrow> runs_ok cd (ds @ [d]) (rs @ [query_start d now])"
  using made_usable qr_start by (auto simp: runs_ok_def nth_append less_Suc_eq)

lemma tunnel_runs_step:
  assumes "tstep cd alone s s'" and "tunnel_inv cd s" and "id_law cd"
  shows "runs_ok cd (tn_dns s') (tn_runs s') \<and> od_dns (tn_out s') < length (tn_runs s')
    \<and> un_dns (tn_nat s') < length (tn_runs s') \<and> (\<forall>k\<in>set (tn_setting s'). k < length (tn_runs s'))"
proof -
  have runs: "runs_ok cd (tn_dns s) (tn_runs s)" using assms(2) by (simp add: tunnel_inv_def)
  show ?thesis
    using assms(1)
  proof (cases rule: tstep.cases)
    case (t_set r now)
    then show ?thesis
      using assms(2) runs_ok_append [OF runs t_set(2) assms(3) t_set(3)]
      by (auto simp: tunnel_inv_def)
  next
    case (t_set_udp k)
    then show ?thesis using assms(2) by (auto simp: tunnel_inv_def un_SetDNS_def dest: notin_set_remove1)
  next
    case (t_ask i c r j q)
    then show ?thesis
      using assms(2) runs_ok_begin [OF runs, of "dc_dns c" j q] by (auto simp: tunnel_inv_def)
  next
    case (t_query k r)
    then show ?thesis
      using assms(2) runs_ok_query [OF runs, of k r] by (auto simp: tunnel_inv_def)
  next
    case (t_dgram_ask i d q k r j)
    then show ?thesis
      using assms(2) runs_ok_begin [OF runs, of k j q] by (auto simp: tunnel_inv_def)
  qed (use assms(2) in \<open>auto simp: tunnel_inv_def\<close>)
qed

lemma DialTCP_pipe:
  "handleTCPForwarder addr port True (\<lambda>d. DialTCP od before res after d tcp) = TcpRelaying (DNSPipe k) \<Longrightarrow> k = od_dns od"
  by (auto simp: handleTCPForwarder_def DialTCP_def split: option.splits sum.splits if_splits prod.splits)

text \<open>What a step of the flow's own leaves: the queries that wait.\<close>

lemma dfstep_waiting:
  assumes "dfstep (\<lambda>q resp e. False) f f'"
  shows "count_list (df_jobs f) (JQuery q) \<le> count_list (df_jobs f') (JQuery q)"
  using assms by (cases rule: dfstep.cases) (auto simp: start_job_def check_job_def)

lemma conn_ok_flow:
  assumes "conn_ok rs c" and "dfstep (\<lambda>q resp e. False) (dc_flow c) f"
  shows "conn_ok rs (c\<lparr>dc_flow := f\<rparr>)"
proof -
  have "results rs (c\<lparr>dc_flow := f\<rparr>) = results rs c" by (simp add: results_def fun_eq_iff)
  moreover have "dfreach (results rs c) (dc_src c) f"
    using assms dr_step dfstep_mono [OF assms(2), of "results rs c"] by (auto simp: conn_ok_def)
  ultimately show ?thesis
    using assms(1) dfstep_waiting [OF assms(2)] by (fastforce simp: conn_ok_def intro: order_trans)
qed

lemma conn_ok_ask:
  assumes "conn_ok rs c" and "later rs rs'" and "pc_query (qy_pc (rs' ! dc_dns c) j) = Some q"
    and "count_list (map snd (dc_asks c)) q < count_list (df_jobs (dc_flow c)) (JQuery q)"
  shows "conn_ok rs' (c\<lparr>dc_asks := dc_asks c @ [(j, q)]\<rparr>)"
proof -
  have "results rs' (c\<lparr>dc_asks := dc_asks c @ [(j, q)]\<rparr>) = results rs' c" by (simp add: results_def fun_eq_iff)
  then show ?thesis using conn_ok_later [OF assms(1,2)] assms(3,4) by (auto simp: conn_ok_def)
qed

lemma conn_ok_answer:
  assumes "conn_ok rs c" and "dc_asks c = xs @ (j, q) # ys" and "qy_pc (rs ! dc_dns c) j = QyReturned q resp e"
    and "df_jobs (dc_flow c) = us @ JQuery q # vs"
  shows "conn_ok rs (c\<lparr>dc_asks := xs @ ys, dc_done := dc_done c @ [(j, q)],
    dc_flow := (dc_flow c)\<lparr>df_jobs := us @ JWrite q resp e # vs\<rparr>\<rparr>)" (is "conn_ok rs ?c")
proof -
  have mono: "results rs c p x y \<Longrightarrow> results rs ?c p x y" for p x y by (auto simp: results_def)
  have "results rs ?c q resp e" using assms(3) by (auto simp: results_def)
  then have "dfstep (results rs ?c) (dc_flow c) (dc_flow ?c)"
    using g_query [OF assms(4), of "results rs ?c" resp e] by simp
  moreover have "dfreach (results rs ?c) (dc_src c) (dc_flow c)"
    using dfreach_mono [OF _ mono] assms(1) by (auto simp: conn_ok_def)
  ultimately have "dfreach (results rs ?c) (dc_src ?c) (dc_flow ?c)" using dr_step by simp
  moreover have "count_list (map snd (xs @ ys)) p \<le> count_list (us @ JWrite q resp e # vs) (JQuery p)" for p
    using assms(1,2,4) by (auto simp: conn_ok_def dest!: spec [of _ p] split: if_splits)
  ultimately show ?thesis using assms(1,2) by (auto simp: conn_ok_def)
qed

lemma tunnel_conns_step:
  assumes "tstep cd alone s s'" and "tunnel_inv cd s" and "tn_tcp s' i = Some c"
  shows "conn_ok (tn_runs s') c"
proof -
  have old: "conn_ok (tn_runs s) d" if "tn_tcp s k = Some d" for k d using assms(2) that by (auto simp: tunnel_inv_def)
  note later = tstep_later [OF assms(1)]
  note old' = conn_ok_later [OF old later]
  show ?thesis
    using assms(1)
  proof (cases rule: tstep.cases)
    case (t_open j addr port before res after tcp k pipe src duplex)
    have "k < length (tn_runs s)" using DialTCP_pipe [OF t_open(3)] assms(2) by (simp add: tunnel_inv_def)
    then have "conn_ok (tn_runs s) \<lparr>dc_dns = k, dc_src = src, dc_flow = dns_flow_start duplex src pipe, dc_asks = [], dc_done = []\<rparr>"
      using dr_start [OF t_open(4)] by (simp add: conn_ok_def dns_flow_start_def)
    then show ?thesis using t_open(1) assms(3) old by (auto split: if_splits)
  next
    case (t_flow j d f)
    then show ?thesis using conn_ok_flow [OF old [OF t_flow(2)] t_flow(3)] old assms(3) by (auto split: if_splits)
  next
    case (t_ask j d r m q)
    have "dc_dns d < length (tn_runs s)" using old [OF t_ask(2)] by (simp add: conn_ok_def)
    then have "conn_ok (tn_runs s') (d\<lparr>dc_asks := dc_asks d @ [(m, q)]\<rparr>)"
      using t_ask(1) by (intro conn_ok_ask [OF old [OF t_ask(2)] later _ t_ask(5)]) simp
    then show ?thesis using t_ask(1) assms(3) old' by (auto split: if_splits)
  next
    case (t_answer j d xs m q ys resp e us vs)
    then show ?thesis
      using conn_ok_answer [OF old [OF t_answer(2)] t_answer(3-5)] old assms(3) by (auto split: if_splits)
  qed (use old' assms(3) in auto)
qed

lemma handleDNS_answer:
  "handleDNS (\<lambda>st d. Some ((), resp, e)) () True (q, None) = Some ((), w) \<Longrightarrow> w = Some b \<Longrightarrow> resp = Some b \<and> e = None"
  by (auto simp: handleDNS_def the_bytes_def split: if_splits option.splits)

lemma handleDNS_no_query: "handleDNS (\<lambda>st q. None) () created rd = Some ((), w) \<Longrightarrow> w = None"
  by (auto simp: handleDNS_def Let_def split: if_splits prod.splits)

lemma tunnel_dgrams_step:
  assumes "tstep cd alone s s'" and "tunnel_inv cd s"
  shows "dgram_ok (tn_runs s') (tn_udp s' i)"
proof -
  have old: "dgram_ok (tn_runs s) (tn_udp s k)" for k using assms(2) by (simp add: tunnel_inv_def)
  note old' = dgram_ok_later [OF old tstep_later [OF assms(1)]]
  show ?thesis
    using assms(1)
  proof (cases rule: tstep.cases)
    case (t_dgram_end j d created er w)
    then show ?thesis using old' [of i] handleDNS_no_query [OF t_dgram_end(3)] by simp
  next
    case (t_dgram_ask j d q k r m)
    have "k < length (tn_runs s)" using t_dgram_ask(5) assms(2) by (simp add: tunnel_inv_def)
    then show ?thesis using old' [of i] t_dgram_ask(1) by simp
  next
    case (t_dgram_answer j k m q resp e w)
    have "k < length (tn_runs s)" using old [of j] t_dgram_answer(2) by simp
    moreover have "\<forall>b. w = Some b \<longrightarrow> resp = Some b \<and> e = None" using handleDNS_answer [OF t_dgram_answer(4)] by blast
    ultimately show ?thesis using old' [of i] t_dgram_answer(1,3) by auto
  qed (use old' [of i] in auto)
qed

text \<open>The queries of the clients stay apart: a new one has a number that no one has.\<close>

lemma client_queries_begun:
  assumes "tunnel_inv cd s" and "(k, j) \<in> set (client_queries s w)"
  shows "qy_pc (tn_runs s ! k) j \<noteq> QyNone"
proof (cases w)
  case (Inl i)
  then obtain c where c: "tn_tcp s i = Some c" using assms(2) by (cases "tn_tcp s i") (auto simp: client_queries_def)
  then obtain q where q: "k = dc_dns c" "(j, q) \<in> set (dc_asks c @ dc_done c)" using assms(2) Inl by (auto simp: client_queries_def)
  have "conn_ok (tn_runs s) c" using assms(1) c by (simp add: tunnel_inv_def)
  then show ?thesis using q by (force simp: conn_ok_def)
next
  case (Inr i)
  have "dgram_ok (tn_runs s) (tn_udp s i)" using assms(1) by (simp add: tunnel_inv_def)
  then show ?thesis using assms(2) Inr by (auto simp: client_queries_def split: dgram.splits option.splits)
qed

lemma queries_apart_new:
  assumes "queries_apart s" and "\<And>w. p \<notin> set (client_queries s w)" and "\<And>w. w \<noteq> v \<Longrightarrow> client_queries s' w = client_queries s w"
    and "mset (client_queries s' v) = mset (p # client_queries s v)"
  shows "queries_apart s'"
proof -
  have v: "distinct (client_queries s' v)" "set (client_queries s' v) = insert p (set (client_queries s v))"
    using mset_eq_setD [OF assms(4)] mset_eq_imp_distinct_iff [OF assms(4)] assms(1,2) by (auto simp: queries_apart_def)
  have "set (client_queries s' w) \<inter> set (client_queries s' w') = {}" if "w \<noteq> w'" for w w'
    using that v(2) assms(1-3) by (cases "w = v"; cases "w' = v") (auto simp: queries_apart_def)
  moreover have "distinct (client_queries s' w)" for w
    using v(1) assms(1,3) by (cases "w = v") (auto simp: queries_apart_def)
  ultimately show ?thesis by (simp add: queries_apart_def)
qed

lemma queries_apart_perm: "queries_apart s \<Longrightarrow> (\<And>w. mset (client_queries s' w) = mset (client_queries s w)) \<Longrightarrow> queries_apart s'"
  unfolding queries_apart_def using mset_eq_setD mset_eq_imp_distinct_iff by metis

lemma tunnel_queries_step:
  assumes "tstep cd alone s s'" and "tunnel_inv cd s"
  shows "queries_apart s'"
proof -
  have ok: "queries_apart s" using assms(2) by (simp add: tunnel_inv_def)
  note begun = client_queries_begun [OF assms(2)]
  show ?thesis
    using assms(1)
  proof (cases rule: tstep.cases)
    case (t_ask i c r j q)
    have new: "(dc_dns c, j) \<notin> set (client_queries s w)" for w using begun t_ask(3,4) by blast
    have "client_queries s' w = client_queries s w" if "w \<noteq> Inl i" for w using that t_ask(1) by (cases w) (auto simp: client_queries_def)
    moreover have "mset (client_queries s' (Inl i)) = mset ((dc_dns c, j) # client_queries s (Inl i))" using t_ask(1,2) by (simp add: client_queries_def)
    ultimately show ?thesis using queries_apart_new [OF ok new, of "Inl i" s'] by blast
  next
    case (t_dgram_ask i d q k r j)
    have new: "(k, j) \<notin> set (client_queries s w)" for w using begun t_dgram_ask(6,7) by blast
    have "client_queries s' w = client_queries s w" if "w \<noteq> Inr i" for w using that t_dgram_ask(1) by (cases w) (auto simp: client_queries_def)
    moreover have "mset (client_queries s' (Inr i)) = mset ((k, j) # client_queries s (Inr i))" using t_dgram_ask(1,2) by (simp add: client_queries_def)
    ultimately show ?thesis using queries_apart_new [OF ok new, of "Inr i" s'] by blast
  qed (auto intro!: queries_apart_perm [OF ok] simp: client_queries_def split: sum.splits option.splits dgram.splits)
qed

lemma tunnel_inv_step: "tstep cd alone s s' \<Longrightarrow> tunnel_inv cd s \<Longrightarrow> id_law cd \<Longrightarrow> tunnel_inv cd s'"
  unfolding tunnel_inv_def [of cd s'] using tunnel_runs_step tunnel_conns_step tunnel_dgrams_step tunnel_queries_step by blast

lemma tunnel_inv_start:
  assumes "session_usable (cd, od_dns (en_outbound e))" and "start_time (od_dns (en_outbound e)) now"
  shows "tunnel_inv cd (tunnel_start e now)"
  using assms by (auto simp: tunnel_inv_def tunnel_start_def runs_ok_def queries_apart_def client_queries_def intro: qr_start split: sum.splits)

lemma treach_inv: "treach cd alone e s \<Longrightarrow> session_usable (cd, od_dns (en_outbound e)) \<Longrightarrow> id_law cd \<Longrightarrow> tunnel_inv cd s"
  by (induction rule: treach.induct) (auto intro: tunnel_inv_start tunnel_inv_step)

subsection \<open>Everything can come to its end\<close>

lemma t_queries:
  assumes "(qstep cd)\<^sup>*\<^sup>* (tn_runs s ! k) r" and "k < length (tn_runs s)"
  shows "(tstep cd alone)\<^sup>*\<^sup>* s (s\<lparr>tn_runs := (tn_runs s)[k := r]\<rparr>)"
  using assms(1)
proof (induction rule: rtranclp_induct)
  case (step t u)
  let ?s = "s\<lparr>tn_runs := (tn_runs s)[k := t]\<rparr>"
  have "tstep cd alone ?s (?s\<lparr>tn_runs := (tn_runs ?s)[k := u]\<rparr>)"
    by (rule t_query) (use assms(2) step.hyps(2) in simp_all)
  then show ?case using rtranclp.rtrancl_into_rtrancl [of "tstep cd alone", OF step.IH] by simp
qed simp

text \<open>A query that was begun can come back, with nothing else changed.\<close>

lemma query_comes_back:
  assumes "runs_ok cd (tn_dns s) (tn_runs s)" and "k < length (tn_runs s)" and "pc_query (qy_pc (tn_runs s ! k) j) = Some q"
  obtains r resp e where "(tstep cd alone)\<^sup>*\<^sup>* s (s\<lparr>tn_runs := (tn_runs s)[k := r]\<rparr>)" "qy_pc r j = QyReturned q resp e"
proof -
  have "comes_back cd j q (tn_runs s ! k)"
    using comes_back_all [OF _ _ assms(3), of cd "tn_dns s ! k"] assms(1,2) by (simp add: runs_ok_def)
  then show ?thesis using that t_queries [OF _ assms(2)] unfolding comes_back_def by metis
qed

lemma dfstep_own: "dfstep R f f' \<Longrightarrow> dfstep (\<lambda>q resp e. False) f f' \<or> (\<exists>us q vs. df_jobs f = us @ JQuery q # vs)"
  by (induction rule: dfstep.induct) (blast intro: dfstep.intros)+

lemma ask_answered:
  assumes "tunnel_inv cd s" and c: "tn_tcp s i = Some c" and "(j, q) \<in> set (dc_asks c)"
  shows "\<exists>s' c'. (tstep cd alone)\<^sup>*\<^sup>* s s' \<and> tn_tcp s' i = Some c' \<and> dns_flow_work (dc_flow c') < dns_flow_work (dc_flow c)
    \<and> dc_done c' = dc_done c @ [(j, q)]"
proof -
  have ok: "conn_ok (tn_runs s) c" "runs_ok cd (tn_dns s) (tn_runs s)" using assms(1) c by (auto simp: tunnel_inv_def)
  have k: "dc_dns c < length (tn_runs s)" "pc_query (qy_pc (tn_runs s ! dc_dns c) j) = Some q"
    using ok(1) assms(3) by (auto simp: conn_ok_def)
  obtain r resp e where r: "(tstep cd alone)\<^sup>*\<^sup>* s (s\<lparr>tn_runs := (tn_runs s)[dc_dns c := r]\<rparr>)" "qy_pc r j = QyReturned q resp e"
    using query_comes_back [OF ok(2) k] by metis
  let ?t = "s\<lparr>tn_runs := (tn_runs s)[dc_dns c := r]\<rparr>"
  obtain xs ys where asks: "dc_asks c = xs @ (j, q) # ys" using split_list [OF assms(3)] by blast
  have "0 < count_list (map snd (dc_asks c)) q" using asks by simp
  then have "0 < count_list (df_jobs (dc_flow c)) (JQuery q)" using ok(1) less_le_trans unfolding conn_ok_def by blast
  then have "JQuery q \<in> set (df_jobs (dc_flow c))" by (metis count_list_0_iff less_irrefl)
  then obtain us vs where jobs: "df_jobs (dc_flow c) = us @ JQuery q # vs" using split_list by metis
  have st: "tstep cd alone ?t (?t\<lparr>tn_tcp := (tn_tcp ?t)(i \<mapsto> c\<lparr>dc_asks := xs @ ys, dc_done := dc_done c @ [(j, q)],
       dc_flow := (dc_flow c)\<lparr>df_jobs := us @ JWrite q resp e # vs\<rparr>\<rparr>)\<rparr>)"
    by (rule t_answer [OF _ asks _ jobs]) (use c r(2) k(1) in simp_all)
  have "dns_flow_work ((dc_flow c)\<lparr>df_jobs := us @ JWrite q resp e # vs\<rparr>) < dns_flow_work (dc_flow c)"
    using dfstep_work [OF g_query [OF jobs, of "\<lambda>q resp e. True" resp e]] by simp
  then show ?thesis using rtranclp.rtrancl_into_rtrancl [of "tstep cd alone", OF r(1) st] by (intro exI conjI) auto
qed

lemma flow_moves:
  assumes "tunnel_inv cd s" and "id_law cd" and c: "tn_tcp s i = Some c" and "\<not> dns_flow_over (dc_flow c)"
  shows "\<exists>s' c'. (tstep cd alone)\<^sup>*\<^sup>* s s' \<and> tn_tcp s' i = Some c' \<and> dns_flow_work (dc_flow c') < dns_flow_work (dc_flow c)"
proof -
  have ok: "conn_ok (tn_runs s) c" and runs: "runs_ok cd (tn_dns s) (tn_runs s)" using assms(1) c by (auto simp: tunnel_inv_def)
  let ?p = "(cd, tn_dns s ! dc_dns c)" and ?r = "tn_runs s ! dc_dns c"
  have use: "session_usable ?p" "qreach cd (tn_dns s ! dc_dns c) ?r" using ok runs by (auto simp: runs_ok_def conn_ok_def)
  have "dfreach (session_answers ?p) (dc_src c) (dc_flow c)"
    using ok qreach_answer [OF use(2,1)] by (auto simp: conn_ok_def results_def elim!: dfreach_mono)
  then obtain f' where f': "dfstep (session_answers ?p) (dc_flow c) f'"
    using session_pending.dns_flow_moves [OF use(1)] assms(4) by blast
  show ?thesis
  proof (cases "dfstep (\<lambda>q resp e. False) (dc_flow c) f'")
    case True
    have "dns_flow_work f' < dns_flow_work (dc_flow c)" by (rule dfstep_work [OF True])
    then show ?thesis
      using r_into_rtranclp [of "tstep cd alone", OF t_flow [of s i c f' cd alone, OF c True]] by (intro exI conjI) auto
  next
    case False
    then obtain us q vs where jobs: "df_jobs (dc_flow c) = us @ JQuery q # vs" using dfstep_own [OF f'] by blast
    show ?thesis
    proof (cases "\<exists>j. (j, q) \<in> set (dc_asks c)")
      case True
      then show ?thesis using ask_answered [OF assms(1) c] by blast
    next
      case False
      then have "count_list (map snd (dc_asks c)) q = 0" by (auto simp: count_list_0_iff)
      then have lt: "count_list (map snd (dc_asks c)) q < count_list (df_jobs (dc_flow c)) (JQuery q)" using jobs by simp
      obtain j where j: "qy_pc ?r j = QyNone" using free_query [OF use(2,1)] by blast
      let ?t = "s\<lparr>tn_runs := (tn_runs s)[dc_dns c := query_begin j q ?r],
        tn_tcp := (tn_tcp s)(i \<mapsto> c\<lparr>dc_asks := dc_asks c @ [(j, q)]\<rparr>)\<rparr>"
      have st: "tstep cd alone s ?t" by (rule t_ask [OF c refl j lt])
      have "\<exists>s' c'. (tstep cd alone)\<^sup>*\<^sup>* ?t s' \<and> tn_tcp s' i = Some c' \<and> dns_flow_work (dc_flow c') < dns_flow_work (dc_flow c)"
        using ask_answered [OF tunnel_inv_step [OF st assms(1,2)], of i "c\<lparr>dc_asks := dc_asks c @ [(j, q)]\<rparr>" j q alone] by auto
      then show ?thesis using converse_rtranclp_into_rtranclp [of "tstep cd alone", OF st] by blast
    qed
  qed
qed

lemma tunnel_inv_run: "(tstep cd alone)\<^sup>*\<^sup>* s s' \<Longrightarrow> tunnel_inv cd s \<Longrightarrow> id_law cd \<Longrightarrow> tunnel_inv cd s'"
  by (induction rule: rtranclp_induct) (auto intro: tunnel_inv_step)

lemma flow_ends:
  assumes "id_law cd"
  shows "tunnel_inv cd s \<Longrightarrow> tn_tcp s i = Some c \<Longrightarrow>
    \<exists>s' c'. (tstep cd alone)\<^sup>*\<^sup>* s s' \<and> tn_tcp s' i = Some c' \<and> dns_flow_over (dc_flow c')"
proof (induction "dns_flow_work (dc_flow c)" arbitrary: s c rule: less_induct)
  case less
  show ?case
  proof (cases "dns_flow_over (dc_flow c)")
    case False
    obtain t d where t: "(tstep cd alone)\<^sup>*\<^sup>* s t" "tn_tcp t i = Some d" "dns_flow_work (dc_flow d) < dns_flow_work (dc_flow c)"
      using flow_moves [OF less.prems(1) assms less.prems(2) False] by blast
    obtain s' c' where "(tstep cd alone)\<^sup>*\<^sup>* t s'" "tn_tcp s' i = Some c'" "dns_flow_over (dc_flow c')"
      using less.hyps [OF t(3) tunnel_inv_run [OF t(1) less.prems(1) assms] t(2)] by blast
    then show ?thesis using rtranclp_trans [of "tstep cd alone", OF t(1)] by blast
  qed (use less.prems in blast)
qed

lemma dgram_ends:
  assumes "tunnel_inv cd s" and d: "tn_udp s i = DgAsking k j q"
  shows "\<exists>s' w. (tstep cd alone)\<^sup>*\<^sup>* s s' \<and> tn_udp s' i = DgDone (Some (k, j, q)) w"
proof -
  have "runs_ok cd (tn_dns s) (tn_runs s)" "dgram_ok (tn_runs s) (tn_udp s i)" using assms(1) by (simp_all add: tunnel_inv_def)
  then have runs: "runs_ok cd (tn_dns s) (tn_runs s)" and k: "k < length (tn_runs s)" "pc_query (qy_pc (tn_runs s ! k) j) = Some q"
    using d by simp_all
  obtain r resp e where r: "(tstep cd alone)\<^sup>*\<^sup>* s (s\<lparr>tn_runs := (tn_runs s)[k := r]\<rparr>)" "qy_pc r j = QyReturned q resp e"
    using query_comes_back [OF runs k] by metis
  obtain w where w: "handleDNS (\<lambda>st d. Some ((), resp, e)) () True (q, None) = Some ((), w)"
    by (cases "handleDNS (\<lambda>st d. Some ((), resp, e)) () True (q, None)") (auto simp: handleDNS_def Let_def split: if_splits)
  let ?t = "s\<lparr>tn_runs := (tn_runs s)[k := r]\<rparr>"
  have st: "tstep cd alone ?t (?t\<lparr>tn_udp := (tn_udp ?t)(i := DgDone (Some (k, j, q)) w)\<rparr>)"
    by (rule t_dgram_answer [OF _ _ w]) (use d r(2) k(1) in simp_all)
  show ?thesis using rtranclp.rtrancl_into_rtrancl [of "tstep cd alone", OF r(1) st] by (intro exI conjI) auto
qed

subsection \<open>Server changes\<close>

text \<open>The resolver of a flow, and the one that a datagram has chosen.\<close>

definition conn_dns :: "tunnel \<Rightarrow> nat \<Rightarrow> nat option" where
  "conn_dns s i = map_option dc_dns (tn_tcp s i)"

definition dgram_dns :: "tunnel \<Rightarrow> nat \<Rightarrow> nat option" where
  "dgram_dns s i = (case tn_udp s i of DgAsking k j q \<Rightarrow> Some k | DgDone (Some (k, j, q)) w \<Rightarrow> Some k | _ \<Rightarrow> None)"

text \<open>
  What a run from \<open>s\<close> can come to: a new flow has the dialer's resolver, which is that of \<open>s\<close> or one set since; the NAT's may
  also be one whose \<open>SetDNS\<close> was under way in \<open>s\<close>. Who has a resolver keeps it.
\<close>

definition since :: "tunnel \<Rightarrow> nat \<Rightarrow> bool" where
  "since s k \<longleftrightarrow> k \<in> set (tn_setting s) \<or> length (tn_runs s) \<le> k"

definition change_inv :: "tunnel \<Rightarrow> tunnel \<Rightarrow> bool" where
  "change_inv s t \<longleftrightarrow> length (tn_runs s) \<le> length (tn_runs t)
     \<and> (od_dns (tn_out t) = od_dns (tn_out s) \<or> length (tn_runs s) \<le> od_dns (tn_out t))
     \<and> (un_dns (tn_nat t) = un_dns (tn_nat s) \<or> since s (un_dns (tn_nat t))) \<and> (\<forall>k\<in>set (tn_setting t). since s k)
     \<and> (\<forall>i k. conn_dns s i = Some k \<longrightarrow> conn_dns t i = Some k) \<and> (\<forall>i k. dgram_dns s i = Some k \<longrightarrow> dgram_dns t i = Some k)
     \<and> (\<forall>i k. conn_dns s i = None \<longrightarrow> conn_dns t i = Some k \<longrightarrow> k = od_dns (tn_out s) \<or> length (tn_runs s) \<le> k)
     \<and> (\<forall>i k. dgram_dns s i = None \<longrightarrow> dgram_dns t i = Some k \<longrightarrow> k = un_dns (tn_nat s) \<or> since s k)"

lemma change_inv_start: "change_inv s s"
  by (auto simp: change_inv_def since_def)

lemma conn_dns_step:
  "tstep cd alone t u \<Longrightarrow> conn_dns u i = conn_dns t i \<or> conn_dns t i = None \<and> conn_dns u i = Some (od_dns (tn_out t))"
  by (induction rule: tstep.induct) (auto simp: conn_dns_def dest: DialTCP_pipe)

lemma dgram_dns_step:
  "tstep cd alone t u \<Longrightarrow> dgram_dns u i = dgram_dns t i \<or> dgram_dns t i = None \<and> dgram_dns u i = Some (un_dns (tn_nat t))"
  by (induction rule: tstep.induct) (auto simp: dgram_dns_def)

lemma servers_step:
  "tstep cd alone t u \<Longrightarrow> (od_dns (tn_out u) = od_dns (tn_out t) \<or> od_dns (tn_out u) = length (tn_runs t))
     \<and> (un_dns (tn_nat u) = un_dns (tn_nat t) \<or> un_dns (tn_nat u) \<in> set (tn_setting t))
     \<and> set (tn_setting u) \<subseteq> insert (length (tn_runs t)) (set (tn_setting t))"
  by (induction rule: tstep.induct) (auto simp: od_SetDNS_def un_SetDNS_def dest: notin_set_remove1)

lemma change_inv_step:
  assumes "tstep cd alone t u" and "change_inv s t"
  shows "change_inv s u"
proof -
  have len: "length (tn_runs s) \<le> length (tn_runs t)" "length (tn_runs t) \<le> length (tn_runs u)"
    using assms(2) laterD(1) [OF tstep_later [OF assms(1)]] by (simp_all add: change_inv_def)
  then have new: "since s (length (tn_runs t))" by (simp add: since_def)
  note serv = servers_step [OF assms(1)] and conn = conn_dns_step [OF assms(1)] and dg = dgram_dns_step [OF assms(1)]
  have 1: "od_dns (tn_out u) = od_dns (tn_out s) \<or> length (tn_runs s) \<le> od_dns (tn_out u)"
    using serv len assms(2) unfolding change_inv_def by metis
  have 2: "un_dns (tn_nat u) = un_dns (tn_nat s) \<or> since s (un_dns (tn_nat u))"
    using serv assms(2) unfolding change_inv_def by metis
  have 3: "\<forall>k\<in>set (tn_setting u). since s k" using serv new assms(2) by (auto simp: change_inv_def)
  have 4: "conn_dns s i = Some k \<Longrightarrow> conn_dns u i = Some k" for i k
    using conn [of i] assms(2) by (fastforce simp: change_inv_def)
  have 5: "dgram_dns s i = Some k \<Longrightarrow> dgram_dns u i = Some k" for i k
    using dg [of i] assms(2) by (fastforce simp: change_inv_def)
  have 6: "conn_dns s i = None \<Longrightarrow> conn_dns u i = Some k \<Longrightarrow> k = od_dns (tn_out s) \<or> length (tn_runs s) \<le> k" for i k
    using conn [of i] assms(2) unfolding change_inv_def by (metis option.inject)
  have 7: "dgram_dns s i = None \<Longrightarrow> dgram_dns u i = Some k \<Longrightarrow> k = un_dns (tn_nat s) \<or> since s k" for i k
    using dg [of i] assms(2) unfolding change_inv_def by (metis option.inject)
  show ?thesis unfolding change_inv_def using len 1 2 3 4 5 6 7 by simp
qed

lemma change_inv_run: "(tstep cd alone)\<^sup>*\<^sup>* s t \<Longrightarrow> change_inv s t"
  by (induction rule: rtranclp_induct) (auto intro: change_inv_start change_inv_step)

text \<open>With one change at a time the NAT is behind by the change that is under way.\<close>

lemma alone_inv:
  "treach cd True e s \<Longrightarrow> Suc (od_dns (tn_out s)) = length (tn_runs s)
     \<and> (tn_setting s = [] \<and> un_dns (tn_nat s) = od_dns (tn_out s) \<or> tn_setting s = [od_dns (tn_out s)])"
proof (induction rule: treach.induct)
  case (tr_step s s')
  from tr_step.hyps(2) show ?case
    by (cases rule: tstep.cases) (use tr_step.IH in \<open>auto simp: od_SetDNS_def un_SetDNS_def\<close>)
qed (simp add: tunnel_start_def)

text \<open>The engine with the resolvers in the place of their numbers.\<close>

definition tunnel_engine :: "engine \<Rightarrow> tunnel \<Rightarrow> engine" where
  "tunnel_engine e s = e\<lparr>
     en_outbound := \<lparr>od_fakeDNSAddr = od_fakeDNSAddr (tn_out s), od_dns = tn_dns s ! od_dns (tn_out s), od_dialer = od_dialer (tn_out s),
       od_listener = od_listener (tn_out s)\<rparr>,
     en_udpNat := \<lparr>un_fakeDNSAddr = un_fakeDNSAddr (tn_nat s), un_dns = tn_dns s ! un_dns (tn_nat s), un_dialer = un_dialer (tn_nat s),
       un_listener = un_listener (tn_nat s)\<rparr>\<rparr>"

lemma treach_rest:
  "treach cd alone e s \<Longrightarrow> od_fakeDNSAddr (tn_out s) = od_fakeDNSAddr (en_outbound e) \<and> od_dialer (tn_out s) = od_dialer (en_outbound e)
     \<and> od_listener (tn_out s) = od_listener (en_outbound e) \<and> un_fakeDNSAddr (tn_nat s) = un_fakeDNSAddr (en_udpNat e)
     \<and> un_dialer (tn_nat s) = un_dialer (en_udpNat e) \<and> un_listener (tn_nat s) = un_listener (en_udpNat e)
     \<and> (\<exists>rs. tn_dns s = od_dns (en_outbound e) # rs) \<and> length (tn_dns s) = length (tn_runs s)"
proof (induction rule: treach.induct)
  case (tr_step s s')
  from tr_step.hyps(2) show ?case
    by (cases rule: tstep.cases) (use tr_step.IH in auto)
qed (simp add: tunnel_start_def)

lemma treach_engine:
  "treach cd alone e s \<Longrightarrow> tunnel_engine e s = e\<lparr>en_outbound := (en_outbound e)\<lparr>od_dns := tn_dns s ! od_dns (tn_out s)\<rparr>,
       en_udpNat := (en_udpNat e)\<lparr>un_dns := tn_dns s ! un_dns (tn_nat s)\<rparr>\<rparr>"
  using treach_rest [of cd alone e s] by (cases "en_outbound e"; cases "en_udpNat e") (simp add: tunnel_engine_def)

lemma fold_SetDNS:
  assumes "un_dns (en_udpNat e) = od_dns (en_outbound e)"
  shows "fold (\<lambda>r. SetDNS (Some r)) rs e = e\<lparr>en_outbound := (en_outbound e)\<lparr>od_dns := last (od_dns (en_outbound e) # rs)\<rparr>,
    en_udpNat := (en_udpNat e)\<lparr>un_dns := last (od_dns (en_outbound e) # rs)\<rparr>\<rparr>"
proof (induction rs rule: rev_induct)
  case Nil
  show ?case by (simp flip: assms)
qed (simp add: SetDNS_def od_SetDNS_def un_SetDNS_def)

lemma settled_engine:
  assumes "treach cd True e s" and "tn_setting s = []" and "un_dns (en_udpNat e) = od_dns (en_outbound e)"
  shows "tunnel_engine e s = fold (\<lambda>r. SetDNS (Some r)) (tl (tn_dns s)) e"
proof -
  note rest = treach_rest [OF assms(1)] and last = alone_inv [OF assms(1)]
  then obtain rs where rs: "tn_dns s = od_dns (en_outbound e) # rs" by blast
  have "od_dns (tn_out s) = length (tn_dns s) - 1" using conjunct1 [OF last] rest by linarith
  then have "tn_dns s ! od_dns (tn_out s) = last (od_dns (en_outbound e) # rs)" by (simp add: rs last_conv_nth)
  moreover have "un_dns (tn_nat s) = od_dns (tn_out s)" using last assms(2) by simp
  ultimately show ?thesis using treach_engine [OF assms(1)] by (simp add: fold_SetDNS [OF assms(3)] rs)
qed

subsection \<open>Properties\<close>

text \<open>The goroutines of a flow see its resolver as one that answers under the contract of \<open>Overlap\<close>.\<close>

interpretation conn_results: dns_answers "\<lambda>(cd, ds, rs, c). runs_ok cd ds rs \<and> dc_dns c < length rs" "\<lambda>(cd, ds, rs, c). results rs c"
proof unfold_locales
  fix p :: "'x codec \<times> any_resolver list \<times> query_run list \<times> dns_conn" and q resp e b
  obtain cd ds rs c where p: "p = (cd, ds, rs, c)" by (cases p)
  assume use: "case p of (cd, ds, rs, c) \<Rightarrow> runs_ok cd ds rs \<and> dc_dns c < length rs"
  then have use': "session_usable (cd, ds ! dc_dns c)" "qreach cd (ds ! dc_dns c) (rs ! dc_dns c)"
    using p by (simp_all add: runs_ok_def)
  have ans: "session_answers (cd, ds ! dc_dns c) q x y" if "results rs c q x y" for x y
    using that qreach_answer [OF use'(2,1)] by (auto simp: results_def)
  show "\<exists>b. resp = Some b" if "(case p of (cd, ds, rs, c) \<Rightarrow> results rs c) q resp None"
    using that p by (auto intro: session_pending.answer_some [OF use'(1) ans])
  show "2 \<le> length b \<and> 2 \<le> length q \<and> be16 b = be16 q" if "(case p of (cd, ds, rs, c) \<Rightarrow> results rs c) q (Some b) e"
    using that p session_pending.answer_id [OF use'(1) ans] by simp
qed

lemma treach_length: "treach cd alone e s \<Longrightarrow> length (tn_dns s) = length (tn_runs s) \<and> (\<forall>k\<in>set (tn_setting s). k < length (tn_runs s))"
proof (induction rule: treach.induct)
  case (tr_step s s')
  from tr_step.hyps(2) show ?case
    by (cases rule: tstep.cases) (use tr_step.IH in \<open>auto simp: less_Suc_eq dest: notin_set_remove1\<close>)
qed (simp add: tunnel_start_def)

lemma treach_session:
  "exported base b \<Longrightarrow> br_sessions b h = Some e \<Longrightarrow> id_law cd \<Longrightarrow> treach cd alone e s \<Longrightarrow> tunnel_inv cd s"
  using treach_inv session_flow_usable by blast

text \<open>
  C2. DNS over TCP through the whole tunnel. In a session in the table, with any number of flows, datagrams and server changes
  at once, every flow to the fake DNS address gets a first part of a sequence of whole frames, each under the ID of another of
  its queries, which are whole frames from the front of what its client sent. While the pipe is open these are all the
  queries that \<open>Accept\<close> has taken: their frames, and at most a part of the next one, are all that is gone from what the
  client sends; and each of them is answered or with its goroutine, unless a goroutine has failed and is about to close the
  pipe. Each answer is the response that the flow's own goroutine got from a query for these very bytes on the resolver of
  the flow, in the one history of that resolver; no query of a flow is any other client's. When nothing of the flow is
  under way and the pipe is open, all its queries are answered.
\<close>

theorem tunnel_flows:
  assumes "exported base b" and "br_sessions b h = Some e" and "id_law cd" and "treach cd alone e s" and "tn_tcp s i = Some c"
  shows "(\<exists>qs ps. (\<forall>q\<in>set qs. length q < 65536) \<and> prefix (concat (map frame qs)) (src_data (dc_src c))
      \<and> (\<not> pipe_closed (df_pipe (dc_flow c)) \<longrightarrow> accepts (src_data (dc_src c)) qs (dc_flow c))
      \<and> prefix (df_out (dc_flow c)) (concat (map (frame \<circ> snd) ps))
      \<and> (\<forall>(q, r)\<in>set ps. be16 r = be16 q \<and> length r \<le> 65535
           \<and> (\<exists>j err. (dc_dns c, j) \<in> set (client_queries s (Inl i)) \<and> qy_pc (tn_runs s ! dc_dns c) j = QyReturned q (Some r) err))
      \<and> mset (map fst ps) \<subseteq># mset qs
      \<and> (\<not> pipe_closed (df_pipe (dc_flow c)) \<longrightarrow> JClose \<notin> set (df_jobs (dc_flow c))
          \<longrightarrow> mset (map fst ps) + mset (job_queries (df_jobs (dc_flow c))) = mset qs)
      \<and> (dns_quiet (dc_flow c) \<longrightarrow> df_out (dc_flow c) = concat (map (frame \<circ> snd) ps) \<and> mset (map fst ps) = mset qs))
    \<and> qreach cd (tn_dns s ! dc_dns c) (tn_runs s ! dc_dns c) \<and> distinct (client_queries s (Inl i))
    \<and> (\<forall>w. w \<noteq> Inl i \<longrightarrow> set (client_queries s w) \<inter> set (client_queries s (Inl i)) = {})"
proof -
  have inv: "tunnel_inv cd s" by (rule treach_session [OF assms(1-4)])
  have ok: "conn_ok (tn_runs s) c" and runs: "runs_ok cd (tn_dns s) (tn_runs s)" and cl: "queries_apart s"
    using inv assms(5) by (auto simp: tunnel_inv_def)
  have k: "dc_dns c < length (tn_runs s)" and reach: "dfreach (results (tn_runs s) c) (dc_src c) (dc_flow c)"
    using ok by (simp_all add: conn_ok_def)
  have own: "\<exists>j err. (dc_dns c, j) \<in> set (client_queries s (Inl i)) \<and> qy_pc (tn_runs s ! dc_dns c) j = QyReturned q resp err"
    if "results (tn_runs s) c q resp x" for q resp x
    using that assms(5) by (force simp: results_def client_queries_def)
  obtain qs ps where "\<forall>q\<in>set qs. length q < 65536" "prefix (concat (map frame qs)) (src_data (dc_src c))"
      "\<not> pipe_closed (df_pipe (dc_flow c)) \<longrightarrow> accepts (src_data (dc_src c)) qs (dc_flow c)"
      "prefix (df_out (dc_flow c)) (concat (map (frame \<circ> snd) ps))"
      "\<forall>(q, r)\<in>set ps. be16 r = be16 q \<and> length r \<le> 65535 \<and> (\<exists>x. results (tn_runs s) c q (Some r) x)"
      "mset (map fst ps) \<subseteq># mset qs"
      "\<not> pipe_closed (df_pipe (dc_flow c)) \<longrightarrow> JClose \<notin> set (df_jobs (dc_flow c))
        \<longrightarrow> mset (map fst ps) + mset (job_queries (df_jobs (dc_flow c))) = mset qs"
      "dns_quiet (dc_flow c) \<longrightarrow> df_out (dc_flow c) = concat (map (frame \<circ> snd) ps) \<and> mset (map fst ps) = mset qs"
    using conn_results.dns_flow_stream [of "(cd, tn_dns s, tn_runs s, c)" "dc_src c" "dc_flow c"] runs k reach by (simp only: prod.case) blast
  moreover have "qreach cd (tn_dns s ! dc_dns c) (tn_runs s ! dc_dns c)" using runs k by (simp add: runs_ok_def)
  moreover have "distinct (client_queries s (Inl i))" "\<forall>w. w \<noteq> Inl i \<longrightarrow> set (client_queries s w) \<inter> set (client_queries s (Inl i)) = {}"
    using cl by (simp_all add: queries_apart_def)
  ultimately show ?thesis using own by (intro conjI exI [of _ qs] exI [of _ ps]) blast+
qed

text \<open>The step with which a datagram asks: the origin of the query that it has, in the run.\<close>

definition dgram_asked :: "'x codec \<Rightarrow> bool \<Rightarrow> nat \<Rightarrow> nat \<times> nat \<times> bytes \<Rightarrow> tunnel \<Rightarrow> tunnel \<Rightarrow> bool" where
  "dgram_asked cd alone i p s0 s1 \<longleftrightarrow> (case p of (k, j, q) \<Rightarrow> tstep cd alone s0 s1
     \<and> (\<exists>d. tn_udp s0 i = DgReading d \<and> q = take 4096 d) \<and> k = un_dns (tn_nat s0) \<and> qy_pc (tn_runs s0 ! k) j = QyNone
     \<and> tn_udp s1 i = DgAsking k j q)"

lemma dgram_origin:
  "treach cd alone e s \<Longrightarrow> tn_udp s i = DgAsking k j q \<or> tn_udp s i = DgDone (Some (k, j, q)) w \<Longrightarrow>
    \<exists>s0 s1. treach cd alone e s0 \<and> dgram_asked cd alone i (k, j, q) s0 s1 \<and> (tstep cd alone)\<^sup>*\<^sup>* s1 s"
proof (induction arbitrary: w rule: treach.induct)
  case (tr_step s s')
  have old: ?case if "tn_udp s i = DgAsking k j q \<or> tn_udp s i = DgDone (Some (k, j, q)) w" for w
    using tr_step.IH [OF that] tr_step.hyps(2) rtranclp.rtrancl_into_rtrancl [of "tstep cd alone"] by blast
  from tr_step.hyps(2) show ?case
  proof (cases rule: tstep.cases)
    case (t_dgram_ask m d p n r l)
    show ?thesis
    proof (cases "m = i \<and> (n, l, p) = (k, j, q)")
      case True
      then have "dgram_asked cd alone i (k, j, q) s s'"
        using t_dgram_ask tr_step.hyps(2) by (auto simp: dgram_asked_def)
      then show ?thesis using tr_step.hyps(1) by blast
    next
      case False
      then show ?thesis using old [of w] t_dgram_ask(1) tr_step.prems by (auto split: if_splits)
    qed
  next
    case (t_dgram_answer m n l p resp er x)
    then show ?thesis using old tr_step.prems by (auto split: if_splits)
  qed (use old [of w] tr_step.prems in \<open>auto split: if_splits\<close>)
qed (simp add: tunnel_start_def)

text \<open>
  C6. DNS over UDP beside it. What a datagram's client gets is the response, without an error, to a query that its own
  handler began, at one step of the run, on the resolver that the NAT had at that step, with a number that no query of the
  resolver had before, and for the first 4096 bytes of the datagram that the client sent; the response has the query's ID,
  and no other client has that query.
\<close>

theorem tunnel_datagrams:
  assumes "exported base b" and "br_sessions b h = Some e" and "id_law cd" and "treach cd alone e s"
    and "tn_udp s i = DgDone (Some (k, j, q)) (Some r)"
  shows "qy_pc (tn_runs s ! k) j = QyReturned q (Some r) None \<and> 2 \<le> length r \<and> be16 r = be16 q
    \<and> (\<exists>s0 s1 d. treach cd alone e s0 \<and> tstep cd alone s0 s1 \<and> (tstep cd alone)\<^sup>*\<^sup>* s1 s \<and> tn_udp s0 i = DgReading d
        \<and> q = take 4096 d \<and> k = un_dns (tn_nat s0) \<and> qy_pc (tn_runs s0 ! k) j = QyNone \<and> tn_udp s1 i = DgAsking k j q)
    \<and> qreach cd (tn_dns s ! k) (tn_runs s ! k) \<and> (\<forall>w. w \<noteq> Inr i \<longrightarrow> (k, j) \<notin> set (client_queries s w))"
proof -
  have inv: "tunnel_inv cd s" by (rule treach_session [OF assms(1-4)])
  then have "dgram_ok (tn_runs s) (tn_udp s i)" and runs: "runs_ok cd (tn_dns s) (tn_runs s)" and cl: "queries_apart s"
    by (simp_all add: tunnel_inv_def)
  then have k: "k < length (tn_runs s)" and ret: "qy_pc (tn_runs s ! k) j = QyReturned q (Some r) None"
    using assms(5) by auto
  have use: "session_usable (cd, tn_dns s ! k)" "qreach cd (tn_dns s ! k) (tn_runs s ! k)" using runs k by (simp_all add: runs_ok_def)
  have "2 \<le> length r \<and> be16 r = be16 q"
    using session_pending.answer_id [OF use(1) qreach_answer [OF use(2,1) ret]] by simp
  moreover have "(k, j) \<in> set (client_queries s (Inr i))" using assms(5) by (simp add: client_queries_def)
  moreover have "\<exists>s0 s1 d. treach cd alone e s0 \<and> tstep cd alone s0 s1 \<and> (tstep cd alone)\<^sup>*\<^sup>* s1 s \<and> tn_udp s0 i = DgReading d
      \<and> q = take 4096 d \<and> k = un_dns (tn_nat s0) \<and> qy_pc (tn_runs s0 ! k) j = QyNone \<and> tn_udp s1 i = DgAsking k j q"
    using dgram_origin [OF assms(4), of i k j q "Some r"] assms(5) unfolding dgram_asked_def prod.case by blast
  ultimately show ?thesis using ret use(2) cl unfolding queries_apart_def by blast
qed

text \<open>
  C4. A server change takes effect for those who come after it, and for no one else. When the calls of \<open>SetDNS\<close> come one after
  the other, the dialer always has the resolver that was set last, and with no call under way the
  session is what the sequential \<open>SetDNS\<close> makes of it, one call for each server, the NAT included. From any
  point on, a flow that is open and a datagram that has asked keep their resolver, also while a change is under way; a new
  flow never gets a resolver that was replaced before that point, and when no call is under way there no datagram that
  asks later does.
\<close>

theorem tunnel_server_change:
  assumes "exported base b" and "br_sessions b h = Some e" and "treach cd True e s" and "(tstep cd True)\<^sup>*\<^sup>* s t"
  shows "Suc (od_dns (tn_out s)) = length (tn_runs s)
    \<and> (tn_setting s = [] \<longrightarrow> tunnel_engine e s = fold (\<lambda>r. SetDNS (Some r)) (tl (tn_dns s)) e)
    \<and> (\<forall>c. tn_tcp s i = Some c \<longrightarrow> (\<exists>d. tn_tcp t i = Some d \<and> dc_dns d = dc_dns c))
    \<and> (\<forall>d. tn_tcp s i = None \<longrightarrow> tn_tcp t i = Some d \<longrightarrow> length (tn_runs s) \<le> Suc (dc_dns d))
    \<and> (\<forall>k. dgram_dns s i = Some k \<longrightarrow> dgram_dns t i = Some k)
    \<and> (\<forall>k. tn_setting s = [] \<longrightarrow> dgram_dns s i = None \<longrightarrow> dgram_dns t i = Some k \<longrightarrow> length (tn_runs s) \<le> Suc k)"
proof -
  have inv: "change_inv s t" by (rule change_inv_run [OF assms(4)])
  have agree: "un_dns (en_udpNat e) = od_dns (en_outbound e)" using exported_dns [OF assms(1,2)] by (simp add: dns_agree_def)
  have last: "Suc (od_dns (tn_out s)) = length (tn_runs s)" "tn_setting s = [] \<longrightarrow> un_dns (tn_nat s) = od_dns (tn_out s)"
    using alone_inv [OF assms(3)] by auto
  from inv have keep: "conn_dns s i = Some k \<Longrightarrow> conn_dns t i = Some k" "dgram_dns s i = Some k \<Longrightarrow> dgram_dns t i = Some k"
    and new: "conn_dns s i = None \<Longrightarrow> conn_dns t i = Some k \<Longrightarrow> k = od_dns (tn_out s) \<or> length (tn_runs s) \<le> k"
      "dgram_dns s i = None \<Longrightarrow> dgram_dns t i = Some k \<Longrightarrow> k = un_dns (tn_nat s) \<or> since s k" for k
    unfolding change_inv_def by blast+
  have "\<exists>d. tn_tcp t i = Some d \<and> dc_dns d = dc_dns c" if "tn_tcp s i = Some c" for c
    using keep(1) [of "dc_dns c"] that by (auto simp: conn_dns_def)
  moreover have "length (tn_runs s) \<le> Suc (dc_dns d)" if "tn_tcp s i = None" "tn_tcp t i = Some d" for d
    using new(1) [of "dc_dns d"] that last(1) by (auto simp: conn_dns_def)
  moreover have "length (tn_runs s) \<le> Suc k" if "tn_setting s = []" "dgram_dns s i = None" "dgram_dns t i = Some k" for k
    using new(2) [OF that(2,3)] that(1) last by (auto simp: since_def)
  ultimately show ?thesis using last settled_engine [OF assms(3) _ agree] keep(2) by blast
qed

text \<open>
  C33. When they come at once, the last change can be lost for half of the clients. Two calls of \<open>SetDNS\<close> at the same time on any
  session can leave it, with both of them returned, with its TCP flows on one resolver and its datagrams on the other,
  until the next change.
\<close>

theorem concurrent_servers_part:
  assumes "treach cd False e s" and "tn_setting s = []" and "made r" and "made r'" and "start_time r now" and "start_time r' now'"
  shows "\<exists>t. treach cd False e t \<and> tn_setting t = [] \<and> tn_dns t = tn_dns s @ [r, r']
    \<and> od_dns (tn_out t) \<noteq> un_dns (tn_nat t) \<and> tn_dns t ! od_dns (tn_out t) = r' \<and> tn_dns t ! un_dns (tn_nat t) = r"
proof -
  let ?n = "length (tn_runs s)"
  let ?s1 = "set_dialer r now s"
  let ?s2 = "set_dialer r' now' ?s1"
  let ?s3 = "set_nat (Suc ?n) ?s2"
  let ?t = "set_nat ?n ?s3"
  have len: "length (tn_dns s) = ?n" using treach_length [OF assms(1)] by simp
  have 1: "treach cd False e ?s1" by (rule tr_step [OF assms(1) t_set [OF assms(3,5)]]) simp
  have 2: "treach cd False e ?s2" by (rule tr_step [OF 1 t_set [OF assms(4,6)]]) simp
  have 3: "treach cd False e ?s3" by (rule tr_step [OF 2 t_set_udp]) (simp add: assms(2))
  have "treach cd False e ?t" by (rule tr_step [OF 3 t_set_udp]) (simp add: assms(2))
  then show ?thesis
    by (intro exI [of _ ?t]) (simp add: assms(2) len nth_append)
qed

text \<open>
  C3. Nothing that a client waits for is stuck, whatever the others do: from every state that the session can reach, each
  flow can come to the end of all its goroutines, and the query of each datagram to its end, by steps of the tunnel alone.
\<close>

theorem tunnel_completes:
  assumes "exported base b" and "br_sessions b h = Some e" and "id_law cd" and "treach cd alone e s"
  shows "(\<forall>i c. tn_tcp s i = Some c \<longrightarrow>
      (\<exists>s' c'. (tstep cd alone)\<^sup>*\<^sup>* s s' \<and> tn_tcp s' i = Some c' \<and> dns_flow_over (dc_flow c')))
    \<and> (\<forall>i k j q. tn_udp s i = DgAsking k j q \<longrightarrow>
      (\<exists>s' w. (tstep cd alone)\<^sup>*\<^sup>* s s' \<and> tn_udp s' i = DgDone (Some (k, j, q)) w))"
  using flow_ends [OF assms(3) treach_session [OF assms]] dgram_ends [OF treach_session [OF assms]] by blast

subsection \<open>Witnesses\<close>

text \<open>What a flow can do on its own it can do in the tunnel.\<close>

definition add_flow :: "nat \<Rightarrow> source \<Rightarrow> dns_flow \<Rightarrow> tunnel \<Rightarrow> tunnel" where
  "add_flow i src f s = s\<lparr>tn_tcp := (tn_tcp s)(i \<mapsto> \<lparr>dc_dns = od_dns (tn_out s), dc_src = src, dc_flow = f, dc_asks = [], dc_done = []\<rparr>)\<rparr>"

lemma add_flow_run:
  assumes "dfreach (\<lambda>q resp e. False) src f" and "tn_tcp s i = None"
    and "stack_addrPortFromTCPUIP addr port = Some dest" and "isEquivalentAddrPort dest (od_fakeDNSAddr (tn_out s))"
  shows "(tstep cd alone)\<^sup>*\<^sup>* s (add_flow i src f s)"
  using assms(1)
proof (induction rule: dfreach.induct)
  case (dr_start pipe duplex)
  show ?case unfolding add_flow_def
    by (rule r_into_rtranclp [of "tstep cd alone", OF t_open [OF assms(2) fake_flow [OF assms(3,4)] dr_start]])
next
  case (dr_step f f')
  let ?c = "\<lparr>dc_dns = od_dns (tn_out s), dc_src = src, dc_flow = f, dc_asks = [], dc_done = []\<rparr>"
  have "tstep cd alone (add_flow i src f s) ((add_flow i src f s)\<lparr>tn_tcp := (tn_tcp (add_flow i src f s))(i \<mapsto> ?c\<lparr>dc_flow := f'\<rparr>)\<rparr>)"
    by (rule t_flow) (use dr_step.hyps(2) in \<open>simp_all add: add_flow_def\<close>)
  then show ?case using rtranclp.rtrancl_into_rtrancl [of "tstep cd alone", OF dr_step.IH] by (simp add: add_flow_def)
qed

text \<open>The sample session: its start, a flow with one query accepted, and that query begun.\<close>

definition sample_tunnel :: tunnel where
  "sample_tunnel = tunnel_start sample_session 50"

lemma sample_tunnel_fields:
  "tn_dns sample_tunnel = [DoT sample_dot]" "tn_runs sample_tunnel = [query_start (DoT sample_dot) 50]" "tn_setting sample_tunnel = []"
  "tn_tcp sample_tunnel i = None" "tn_udp sample_tunnel i = DgNone" "od_dns (tn_out sample_tunnel) = 0" "un_dns (tn_nat sample_tunnel) = 0"
  "od_fakeDNSAddr (tn_out sample_tunnel) = od_fakeDNSAddr (en_outbound sample_session)"
  "un_fakeDNSAddr (tn_nat sample_tunnel) = un_fakeDNSAddr (en_udpNat sample_session)"
  by (simp_all add: sample_tunnel_def tunnel_start_def sample_table)

lemma sample_start_time: "start_time (DoT sample_dot) 50"
  by (simp add: start_time_def sample_dot_def dot_hangoverDuration_def second_def)

lemma sample_treach: "treach cd alone sample_session sample_tunnel"
  unfolding sample_tunnel_def by (rule tr_start) (simp add: sample_table sample_start_time)

lemma sample_made: "made (DoT sample_dot)"
  by (rule madeI(2) [OF sample_ce_lookup sample_DoT_server])

definition sample_query_flow :: dns_flow where
  "sample_query_flow = accepted_flow \<lparr>pc_local_closed = False, pc_remote_closed = False\<rparr> sample_query None"

lemma sample_query_flow: "dfreach R [(frame sample_query, None)] sample_query_flow"
  unfolding sample_query_flow_def by (rule query_accepted [OF sample_query_frame]) (simp add: newPipeConn_def)

text \<open>A flow with one query accepted, in any state of the session, and that query begun.\<close>

definition sample_flow_in :: "tunnel \<Rightarrow> tunnel" where
  "sample_flow_in s = add_flow 0 [(frame sample_query, None)] sample_query_flow s"

lemma sample_flow_run:
  "(tstep cd alone)\<^sup>*\<^sup>* sample_tunnel (sample_flow_in sample_tunnel)"
  unfolding sample_flow_in_def by (rule add_flow_run [OF sample_query_flow _ sample_fake(1)])
    (use sample_fake(2) in \<open>simp_all add: sample_tunnel_fields\<close>)

definition sample_asked :: tunnel where
  "sample_asked = (sample_flow_in sample_tunnel)\<lparr>tn_runs := [query_begin 0 sample_query (query_start (DoT sample_dot) 50)],
     tn_tcp := [0 \<mapsto> \<lparr>dc_dns = 0, dc_src = [(frame sample_query, None)], dc_flow = sample_query_flow, dc_asks = [(0, sample_query)],
       dc_done = []\<rparr>]\<rparr>"

lemma sample_asked_reach: "treach cd alone sample_session sample_asked"
proof -
  let ?s = "sample_flow_in sample_tunnel"
  let ?c = "\<lparr>dc_dns = 0, dc_src = [(frame sample_query, None)], dc_flow = sample_query_flow, dc_asks = [], dc_done = []\<rparr>"
  have c: "tn_tcp ?s 0 = Some ?c" by (simp add: sample_flow_in_def add_flow_def sample_tunnel_fields)
  have none: "tn_tcp sample_tunnel = Map.empty" by (simp add: sample_tunnel_fields fun_eq_iff)
  have "tstep cd alone ?s (?s\<lparr>tn_runs := (tn_runs ?s)[dc_dns ?c := query_begin 0 sample_query (query_start (DoT sample_dot) 50)],
      tn_tcp := (tn_tcp ?s)(0 \<mapsto> ?c\<lparr>dc_asks := dc_asks ?c @ [(0, sample_query)]\<rparr>)\<rparr>)"
    by (rule t_ask [OF c]) (simp_all add: sample_flow_in_def add_flow_def sample_tunnel_fields query_start_def sample_query_flow_def
        accepted_flow_def)
  also have "?s\<lparr>tn_runs := (tn_runs ?s)[dc_dns ?c := query_begin 0 sample_query (query_start (DoT sample_dot) 50)],
      tn_tcp := (tn_tcp ?s)(0 \<mapsto> ?c\<lparr>dc_asks := dc_asks ?c @ [(0, sample_query)]\<rparr>)\<rparr> = sample_asked"
    by (simp add: sample_asked_def sample_flow_in_def add_flow_def sample_tunnel_fields none)
  finally show ?thesis using tr_step [OF treach_run [OF sample_flow_run sample_treach]] by blast
qed

text \<open>That flow with its query answered.\<close>

theorem tunnel_flows_witness:
  "\<exists>s c. treach sample_codec True sample_session s \<and> tn_tcp s 0 = Some c \<and> dc_done c = [(0, sample_query)]
    \<and> (\<exists>qs ps. (\<not> pipe_closed (df_pipe (dc_flow c)) \<longrightarrow> accepts (src_data (dc_src c)) qs (dc_flow c))
        \<and> prefix (concat (map frame qs)) (src_data (dc_src c)) \<and> prefix (df_out (dc_flow c)) (concat (map (frame \<circ> snd) ps))
        \<and> mset (map fst ps) \<subseteq># mset qs) \<and> distinct (client_queries s (Inl 0))"
proof -
  have inv: "tunnel_inv sample_codec sample_asked"
    by (rule treach_session [OF sample_exported sample_table(1) sample_id_law sample_asked_reach])
  obtain s c where s: "(tstep sample_codec True)\<^sup>*\<^sup>* sample_asked s" "tn_tcp s 0 = Some c" "dc_done c = [(0, sample_query)]"
    using ask_answered [OF inv, of 0 _ 0 sample_query True] by (auto simp: sample_asked_def)
  have reach: "treach sample_codec True sample_session s" by (rule treach_run [OF s(1) sample_asked_reach])
  from tunnel_flows [OF sample_exported sample_table(1) sample_id_law reach s(2)] reach s(2,3) show ?thesis by blast
qed

text \<open>A datagram with the sample query, answered.\<close>

definition sample_dgram :: "dgram \<Rightarrow> query_run \<Rightarrow> tunnel" where
  "sample_dgram d r = sample_tunnel\<lparr>tn_runs := [r], tn_udp := (tn_udp sample_tunnel)(0 := d)\<rparr>"

lemma sample_dgram_answered:
  "\<exists>s b. treach sample_codec True sample_session s \<and> tn_udp s 0 = DgDone (Some (0, 0, sample_query)) (Some b)"
proof -
  let ?r0 = "query_start (DoT sample_dot) 50" and ?r1 = "query_begin 0 sample_query (query_start (DoT sample_dot) 50)"
  obtain r b where r: "(qstep sample_codec)\<^sup>*\<^sup>* ?r1 r" "qy_pc r 0 = QyReturned sample_query (Some b) None"
    using sample_dot_returned by blast
  have b: "b \<noteq> []"
    using session_pending.answer_id [OF sample_dot_usable qreach_answer [OF qreach_run [OF sample_begun r(1)] sample_dot_usable r(2)]] by auto
  have fake: "HandleForwarder (tn_nat sample_tunnel) [10, 111, 222, 3] 53 = ToDNS"
    by (simp add: HandleForwarder_def addrPortFromTCPUIP_def stack_addrPortFromTCPUIP_def sample_tunnel_fields sample_session_def
        isEquivalentAddrPort_def)
  have s0: "sample_dgram DgNone ?r0 = sample_tunnel" by (simp add: sample_dgram_def sample_tunnel_fields fun_upd_idem)
  have 0: "treach sample_codec True sample_session (sample_dgram DgNone ?r0)" unfolding s0 by (rule sample_treach)
  have "tstep sample_codec True sample_tunnel (sample_tunnel\<lparr>tn_udp := (tn_udp sample_tunnel)(0 := DgReading sample_query)\<rparr>)"
    by (rule t_datagram [OF _ fake]) (simp add: sample_tunnel_fields)
  then have 1: "treach sample_codec True sample_session (sample_dgram (DgReading sample_query) ?r0)"
    using tr_step [OF sample_treach] by (simp add: sample_dgram_def flip: sample_tunnel_fields(2))
  let ?s1 = "sample_dgram (DgReading sample_query) ?r0"
  have "tstep sample_codec True ?s1 (?s1\<lparr>tn_runs := (tn_runs ?s1)[0 := query_begin 0 sample_query ?r0],
      tn_udp := (tn_udp ?s1)(0 := DgAsking 0 0 sample_query)\<rparr>)"
    by (rule t_dgram_ask [of ?s1 0 sample_query]) (simp_all add: sample_dgram_def sample_tunnel_fields query_start_def sample_query_def)
  then have 2: "treach sample_codec True sample_session (sample_dgram (DgAsking 0 0 sample_query) ?r1)"
    using tr_step [OF 1] by (simp add: sample_dgram_def)
  let ?s2 = "sample_dgram (DgAsking 0 0 sample_query) ?r1"
  have "(tstep sample_codec True)\<^sup>*\<^sup>* ?s2 (?s2\<lparr>tn_runs := (tn_runs ?s2)[0 := r]\<rparr>)"
    by (rule t_queries) (use r(1) in \<open>simp_all add: sample_dgram_def\<close>)
  moreover have "?s2\<lparr>tn_runs := (tn_runs ?s2)[0 := r]\<rparr> = sample_dgram (DgAsking 0 0 sample_query) r"
    by (cases sample_tunnel) (simp add: sample_dgram_def)
  ultimately have 3: "treach sample_codec True sample_session (sample_dgram (DgAsking 0 0 sample_query) r)"
    using treach_run [OF _ 2] by simp
  let ?s3 = "sample_dgram (DgAsking 0 0 sample_query) r"
  have "tstep sample_codec True ?s3 (?s3\<lparr>tn_udp := (tn_udp ?s3)(0 := DgDone (Some (0, 0, sample_query)) (Some b))\<rparr>)"
    by (rule t_dgram_answer [of ?s3 0 0 0 sample_query "Some b" None])
      (use r(2) b in \<open>simp_all add: sample_dgram_def handleDNS_def the_bytes_def sample_query_def\<close>)
  then show ?thesis using tr_step [OF 3] by (fastforce simp: sample_dgram_def)
qed

theorem tunnel_datagrams_witness:
  "\<exists>s r. treach sample_codec True sample_session s \<and> qy_pc (tn_runs s ! 0) 0 = QyReturned sample_query (Some r) None
    \<and> be16 r = be16 sample_query \<and> (\<exists>s0 d. tn_udp s0 0 = DgReading d \<and> sample_query = take 4096 d \<and> un_dns (tn_nat s0) = 0
        \<and> (tstep sample_codec True)\<^sup>*\<^sup>* s0 s)"
proof -
  obtain s b where s: "treach sample_codec True sample_session s" "tn_udp s 0 = DgDone (Some (0, 0, sample_query)) (Some b)"
    using sample_dgram_answered by blast
  from tunnel_datagrams [OF sample_exported sample_table(1) sample_id_law s] s(1) show ?thesis
    by (metis (no_types, lifting) converse_rtranclp_into_rtranclp)
qed

text \<open>Another server, while that flow is open.\<close>

lemma sample_changed:
  "(tstep sample_codec True)\<^sup>*\<^sup>* (sample_flow_in sample_tunnel) (set_nat 1 (set_dialer (DoT sample_dot) 50 (sample_flow_in sample_tunnel)))"
proof -
  let ?s = "sample_flow_in sample_tunnel"
  have "tstep sample_codec True ?s (set_dialer (DoT sample_dot) 50 ?s)"
    by (rule t_set [OF sample_made sample_start_time]) (simp add: sample_flow_in_def add_flow_def sample_tunnel_fields)
  moreover have "tstep sample_codec True (set_dialer (DoT sample_dot) 50 ?s) (set_nat 1 (set_dialer (DoT sample_dot) 50 ?s))"
    by (rule t_set_udp) (simp add: set_dialer_def sample_flow_in_def add_flow_def sample_tunnel_fields)
  ultimately show ?thesis by (meson converse_rtranclp_into_rtranclp r_into_rtranclp)
qed

theorem tunnel_server_change_witness:
  "\<exists>s t c d. treach sample_codec True sample_session s \<and> (tstep sample_codec True)\<^sup>*\<^sup>* s t \<and> od_dns (tn_out t) \<noteq> od_dns (tn_out s)
    \<and> un_dns (tn_nat t) \<noteq> un_dns (tn_nat s) \<and> tn_tcp s 0 = Some c \<and> tn_tcp t 0 = Some d \<and> dc_dns d = dc_dns c"
proof -
  let ?s = "sample_flow_in sample_tunnel"
  let ?t = "set_nat 1 (set_dialer (DoT sample_dot) 50 ?s)"
  have reach: "treach sample_codec True sample_session ?s" by (rule treach_run [OF sample_flow_run sample_treach])
  obtain c where c: "tn_tcp ?s 0 = Some c" by (simp add: sample_flow_in_def add_flow_def)
  from tunnel_server_change [OF sample_exported sample_table(1) reach sample_changed, of 0] c obtain d where "tn_tcp ?t 0 = Some d" "dc_dns d = dc_dns c" by blast
  moreover have "od_dns (tn_out ?t) \<noteq> od_dns (tn_out ?s)" "un_dns (tn_nat ?t) \<noteq> un_dns (tn_nat ?s)"
    by (simp_all add: sample_flow_in_def add_flow_def sample_tunnel_fields)
  ultimately show ?thesis using reach sample_changed c by blast
qed

text \<open>Two servers at once: the sample's, and the same server without a listener.\<close>

lemma NewDoTServer_listener:
  "NewDoTServer ce url ips True = Inr (DoT d) \<Longrightarrow> NewDoTServer ce url ips b = Inr (DoT (d\<lparr>dr_listener := b\<rparr>))"
  by (auto simp: NewDoTServer_def dot_NewResolver_def Let_def split: sum.splits if_splits prod.splits option.splits)

lemma sample_quiet_made: "made (DoT (sample_dot\<lparr>dr_listener := False\<rparr>))"
  by (rule madeI(2) [OF sample_ce_lookup NewDoTServer_listener [OF sample_DoT_server]])

theorem concurrent_servers_part_witness:
  "\<exists>t. treach sample_codec False sample_session t \<and> tn_setting t = []
    \<and> tn_dns t ! od_dns (tn_out t) = DoT (sample_dot\<lparr>dr_listener := False\<rparr>) \<and> tn_dns t ! un_dns (tn_nat t) = DoT sample_dot
    \<and> tn_dns t ! od_dns (tn_out t) \<noteq> tn_dns t ! un_dns (tn_nat t)"
proof -
  have "start_time (DoT (sample_dot\<lparr>dr_listener := False\<rparr>)) 50" using sample_start_time by (simp add: start_time_def)
  from concurrent_servers_part [OF sample_treach sample_tunnel_fields(3) sample_made sample_quiet_made sample_start_time this]
  obtain t where "treach sample_codec False sample_session t" "tn_setting t = []"
      "tn_dns t ! od_dns (tn_out t) = DoT (sample_dot\<lparr>dr_listener := False\<rparr>)" "tn_dns t ! un_dns (tn_nat t) = DoT sample_dot"
    by blast
  moreover have "sample_dot\<lparr>dr_listener := False\<rparr> \<noteq> sample_dot" by (simp add: sample_dot_def)
  ultimately show ?thesis by (intro exI [of _ t]) simp
qed

theorem tunnel_completes_witness:
  "\<exists>s' c'. (tstep sample_codec True)\<^sup>*\<^sup>* sample_asked s' \<and> tn_tcp s' 0 = Some c' \<and> dns_flow_over (dc_flow c')"
proof -
  obtain c where c: "tn_tcp sample_asked 0 = Some c" by (simp add: sample_asked_def)
  from tunnel_completes [OF sample_exported sample_table(1) sample_id_law sample_asked_reach] c show ?thesis by blast
qed

end
