(* ===== verification/Spec2Isabelle.thy ===== *)
theory Spec2Isabelle
  imports Split Retrier RetrierRuns Protect IPMap DnsMsg Dial Resolver TcpServer Overlap DohResolver DohOverlap DotResolver
    DotOverlap Transport WrapIO UdpRelay Forwarder DnsFlow App Listener Probes Tunnel TunnelFlow ClientAuth Logging CStrings
    QueryRuns TunnelSystem
begin

text \<open>
  A model of localdns-go, the tunnel library of an Android DNS client: it takes over a TUN descriptor, runs a
  user-space network stack on it, answers the device's DNS queries through an encrypted resolver
  (DNS over HTTPS or DNS over TLS) and relays all other TCP and UDP flows, splitting the first segment of TLS
  connections that get no answer.

  \<^bold>\<open>The parts and their theories\<close>, from the bottom up:
  \<^item> \<open>Go_Prelude\<close>, \<open>Go_IO\<close>, \<open>Go_Net\<close>: what the code uses of Go and its standard library. Byte slices are lists of
    8-bit words, sized integers are words, times and durations are nanoseconds; errors are the datatype \<open>goerr\<close> with
    \<open>errors.Is\<close> and \<open>errors.As\<close>; a reader is the list of results of its reads, a writer a state with a write function
    under the contract \<open>io_writer\<close>; \<open>tcp_conn\<close> is a TCP socket, with the failures of its coming writes and its
    half-closes (\<open>c_shut\<close>: what \<open>shutdown\<close> returns; a socket just dialled, \<open>fresh_conn\<close>, may have any); \<open>net.IP\<close>, \<open>ParseIP\<close>, \<open>SplitHostPort\<close> and \<open>Atoi\<close>.
  \<^item> \<open>Split\<close> (transport/split: conn.go, and \<open>splitHello\<close> and \<open>copyOnce\<close> of retrier.go): the split of a TLS hello into two
    records or two segments, and the connection that always splits its first write.
  \<^item> \<open>Retrier\<close> (transport/split/retrier.go): the connection that replays its first bytes, split, on a new socket when
    the first read fails. Its methods are functions; the reader, the writer and the closers interleave in the
    step relation \<open>rstep\<close>, whose atomic steps are the sections under the mutex and the accesses to the flags; the peer can
    reset the connection at any time (\<open>peer_reset\<close>).
  \<^item> \<open>Protect\<close> (common/socket/protect.go): dialers whose sockets stay out of the tunnel, and the choice of a
    system resolver's address.
  \<^item> \<open>IPMap\<close> (proxy/doh/ipmap): the address sets of hosts, with the contract \<open>ip_pool\<close>; sets live in a heap, as two
    callers share one; concurrent calls of \<open>Get\<close> are the relation \<open>gstep\<close>.
  \<^item> \<open>DnsMsg\<close> (proxy/doh: padding.go, names.go, \<open>Servfail\<close>): DNS messages over a codec argument.
  \<^item> \<open>Dial\<close>: the loop over a host's addresses that both resolvers have.
  \<^item> \<open>Resolver\<close> (proxy/doh/doh.go: the interface \<open>Resolver\<close>, \<open>forwardQuery\<close>, the loop of \<open>Accept\<close>; resolver_log.go;
    app/session/probe.go): the contract \<open>dns_resolver\<close> of a resolver and its clients, whose lemmas are proved from it.
  \<^item> \<open>TcpServer\<close> (doh.go): \<open>Accept\<close> with all its goroutines, as the relation \<open>astep\<close>.
  \<^item> \<open>DohResolver\<close> (doh.go) and \<open>DotResolver\<close> (proxy/dot/dot.go): the two resolvers, each an instance of \<open>dns_resolver\<close>.
  \<^item> \<open>Overlap\<close>: what overlapping queries can come back with, as contracts: \<open>dns_answers\<close> and \<open>answers_come\<close> (a relation between
    a query and its results, of which \<open>dns_resolver\<close> is a case), and \<open>hangover_gate\<close> (who comes in a hangover is turned away).
  \<^item> \<open>DohOverlap\<close> (doh.go) and \<open>DotOverlap\<close> (dot.go): any number of queries at once on one resolver, as the relations \<open>ovstep\<close> and
    \<open>dovstep\<close> whose steps are the sections under the locks, for DoT with every access to the shared address set; the
    functions \<open>doQuery\<close> and \<open>dialPlainTCP\<close> are runs of them.
  \<^item> \<open>ClientAuth\<close> (proxy/doh/client_auth.go) and \<open>Logging\<close> (common/log).
  \<^item> \<open>Transport\<close> (transport: addr.go, outbound.go, tcp.go, pipe.go, udp_nat.go, udp_tracker.go, stack_addr.go;
    features/stats): where flows go, wrapped connections with their statistics (\<open>wstep\<close>), the UDP handlers.
  \<^item> \<open>RetrierRuns\<close> (retrier.go): \<open>Write\<close> and \<open>ReadFrom\<close> of a split-retry connection as runs of \<open>rstep\<close>, whatever the other
    threads do meanwhile (\<open>env_steps\<close>, \<open>env_settles\<close>).
  \<^item> \<open>WrapIO\<close> (tcp.go): what \<open>ReadFrom\<close> and \<open>WriteTo\<close> of a wrapped connection carry and count, through all layers
    (\<open>sockets_carry\<close>: on which sockets the bytes are, also when a retry failed).
  \<^item> \<open>UdpRelay\<close> (udp_nat.go): \<open>relay\<close> with its two \<open>copyUDPCount\<close> goroutines, the channel between them, the deadline and the
    passing of time, as the relation \<open>ustep\<close>; the report is tied to the state in which it was made (\<open>uafter\<close>).
  \<^item> \<open>Forwarder\<close> (transport/stack: tcp_forwarder.go, addrs.go): a TCP flow with its two relays, its handler and its
    report: \<open>hstep\<close> are the steps of the handler and of the goroutine that waits to report, \<open>fstep\<close> all, those of the relays on
    the outgoing connection (a socket, or the threads of a split-retry connection) included.
  \<^item> \<open>DnsFlow\<close> (tcp_forwarder.go, pipe.go, doh.go): a flow to the fake DNS address with both relays, the unbuffered pipe,
    \<open>Accept\<close>, its goroutines and the handler, as the relation \<open>dfstep\<close>, on any relation between queries and results. \<open>accepts\<close> cuts what the client's relay wrote into the queries that \<open>Accept\<close> took.
  \<^item> \<open>App\<close> (transport/stack/device.go, core/engine.go, app/session, common/tun, infra/android/bridge.go, main/main.go): the
    device, the engine, sessions, the table of sessions behind the exported functions, with the open descriptors and the closes that met none (\<open>fds\<close>).
  \<^item> \<open>Listener\<close> (app/session/doh.go, bridge.go): the listener adapter and the bridge's listener, and what Java hears of a
    query.
  \<^item> \<open>Probes\<close> (app/session/probe.go, bridge.go, main.go): a resolver of either kind as one value of the interface,
    the probes, and what the DNS clients of the tunnel get over TCP and UDP.
  \<^item> \<open>Tunnel\<close>: all of it together, from any calls of the exported functions (\<open>exported\<close>) to the answers that a DNS client
    gets, through the session table, the routing of the flow, the pipe, \<open>Accept\<close> and the session's resolver, whatever
    queries that has had (\<open>in_use\<close>).
  \<^item> \<open>TunnelFlow\<close>: the same for whole TCP flows, with \<open>dfstep\<close> on the overlapping queries of the session's resolver.
  \<^item> \<open>QueryRuns\<close> (doh.go, dot.go): \<open>Query\<close> in any number of goroutines on a resolver of either kind, as the relation \<open>qstep\<close> around
    \<open>ovstep\<close> and \<open>dovstep\<close>: the calls of the listener, the clock and the log of the queries mix in any order; \<open>query_timed\<close> is the time from a query's start to
    its return.
  \<^item> \<open>TunnelSystem\<close> (engine.go, outbound.go, udp_nat.go, tcp_forwarder.go): a session at work, as the relation \<open>tstep\<close>: all its
    DNS flows (\<open>dfstep\<close>) and datagrams, its resolvers one after the other, each with one history of queries (\<open>qstep\<close>), and
    \<open>SetDNS\<close> while they run, also several calls at once.
  \<^item> \<open>CStrings\<close> (main.go, bridge.go): the exported functions and the callbacks on a heap of C strings, with the log line of
    a failure and the version; a history there (\<open>c_reach\<close>) is a history of the functions on strings (\<open>exported\<close>), and each call
    one of those functions on the strings that its pointers stand for (\<open>c_text\<close>, \<open>as_on_strings\<close>).

  \<^bold>\<open>How they fit together.\<close> \<open>Retrier\<close> calls \<open>splitHello\<close> on the socket, which is an instance of \<open>io_writer\<close>; \<open>Dial\<close> dials
  with \<open>DialWithSplitRetry\<close> through the address sets; the resolvers dial with \<open>Dial\<close>, pad with \<open>DnsMsg\<close> and report
  through \<open>Resolver\<close>; \<open>Probes\<close> interprets \<open>dns_resolver\<close> and \<open>dns_relay\<close> on the sum of both resolvers, so that
  the lemmas about \<open>forwardQuery\<close>, \<open>Accept\<close>, the UDP handler and the probes hold of the program's resolvers; \<open>TunnelFlow\<close>
  interprets \<open>answers_come\<close> on what the overlapping queries of either resolver can return, and so \<open>DnsFlow\<close> holds of them; \<open>TunnelSystem\<close>
  interprets \<open>dns_answers\<close> on what the goroutines of a flow got in the history of the flow's resolver, so that the answers of
  a flow are those of queries that the flow itself began there.

  \<^bold>\<open>What the lemmas show.\<close>
  \<^item> Transparency: the peer of a split or retried connection gets the bytes the caller wrote, up to
    the record boundaries of the hello, in every interleaving; at most one retry; closes survive it, where the socket lets
    itself be shut down.
  \<^item> The resolvers: a success is the server's answer with the query's ID put back, the ID never leaves the
    device; failures give the documented status, the hangover and SERVFAIL where the code has them; the
    working address of a host is learnt and unlearnt; every query returns (no panic), every connection is closed.
  \<^item> The DNS clients: whole frames with matching IDs, no query answered twice, all that were taken answered when nothing is under
    way; no deadlock over the pipe, and an end to every flow, with everything closed; what a half-close loses.
  \<^item> A session at work: every answer that a client gets is the result of a query of its own, on the resolver that was set when
    its flow was opened or its datagram read, and stays with it; every flow and every datagram can come to its end, whatever the others do; a server
    change is for those who come later, and two at once can part the transports.
  \<^item> The listener: of every query that was not cancelled Java hears once, with its name, status and time, however the queries
    overlap.
  \<^item> Overlapping queries: IDs, answers, the hangover and the tries of a dial are as in the sequential functions.
  \<^item> The boundary to C: every string that Go allocates or takes over is freed once, and no other; status, handle and log agree.
  \<^item> Flows: one report per connection, never early in its closes, exact counters at the end; the upload is a first part
    of the client's bytes, once each, through wrapper, retrier and socket, the download what the (second) server sent;
    a UDP flow passes datagrams on whole and in order, leaves no goroutine and no socket behind, and ends with its deadline.
  \<^item> Sessions: no descriptor leaks or is closed twice, handles are fresh, both transports agree.

  \<^bold>\<open>Arguments of the model\<close>, for code that is not in the repository, with the hypotheses that stand for its documented
  behaviour: the DNS message codec (\<open>id_law\<close>: a message keeps the ID of the bytes it was parsed from;
  \<open>len_law\<close>: an option adds four bytes and its data; \<open>trip_law\<close>: packing and unpacking agree); name lookups return
  addresses of four or sixteen bytes (\<open>lookup_ok\<close>); the network treats both forms of an IPv4 address alike (\<open>norm_net\<close>);
  \<open>http.Client.Do\<close> and \<open>tls.Conn\<close> (\<open>env_ok\<close>, \<open>tls_env_ok\<close>: addresses are well-formed, writes keep the writer's contract);
  \<open>net/url\<close> parsing, \<open>crypto/x509\<close>, the text handler of \<open>log/slog\<close>, the results of gVisor and of \<open>dup\<close>, the text of an error and the conversion of a latency to milliseconds. The clock, random draws and
  dials are arguments too. Each hypothesis is shown to hold of a concrete instance by the witnesses.

  \<^bold>\<open>Bounds.\<close> The handle of a session is a 32-bit counter: freshness is stated for the first 4294967290 connects, before it
  can wrap. The length of a padded query is bounded by 16383 bytes where name compression is concerned. No fuel is
  used: every loop is a total function with a measure, and the concurrent parts are relations.

  \<^bold>\<open>Not modelled\<close>: gVisor and the packets under it; \<open>net/http\<close> and \<open>crypto/tls\<close> inside; cancellation of contexts other than by its
  error; \<open>LocalAddr\<close>; the calls of the log functions, except for the line of a query and \<open>logError\<close>; the debug callbacks of
  the HTTP trace; \<open>debug.SetGCPercent\<close>; the JNI code in C; the two empty methods of \<open>jniListener\<close>. On the C heap an address is
  not used again after \<open>free\<close>, and \<open>malloc\<close> does not fail (\<open>C.CString\<close> crashes then).
  In \<open>Probes\<close>, \<open>TcpServer\<close> and \<open>Tunnel\<close> a \<open>Query\<close> is one step on the resolver's state, and in \<open>TunnelFlow\<close> it may have any
  result that some history of overlapping queries gives it; \<open>TunnelSystem\<close> has the whole: one history per resolver, in which all
  clients take part. Each resolver has its own clock there. \<open>Disconnect\<close> is not a step of \<open>TunnelSystem\<close>: what it does to the
  clients (streams that end, writes that fail, queries that are cancelled) is among their steps at any time.
  In \<open>RetrierRuns\<close> other threads act
  between the writes of \<open>ReadFrom\<close> until the connection is settled; its last part, the copy into the settled socket, is
  one after the other there, and interleaved only in \<open>rstep\<close>.
\<close>

end
